(* ===== verification/Prelude.thy ===== *)
theory Prelude
  imports
    Main
    "HOL-Library.Word"
    "HOL-Library.AList"
    "HOL-Library.Char_ord"
    "HOL-Library.List_Lexorder"
    "HOL-Library.Multiset"
begin

text \<open>
  Shared vocabulary of the development.

  \<^item> Machine integers.  \<open>usize\<close> and \<open>u64\<close> are natural numbers whose wrap-around,
    saturation and overflow checks are written out; the widths are those of a 64-bit target.
  \<^item> Failure.  A fallible operation returns \<open>'e fault + 'a\<close>: \<open>Inl (Err e)\<close> is the
    source's \<open>Err(e)\<close>, \<open>Inl Panic\<close> a panic (\<open>expect\<close>, indexing a missing key), and
    \<open>Inr\<close> the successful result.
  \<^item> Binary64.  An \<open>f64\<close> is its 64-bit pattern; \<open>==\<close>, \<open>partial_cmp\<close> and
    \<open>total_cmp\<close> are defined on the sign and magnitude fields.
  \<^item> Maps.  A \<open>HashMap\<close> is an association list without repeated keys (updated with
    \<open>AList.update\<close> and \<open>AList.delete\<close>, read with \<open>map_of\<close>); a \<open>BTreeMap\<close> is an
    association list in strictly ascending key order, updated with \<open>bt_insert\<close>.
    Strings are byte strings, ordered bytewise as Rust orders \<open>str\<close>.
\<close>

named_theorems haystack_simps "definitions unfolded when a model term is evaluated"
named_theorems wf_intros "preservation of well-formedness by the operations"

section \<open>Failure\<close>

datatype 'e fault = Err 'e | Panic

type_synonym ('e, 'a) res = "'e fault + 'a"

definition ok_or :: "'e fault \<Rightarrow> 'a option \<Rightarrow> ('e, 'a) res" where
  "ok_or e x = (case x of None \<Rightarrow> Inl e | Some a \<Rightarrow> Inr a)"

definition expect :: "'a option \<Rightarrow> ('e, 'a) res" where
  "expect x = (case x of None \<Rightarrow> Inl Panic | Some a \<Rightarrow> Inr a)"

definition rbind :: "('e, 'a) res \<Rightarrow> ('a \<Rightarrow> ('e, 'b) res) \<Rightarrow> ('e, 'b) res" where
  "rbind x f = (case x of Inl e \<Rightarrow> Inl e | Inr a \<Rightarrow> f a)"

lemma rbind_simps [simp]:
  "rbind (Inl e) f = Inl e"
  "rbind (Inr a) f = f a"
  by (simp_all add: rbind_def)

lemma rbind_eq_Inr [simp]: "rbind x f = Inr b \<longleftrightarrow> (\<exists>a. x = Inr a \<and> f a = Inr b)"
  by (cases x) simp_all

lemma rbind_cong [fundef_cong]:
  "x = y \<Longrightarrow> (\<And>a. y = Inr a \<Longrightarrow> f a = g a) \<Longrightarrow> rbind x f = rbind y g"
  by (cases y) simp_all

lemma expect_simps [simp]:
  "expect None = Inl Panic"
  "expect (Some a) = Inr a"
  "expect x = Inr a \<longleftrightarrow> x = Some a"
  by (simp_all add: expect_def split: option.split)

lemma map_sum_Inr: "map_sum f g r = Inr b \<longleftrightarrow> (\<exists>a. r = Inr a \<and> b = g a)"
  by (cases r) auto

lemma ok_or_simps [simp]:
  "ok_or e None = Inl e"
  "ok_or e (Some a) = Inr a"
  "ok_or e x = Inr a \<longleftrightarrow> x = Some a"
  by (simp_all add: ok_or_def split: option.split)

section \<open>Sizes of nested data\<close>

lemma size_list_member: "x \<in> set xs \<Longrightarrow> f x \<le> size_list f xs"
  by (erule size_list_estimation') simp

lemma size_list_snd: "(a, b) \<in> set xs \<Longrightarrow> g b \<le> size_list (size_prod (\<lambda>x. 0) g) xs"
  by (erule size_list_estimation') simp

lemma size_list_member_add:
  "x \<in> set xs \<Longrightarrow> f x \<le> size_list f xs + n"
  "x \<in> set xs \<Longrightarrow> f x \<le> n + size_list f xs"
  using size_list_member [of x xs f] by simp_all

section \<open>Machine integers\<close>

definition U32_MAX :: nat where
  "U32_MAX = 4294967295"

definition U64_MAX :: nat where
  "U64_MAX = 18446744073709551615"

definition USIZE_MAX :: nat where
  "USIZE_MAX = 18446744073709551615"

definition checked_add_u64 :: "nat \<Rightarrow> nat \<Rightarrow> nat option" where
  "checked_add_u64 a b = (if a + b \<le> U64_MAX then Some (a + b) else None)"

definition checked_add_usize :: "nat \<Rightarrow> nat \<Rightarrow> nat option" where
  "checked_add_usize a b = (if a + b \<le> USIZE_MAX then Some (a + b) else None)"

definition saturating_add :: "nat \<Rightarrow> nat \<Rightarrow> nat" where
  "saturating_add a b = min (a + b) USIZE_MAX"

definition saturating_mul :: "nat \<Rightarrow> nat \<Rightarrow> nat" where
  "saturating_mul a b = min (a * b) USIZE_MAX"

definition as_u32 :: "nat \<Rightarrow> nat" where
  "as_u32 n = n mod 4294967296"

definition u32_try_from :: "nat \<Rightarrow> nat option" where
  "u32_try_from n = (if n \<le> U32_MAX then Some n else None)"

lemma as_u32_id [simp]: "n \<le> U32_MAX \<Longrightarrow> as_u32 n = n"
  by (simp add: as_u32_def U32_MAX_def)

lemma u32_try_from_Some [simp]: "n \<le> U32_MAX \<Longrightarrow> u32_try_from n = Some n"
  by (simp add: u32_try_from_def)

lemma u32_try_from_eq_Some: "u32_try_from n = Some m \<longleftrightarrow> n \<le> U32_MAX \<and> m = n"
  by (auto simp: u32_try_from_def)

lemma checked_add_u64_eq_Some:
  "checked_add_u64 a b = Some c \<longleftrightarrow> a + b \<le> U64_MAX \<and> c = a + b"
  by (auto simp: checked_add_u64_def)

lemma checked_add_usize_eq_Some:
  "checked_add_usize a b = Some c \<longleftrightarrow> a + b \<le> USIZE_MAX \<and> c = a + b"
  by (auto simp: checked_add_usize_def)

section \<open>Orderings\<close>

datatype ordering = Less | Equal | Greater

definition cmp :: "'a::linorder \<Rightarrow> 'a \<Rightarrow> ordering" where
  "cmp a b = (if a < b then Less else if a = b then Equal else Greater)"

lemma cmp_simps [simp]:
  "cmp a b = Less \<longleftrightarrow> a < b"
  "cmp a b = Equal \<longleftrightarrow> a = b"
  "cmp a b = Greater \<longleftrightarrow> b < a"
  by (auto simp: cmp_def)

section \<open>Binary64 values\<close>

type_synonym f64 = "64 word"

definition f64_neg :: "f64 \<Rightarrow> bool" where
  "f64_neg w \<longleftrightarrow> 9223372036854775808 \<le> uint w"

definition f64_mag :: "f64 \<Rightarrow> int" where
  "f64_mag w = uint w mod 9223372036854775808"

definition f64_is_nan :: "f64 \<Rightarrow> bool" where
  "f64_is_nan w \<longleftrightarrow> 9218868437227405312 < f64_mag w"

definition f64_key :: "f64 \<Rightarrow> int" where
  "f64_key w = (if f64_neg w then - f64_mag w else f64_mag w)"

definition f64_total_key :: "f64 \<Rightarrow> int" where
  "f64_total_key w = (if f64_neg w then - f64_mag w - 1 else f64_mag w)"

definition f64_eq :: "f64 \<Rightarrow> f64 \<Rightarrow> bool" where
  "f64_eq a b \<longleftrightarrow> \<not> f64_is_nan a \<and> \<not> f64_is_nan b \<and> f64_key a = f64_key b"

definition f64_partial_cmp :: "f64 \<Rightarrow> f64 \<Rightarrow> ordering option" where
  "f64_partial_cmp a b =
     (if f64_is_nan a \<or> f64_is_nan b then None else Some (cmp (f64_key a) (f64_key b)))"

definition f64_total_cmp :: "f64 \<Rightarrow> f64 \<Rightarrow> ordering" where
  "f64_total_cmp a b = cmp (f64_total_key a) (f64_total_key b)"

lemma f64_mag_nonneg: "0 \<le> f64_mag w"
  by (simp add: f64_mag_def)

lemma f64_split: "uint w = (if f64_neg w then 9223372036854775808 else 0) + f64_mag w"
proof -
  have bound: "0 \<le> uint w" "uint w < 18446744073709551616"
    using uint_bounded [of w] by simp_all
  show ?thesis
  proof (cases "f64_neg w")
    case True
    have "uint w mod 9223372036854775808 = (uint w - 9223372036854775808) mod 9223372036854775808"
      by simp
    also have "\<dots> = uint w - 9223372036854775808"
      using bound True by (simp only: mod_pos_pos_trivial f64_neg_def)
    finally show ?thesis
      using True by (simp add: f64_mag_def)
  next
    case False
    with bound show ?thesis
      by (simp add: f64_mag_def f64_neg_def)
  qed
qed

lemma f64_total_key_inj: "f64_total_key a = f64_total_key b \<Longrightarrow> a = b"
proof -
  assume eq: "f64_total_key a = f64_total_key b"
  have "f64_neg a = f64_neg b \<and> f64_mag a = f64_mag b"
    using eq f64_mag_nonneg [of a] f64_mag_nonneg [of b]
    by (simp add: f64_total_key_def split: if_splits)
  then have "uint a = uint b"
    by (simp add: f64_split)
  then show "a = b"
    by (simp add: word_uint_eq_iff)
qed

lemma f64_total_key_eq_iff [simp]: "f64_total_key a = f64_total_key b \<longleftrightarrow> a = b"
  by (auto dest: f64_total_key_inj)

text \<open>The total order refines the numeric one: a strict numeric comparison, and any numeric
  comparison against a non-zero bound, is decided the same way by \<open>total_cmp\<close>.\<close>

lemma f64_key_less_total: "f64_key a < f64_key b \<Longrightarrow> f64_total_key a < f64_total_key b"
  using f64_mag_nonneg [of a] f64_mag_nonneg [of b]
  by (simp add: f64_key_def f64_total_key_def split: if_splits)

lemma f64_key_le_total:
  "f64_key a \<le> f64_key b \<Longrightarrow> f64_key b \<noteq> 0 \<Longrightarrow> f64_total_key a \<le> f64_total_key b"
  using f64_mag_nonneg [of a] f64_mag_nonneg [of b]
  by (simp add: f64_key_def f64_total_key_def split: if_splits)

lemma f64_key_ge_total:
  "f64_key b \<le> f64_key a \<Longrightarrow> f64_key b \<noteq> 0 \<Longrightarrow> f64_total_key b \<le> f64_total_key a"
  using f64_mag_nonneg [of a] f64_mag_nonneg [of b]
  by (simp add: f64_key_def f64_total_key_def split: if_splits)

section \<open>Hash maps\<close>

abbreviation hm_wf :: "('k \<times> 'v) list \<Rightarrow> bool" where
  "hm_wf m \<equiv> distinct (map fst m)"

declare map_of_eq_Some_iff [simp del] Some_eq_map_of_iff [simp del]

lemmas hm_lookup [simp] = AList.update_conv' AList.delete_conv'

lemma hm_wf_update [wf_intros, simp]: "hm_wf m \<Longrightarrow> hm_wf (AList.update k v m)"
  by (rule AList.distinct_update)

lemma hm_wf_delete [wf_intros, simp]: "hm_wf m \<Longrightarrow> hm_wf (AList.delete k m)"
  by (rule AList.distinct_delete)

lemma hm_wf_filter [wf_intros, simp]: "hm_wf m \<Longrightarrow> hm_wf (filter P m)"
  by (induction m) auto

lemma hm_map_of_filter:
  "hm_wf m \<Longrightarrow>
   map_of (filter P m) k = (case map_of m k of None \<Rightarrow> None | Some v \<Rightarrow> if P (k, v) then Some v else None)"
proof (induction m)
  case (Cons p m)
  have "map_of m k = None" if "fst p = k"
    using that Cons.prems by (auto simp: map_of_eq_None_iff)
  with Cons show ?case
    by (cases p) (auto split: option.splits)
qed simp

lemma hm_in_set_iff: "hm_wf m \<Longrightarrow> (k, v) \<in> set m \<longleftrightarrow> map_of m k = Some v"
  by (simp add: map_of_eq_Some_iff)

section \<open>Ordered maps\<close>

abbreviation bt_wf :: "('k::linorder \<times> 'v) list \<Rightarrow> bool" where
  "bt_wf m \<equiv> sorted_wrt (<) (map fst m)"

fun bt_insert :: "'k::linorder \<Rightarrow> 'v \<Rightarrow> ('k \<times> 'v) list \<Rightarrow> ('k \<times> 'v) list" where
  "bt_insert k v [] = [(k, v)]"
| "bt_insert k v (p # m) =
     (case cmp k (fst p) of
        Less \<Rightarrow> (k, v) # p # m
      | Equal \<Rightarrow> (k, v) # m
      | Greater \<Rightarrow> p # bt_insert k v m)"

lemma bt_wf_distinct: "bt_wf m \<Longrightarrow> distinct (map fst m)"
  by (simp add: strict_sorted_iff)

lemma bt_keys_insert [simp]: "fst ` set (bt_insert k v m) = insert k (fst ` set m)"
  by (induction m) (auto split: ordering.splits)

lemma bt_lookup_insert [simp]: "map_of (bt_insert k v m) = (map_of m)(k \<mapsto> v)"
  by (induction m) (auto simp: fun_eq_iff cmp_def)

lemma bt_wf_insert [wf_intros, simp]: "bt_wf m \<Longrightarrow> bt_wf (bt_insert k v m)"
proof (induction m)
  case (Cons p m)
  then have "bt_wf (bt_insert k v m)" and "\<forall>q \<in> fst ` set m. fst p < q"
    by auto
  moreover have "fst ` set (bt_insert k v m) = insert k (fst ` set m)"
    by simp
  ultimately show ?case
    using Cons.prems by (auto simp: cmp_def simp del: bt_keys_insert)
qed simp

lemma bt_wf_delete [wf_intros, simp]: "bt_wf m \<Longrightarrow> bt_wf (AList.delete k m)"
  by (induction m) (auto simp: AList.delete_eq)

lemma bt_in_set_iff: "bt_wf m \<Longrightarrow> (k, v) \<in> set m \<longleftrightarrow> map_of m k = Some v"
  by (simp add: bt_wf_distinct map_of_eq_Some_iff)

section \<open>Maps to vectors\<close>

text \<open>\<open>m.get(k)\<close> with an absent vector read as empty, and
  \<open>m.entry(k).or_default().push(x)\<close> on either kind of map.\<close>

definition vec_at :: "('k \<times> 'x list) list \<Rightarrow> 'k \<Rightarrow> 'x list" where
  "vec_at m k = (case map_of m k of None \<Rightarrow> [] | Some xs \<Rightarrow> xs)"

definition hm_push :: "'k \<Rightarrow> 'x \<Rightarrow> ('k \<times> 'x list) list \<Rightarrow> ('k \<times> 'x list) list" where
  "hm_push k x m = AList.update k (vec_at m k @ [x]) m"

definition bt_push :: "'k::linorder \<Rightarrow> 'x \<Rightarrow> ('k \<times> 'x list) list \<Rightarrow> ('k \<times> 'x list) list" where
  "bt_push k x m = bt_insert k (vec_at m k @ [x]) m"

definition no_empty_vec :: "('k \<times> 'x list) list \<Rightarrow> bool" where
  "no_empty_vec m \<longleftrightarrow> (\<forall>k. map_of m k \<noteq> Some [])"

lemma vec_at_Nil [simp]: "vec_at [] k = []"
  by (simp add: vec_at_def)

lemma vec_at_push [simp]:
  "vec_at (hm_push k x m) k' = vec_at m k' @ (if k' = k then [x] else [])"
  "vec_at (bt_push k x m) k' = vec_at m k' @ (if k' = k then [x] else [])"
  by (simp_all add: vec_at_def hm_push_def bt_push_def)

lemma vec_at_update [simp]:
  "vec_at (AList.update k xs m) k' = (if k' = k then xs else vec_at m k')"
  "vec_at (bt_insert k xs m) k' = (if k' = k then xs else vec_at m k')"
  "vec_at (AList.delete k m) k' = (if k' = k then [] else vec_at m k')"
  by (simp_all add: vec_at_def)

lemma vec_push_wf [wf_intros, simp]:
  "hm_wf m \<Longrightarrow> hm_wf (hm_push k x m)"
  "bt_wf m' \<Longrightarrow> bt_wf (bt_push k' x' m')"
  by (simp_all add: hm_push_def bt_push_def)

lemma no_empty_vec_push [wf_intros, simp]:
  "no_empty_vec m \<Longrightarrow> no_empty_vec (hm_push k x m)"
  "no_empty_vec m' \<Longrightarrow> no_empty_vec (bt_push k' x' m')"
  by (simp_all add: no_empty_vec_def hm_push_def bt_push_def)

text \<open>The contract of a map, as the components use it, and its two providers.\<close>

locale map_contract =
  fixes put :: "'k \<Rightarrow> 'v \<Rightarrow> ('k \<times> 'v) list \<Rightarrow> ('k \<times> 'v) list"
    and drop_key :: "'k \<Rightarrow> ('k \<times> 'v) list \<Rightarrow> ('k \<times> 'v) list"
    and wf :: "('k \<times> 'v) list \<Rightarrow> bool"
  assumes put_lookup: "map_of (put k v m) = (map_of m)(k \<mapsto> v)"
    and drop_lookup: "map_of (drop_key k m) = (map_of m)(k := None)"
    and put_wf: "wf m \<Longrightarrow> wf (put k v m)"
    and drop_wf: "wf m \<Longrightarrow> wf (drop_key k m)"
    and wf_keys: "wf m \<Longrightarrow> distinct (map fst m)"
begin

lemma in_set_iff: "wf m \<Longrightarrow> p \<in> set m \<longleftrightarrow> map_of m (fst p) = Some (snd p)"
  using map_of_eq_Some_iff [OF wf_keys, of m "fst p" "snd p"] by (simp add: prod.collapse)

lemma set_put: "wf m \<Longrightarrow> set (put k v m) = insert (k, v) {p \<in> set m. fst p \<noteq> k}"
  by (rule set_eqI) (simp add: in_set_iff put_wf put_lookup prod_eq_iff, blast)

lemma set_drop: "wf m \<Longrightarrow> set (drop_key k m) = {p \<in> set m. fst p \<noteq> k}"
  by (rule set_eqI) (simp add: in_set_iff drop_wf drop_lookup)

lemma card_put_fresh:
  assumes "wf m" and "map_of m k = None"
  shows "length (put k v m) = Suc (length m)"
proof -
  have "length (put k v m) = card (dom (map_of (put k v m)))"
    using put_wf [OF assms(1), THEN wf_keys]
    by (metis distinct_card dom_map_of_conv_image_fst length_map list.set_map)
  also have "\<dots> = Suc (card (dom (map_of m)))"
    using assms(2) by (simp add: put_lookup finite_dom_map_of domIff)
  also have "card (dom (map_of m)) = length m"
    using wf_keys [OF assms(1)]
    by (metis distinct_card dom_map_of_conv_image_fst length_map list.set_map)
  finally show ?thesis .
qed

end

interpretation hm: map_contract AList.update AList.delete "\<lambda>m. distinct (map fst m)"
  by unfold_locales simp_all

interpretation bt: map_contract bt_insert AList.delete "\<lambda>m. sorted_wrt (<) (map fst m)"
  by unfold_locales (simp_all add: bt_wf_distinct)

end
