(* ===== verification/Values.thy ===== *)
theory Values
  imports Prelude
begin

text \<open>
  Haystack values: \<open>haystack-core/src/kinds\<close> and \<open>haystack-core/src/data\<close>.

  \<open>kind\<close> is the enum \<open>Kind\<close>, mutually recursive with \<open>HDict\<close>, \<open>HCol\<close> and
  \<open>HGrid\<close>.  Equality of values is \<open>kind_eq\<close>, the derived and hand-written
  \<open>PartialEq\<close> implementations together: floats by bit pattern, references by identifier only,
  date-times by instant and time-zone name, dictionaries as maps.

  A calendar date of the \<open>chrono\<close> crate is its day number, a time of day its seconds and
  sub-second nanoseconds, a zoned date-time its UTC instant and offset; only equality and order
  of these are used.  The \<open>scan_bound\<close> field of \<open>HDict\<close>, a bound on the hash table's
  bucket count that no operation modelled here reads, is left out.
\<close>

section \<open>Scalars\<close>

record number =
  num_val :: f64
  num_unit :: "string option"

record href =
  ref_val :: string
  ref_dis :: "string option"

record hdatetime =
  dt_instant :: int
  dt_offset :: int
  tz_name :: string

record coord =
  lat :: f64
  lng :: f64

record nominal =
  nom_spec :: string
  nom_catalog :: string
  nom_revision :: string
  nom_text :: string

record xstr =
  type_name :: string
  xstr_val :: string

type_synonym naive_date = int
type_synonym naive_time = "nat \<times> nat"

definition number_eq :: "number \<Rightarrow> number \<Rightarrow> bool" where
  "number_eq a b \<longleftrightarrow> num_val a = num_val b \<and> num_unit a = num_unit b"

definition number_partial_cmp :: "number \<Rightarrow> number \<Rightarrow> ordering option" where
  "number_partial_cmp a b =
     (if num_unit a \<noteq> num_unit b then None else f64_partial_cmp (num_val a) (num_val b))"

definition unitless :: "f64 \<Rightarrow> number" where
  "unitless v = \<lparr>num_val = v, num_unit = None\<rparr>"

definition href_eq :: "href \<Rightarrow> href \<Rightarrow> bool" where
  "href_eq a b \<longleftrightarrow> ref_val a = ref_val b"

definition href_from_val :: "string \<Rightarrow> href" where
  "href_from_val v = \<lparr>ref_val = v, ref_dis = None\<rparr>"

definition hdatetime_eq :: "hdatetime \<Rightarrow> hdatetime \<Rightarrow> bool" where
  "hdatetime_eq a b \<longleftrightarrow> dt_instant a = dt_instant b \<and> tz_name a = tz_name b"

definition hdatetime_partial_cmp :: "hdatetime \<Rightarrow> hdatetime \<Rightarrow> ordering option" where
  "hdatetime_partial_cmp a b = Some (cmp (dt_instant a) (dt_instant b))"

definition naive_time_cmp :: "naive_time \<Rightarrow> naive_time \<Rightarrow> ordering" where
  "naive_time_cmp a b =
     (case cmp (fst a) (fst b) of Equal \<Rightarrow> cmp (snd a) (snd b) | Less \<Rightarrow> Less | Greater \<Rightarrow> Greater)"

definition coord_eq :: "coord \<Rightarrow> coord \<Rightarrow> bool" where
  "coord_eq a b \<longleftrightarrow> lat a = lat b \<and> lng a = lng b"

section \<open>Values, dictionaries and grids\<close>

datatype kind =
    KNull
  | KNone
  | KInt "64 word"
  | KFloat f64
  | KBuf "8 word list"
  | KNominal nominal
  | KMarker
  | KNA
  | KRemove
  | KBool bool
  | KNumber number
  | KStr string
  | KRef href
  | KUri string
  | KSymbol string
  | KDate naive_date
  | KTime naive_time
  | KDateTime hdatetime
  | KCoord coord
  | KXStr xstr
  | KList "kind list"
  | KDict hdict
  | KGrid hgrid
and hdict = HDict (tags: "(string \<times> kind) list")
and hcol = HCol (col_name: string) (col_meta: hdict)
and hgrid = HGrid (grid_meta: hdict) (grid_cols: "hcol list") (grid_rows: "hdict list")

text \<open>\<open>PartialEq\<close>: the scalars above, lists and grids elementwise, dictionaries as
  \<open>HashMap\<close> compares them (equal sizes, and every entry of one found in the other).\<close>

function (sequential) kind_eq :: "kind \<Rightarrow> kind \<Rightarrow> bool"
  and hdict_eq :: "hdict \<Rightarrow> hdict \<Rightarrow> bool"
  and hcol_eq :: "hcol \<Rightarrow> hcol \<Rightarrow> bool"
  and hgrid_eq :: "hgrid \<Rightarrow> hgrid \<Rightarrow> bool" where
  "kind_eq (KNumber a) k = (case k of KNumber b \<Rightarrow> number_eq a b | _ \<Rightarrow> False)"
| "kind_eq (KRef a) k = (case k of KRef b \<Rightarrow> href_eq a b | _ \<Rightarrow> False)"
| "kind_eq (KDateTime a) k = (case k of KDateTime b \<Rightarrow> hdatetime_eq a b | _ \<Rightarrow> False)"
| "kind_eq (KCoord a) k = (case k of KCoord b \<Rightarrow> coord_eq a b | _ \<Rightarrow> False)"
| "kind_eq (KList xs) k = (case k of KList ys \<Rightarrow> list_all2 kind_eq xs ys | _ \<Rightarrow> False)"
| "kind_eq (KDict a) k = (case k of KDict b \<Rightarrow> hdict_eq a b | _ \<Rightarrow> False)"
| "kind_eq (KGrid a) k = (case k of KGrid b \<Rightarrow> hgrid_eq a b | _ \<Rightarrow> False)"
| "kind_eq a k = (a = k)"
| "hdict_eq (HDict xs) (HDict ys) =
     (length xs = length ys \<and>
      list_all (\<lambda>(n, v). case map_of ys n of None \<Rightarrow> False | Some w \<Rightarrow> kind_eq v w) xs)"
| "hcol_eq (HCol n m) (HCol n' m') = (n = n' \<and> hdict_eq m m')"
| "hgrid_eq (HGrid m cs rs) (HGrid m' cs' rs') =
     (hdict_eq m m' \<and> list_all2 hcol_eq cs cs' \<and> list_all2 hdict_eq rs rs')"
  by pat_completeness auto
termination
  apply (relation "measure (\<lambda>x. case x of
      Inl (Inl (a, _)) \<Rightarrow> size a | Inl (Inr (a, _)) \<Rightarrow> size a
    | Inr (Inl (a, _)) \<Rightarrow> size a | Inr (Inr (a, _)) \<Rightarrow> size a)")
  by (auto simp: less_Suc_eq_le intro: size_list_member size_list_snd size_list_member_add
      trans_le_add1 trans_le_add2)

lemmas kind_eq_simps = kind_eq.simps hdict_eq.simps hcol_eq.simps hgrid_eq.simps

section \<open>Dictionary operations\<close>

definition dict_new :: hdict where
  "dict_new = HDict []"

definition dict_has :: "hdict \<Rightarrow> string \<Rightarrow> bool" where
  "dict_has d name \<longleftrightarrow> map_of (tags d) name \<noteq> None"

definition dict_get :: "hdict \<Rightarrow> string \<Rightarrow> kind option" where
  "dict_get d name = map_of (tags d) name"

definition dict_missing :: "hdict \<Rightarrow> string \<Rightarrow> bool" where
  "dict_missing d name \<longleftrightarrow> \<not> (map_of (tags d) name \<noteq> None)"

definition dict_id :: "hdict \<Rightarrow> href option" where
  "dict_id d = (case map_of (tags d) ''id'' of Some (KRef r) \<Rightarrow> Some r | _ \<Rightarrow> None)"

definition dict_dis :: "hdict \<Rightarrow> string option" where
  "dict_dis d =
     (case map_of (tags d) ''dis'' of
        Some (KStr s) \<Rightarrow> Some s
      | _ \<Rightarrow> (case dict_id d of Some r \<Rightarrow> ref_dis r | None \<Rightarrow> None))"

definition dict_is_empty :: "hdict \<Rightarrow> bool" where
  "dict_is_empty d \<longleftrightarrow> tags d = []"

definition dict_len :: "hdict \<Rightarrow> nat" where
  "dict_len d = length (tags d)"

definition dict_set :: "string \<Rightarrow> kind \<Rightarrow> hdict \<Rightarrow> hdict" where
  "dict_set name v d = HDict (AList.update name v (tags d))"

definition dict_remove_tag :: "string \<Rightarrow> hdict \<Rightarrow> kind option \<times> hdict" where
  "dict_remove_tag name d = (map_of (tags d) name, HDict (AList.delete name (tags d)))"

fun merge_tags :: "(string \<times> kind) list \<Rightarrow> hdict \<Rightarrow> hdict" where
  "merge_tags [] d = d"
| "merge_tags ((k, v) # other) d =
     merge_tags other
       (case v of KRemove \<Rightarrow> HDict (AList.delete k (tags d)) | _ \<Rightarrow> dict_set k v d)"

definition dict_merge :: "hdict \<Rightarrow> hdict \<Rightarrow> hdict" where
  "dict_merge d other = merge_tags (tags other) d"

definition sorted_tags :: "hdict \<Rightarrow> (string \<times> kind) list" where
  "sorted_tags d = sort_key fst (tags d)"

definition tag_names :: "hdict \<Rightarrow> string list" where
  "tag_names d = map fst (tags d)"

text \<open>A dictionary holds each tag once, as the \<open>HashMap\<close> inside it does.\<close>

definition dict_wf :: "hdict \<Rightarrow> bool" where
  "dict_wf d \<longleftrightarrow> hm_wf (tags d)"

lemma dict_wf_new [simp]: "dict_wf dict_new"
  by (simp add: dict_wf_def dict_new_def)

lemma dict_wf_set [wf_intros, simp]: "dict_wf d \<Longrightarrow> dict_wf (dict_set k v d)"
  by (simp add: dict_wf_def dict_set_def)

lemma dict_wf_merge_tags: "dict_wf d \<Longrightarrow> dict_wf (merge_tags xs d)"
  by (induction xs d rule: merge_tags.induct) (auto simp: dict_wf_def dict_set_def split: kind.splits)

lemma dict_wf_merge [wf_intros, simp]: "dict_wf d \<Longrightarrow> dict_wf (dict_merge d other)"
  by (simp add: dict_merge_def dict_wf_merge_tags)

lemma dict_get_new [simp]: "dict_get dict_new k = None"
  by (simp add: dict_get_def dict_new_def)

lemma dict_get_set: "dict_get (dict_set k v d) k' = (if k' = k then Some v else dict_get d k')"
  by (simp add: dict_get_def dict_set_def)

lemma dict_has_get: "dict_has d k \<longleftrightarrow> dict_get d k \<noteq> None"
  by (simp add: dict_has_def dict_get_def)

lemma dict_get_in_tags: "dict_wf d \<Longrightarrow> (k, v) \<in> set (tags d) \<longleftrightarrow> dict_get d k = Some v"
  unfolding dict_wf_def dict_get_def by (rule hm_in_set_iff)

lemma set_tag_names: "set (tag_names d) = {k. dict_get d k \<noteq> None}"
  by (auto simp: tag_names_def dict_get_def map_of_eq_None_iff)

lemma distinct_tag_names: "dict_wf d \<Longrightarrow> distinct (tag_names d)"
  by (simp add: tag_names_def dict_wf_def)

text \<open>What a patch leaves of a dictionary.\<close>

definition patched :: "kind option \<Rightarrow> kind option \<Rightarrow> kind option" where
  "patched old new = (case new of None \<Rightarrow> old | Some KRemove \<Rightarrow> None | Some v \<Rightarrow> Some v)"

lemma dict_get_merge_tags:
  "hm_wf xs \<Longrightarrow> dict_get (merge_tags xs d) k = patched (dict_get d k) (map_of xs k)"
proof (induction xs d rule: merge_tags.induct)
  case (2 k' v other d)
  define d' where
    "d' = (case v of KRemove \<Rightarrow> HDict (AList.delete k' (tags d)) | _ \<Rightarrow> dict_set k' v d)"
  have "dict_get d' k = (if k = k' then patched (dict_get d k) (Some v) else dict_get d k)"
    by (auto simp: d'_def dict_get_def dict_set_def patched_def split: kind.splits)
  moreover have "dict_get (merge_tags other d') k = patched (dict_get d' k) (map_of other k)"
    using "2.IH" "2.prems" by (simp add: d'_def)
  moreover have "map_of other k' = None"
    using "2.prems" by (simp add: map_of_eq_None_iff)
  ultimately show ?case
    by (auto simp: d'_def patched_def)
qed (simp add: patched_def)

lemma dict_get_merge:
  "dict_wf other \<Longrightarrow> dict_get (dict_merge d other) k = patched (dict_get d k) (dict_get other k)"
  by (simp add: dict_merge_def dict_get_merge_tags dict_wf_def dict_get_def [of other])

section \<open>Grids\<close>

definition col_new :: "string \<Rightarrow> hcol" where
  "col_new n = HCol n dict_new"

definition grid_new :: hgrid where
  "grid_new = HGrid dict_new [] []"

definition grid_from_parts :: "hdict \<Rightarrow> hcol list \<Rightarrow> hdict list \<Rightarrow> hgrid" where
  "grid_from_parts m cs rs = HGrid m cs rs"

definition grid_col :: "hgrid \<Rightarrow> string \<Rightarrow> hcol option" where
  "grid_col g name = find (\<lambda>c. col_name c = name) (grid_cols g)"

definition grid_is_empty :: "hgrid \<Rightarrow> bool" where
  "grid_is_empty g \<longleftrightarrow> grid_rows g = []"

definition grid_is_err :: "hgrid \<Rightarrow> bool" where
  "grid_is_err g \<longleftrightarrow> dict_has (grid_meta g) ''err''"

definition grid_len :: "hgrid \<Rightarrow> nat" where
  "grid_len g = length (grid_rows g)"

definition grid_row :: "hgrid \<Rightarrow> nat \<Rightarrow> hdict option" where
  "grid_row g i = (if i < length (grid_rows g) then Some (grid_rows g ! i) else None)"

definition col_names :: "hgrid \<Rightarrow> string list" where
  "col_names g = map col_name (grid_cols g)"

end
