(* ===== verification/Filter_Eval.thy ===== *)
theory Filter_Eval
  imports Values
begin

text \<open>
  Filter expressions: \<open>filter/ast.rs\<close> and \<open>filter/eval.rs\<close>.

  A filter is evaluated against an entity in an optional query context (how to follow a
  reference, and which entities point at one) and an optional namespace.  The namespace is used
  through three questions only, whether a spec term resolves, whether an entity fits it and which
  issues validating an entity reports; they are the fields of \<open>namespace\<close>, answered by the
  ontology and Xeto components.
\<close>

section \<open>Abstract syntax\<close>

datatype cmp_op = OpEq | OpNe | OpLt | OpLe | OpGt | OpGe

datatype path = Path "string list"

datatype filter_node =
    Has path
  | Missing path
  | Cmp path cmp_op kind
  | And filter_node filter_node
  | Or filter_node filter_node
  | SpecMatch string

fun path_is_single :: "path \<Rightarrow> bool" where
  "path_is_single (Path segs) = (length segs = 1)"

fun path_first :: "path \<Rightarrow> string" where
  "path_first (Path segs) = hd segs"

text \<open>Every path the parser builds has a first segment.\<close>

fun path_wf :: "path \<Rightarrow> bool" where
  "path_wf (Path segs) = (segs \<noteq> [])"

fun filter_wf :: "filter_node \<Rightarrow> bool" where
  "filter_wf (Has p) = path_wf p"
| "filter_wf (Missing p) = path_wf p"
| "filter_wf (Cmp p _ _) = path_wf p"
| "filter_wf (And l r) = (filter_wf l \<and> filter_wf r)"
| "filter_wf (Or l r) = (filter_wf l \<and> filter_wf r)"
| "filter_wf (SpecMatch _) = True"

section \<open>What evaluation may ask of its surroundings\<close>

record query_context =
  forward :: "href \<Rightarrow> hdict option"
  inverse :: "(href \<Rightarrow> string \<Rightarrow> hdict list) option"

record validation_issue =
  vi_entity :: "string option"
  vi_issue_type :: string
  vi_detail :: string

record namespace =
  resolves_spec_term :: "string \<Rightarrow> bool"
  fits_spec_term_with :: "hdict \<Rightarrow> string \<Rightarrow> query_context option \<Rightarrow> bool"
  validate_entity :: "hdict \<Rightarrow> validation_issue list"

section \<open>Comparison\<close>

fun ordered_cmp_kinds :: "kind \<Rightarrow> kind \<Rightarrow> ordering option" where
  "ordered_cmp_kinds (KNumber a) k = (case k of KNumber b \<Rightarrow> number_partial_cmp a b | _ \<Rightarrow> None)"
| "ordered_cmp_kinds (KInt a) k = (case k of KInt b \<Rightarrow> Some (cmp (sint a) (sint b)) | _ \<Rightarrow> None)"
| "ordered_cmp_kinds (KFloat a) k = (case k of KFloat b \<Rightarrow> f64_partial_cmp a b | _ \<Rightarrow> None)"
| "ordered_cmp_kinds (KStr a) k = (case k of KStr b \<Rightarrow> Some (cmp a b) | _ \<Rightarrow> None)"
| "ordered_cmp_kinds (KDate a) k = (case k of KDate b \<Rightarrow> Some (cmp a b) | _ \<Rightarrow> None)"
| "ordered_cmp_kinds (KTime a) k = (case k of KTime b \<Rightarrow> Some (naive_time_cmp a b) | _ \<Rightarrow> None)"
| "ordered_cmp_kinds (KDateTime a) k =
     (case k of KDateTime b \<Rightarrow> hdatetime_partial_cmp a b | _ \<Rightarrow> None)"
| "ordered_cmp_kinds _ _ = None"

definition ordered_cmp :: "kind \<Rightarrow> cmp_op \<Rightarrow> kind \<Rightarrow> bool" where
  "ordered_cmp actual op expected =
     (case ordered_cmp_kinds actual expected of
        Some ord \<Rightarrow>
          (case op of
             OpLt \<Rightarrow> ord = Less
           | OpLe \<Rightarrow> ord = Less \<or> ord = Equal
           | OpGt \<Rightarrow> ord = Greater
           | OpGe \<Rightarrow> ord = Greater \<or> ord = Equal
           | _ \<Rightarrow> False)
      | None \<Rightarrow> False)"

definition compare_eq :: "kind \<Rightarrow> kind \<Rightarrow> bool" where
  "compare_eq actual expected =
     (case (actual, expected) of
        (KFloat a, KFloat b) \<Rightarrow> f64_eq a b
      | _ \<Rightarrow> kind_eq actual expected)"

definition compare :: "kind \<Rightarrow> cmp_op \<Rightarrow> kind \<Rightarrow> bool" where
  "compare actual op expected =
     (case op of
        OpEq \<Rightarrow> compare_eq actual expected
      | OpNe \<Rightarrow> \<not> compare_eq actual expected
      | _ \<Rightarrow> ordered_cmp actual op expected)"

section \<open>Evaluation\<close>

fun walk_path :: "(href \<Rightarrow> hdict option) \<Rightarrow> string list \<Rightarrow> hdict \<Rightarrow> kind option" where
  "walk_path resolve [] e = None"
| "walk_path resolve [seg] e = dict_get e seg"
| "walk_path resolve (seg # segs) e =
     (case dict_get e seg of
        Some (KRef r) \<Rightarrow> (case resolve r of Some e' \<Rightarrow> walk_path resolve segs e' | None \<Rightarrow> None)
      | _ \<Rightarrow> None)"

fun resolve_path :: "path \<Rightarrow> hdict \<Rightarrow> query_context option \<Rightarrow> kind option" where
  "resolve_path (Path segs) e ctx =
     (if length segs = 1 then dict_get e (hd segs)
      else (case ctx of None \<Rightarrow> None | Some c \<Rightarrow> walk_path (forward c) segs e))"

fun matches_with_ns ::
  "filter_node \<Rightarrow> hdict \<Rightarrow> query_context option \<Rightarrow> namespace option \<Rightarrow> bool" where
  "matches_with_ns (Has p) e ctx ns = (resolve_path p e ctx \<noteq> None)"
| "matches_with_ns (Missing p) e ctx ns = (resolve_path p e ctx = None)"
| "matches_with_ns (Cmp p op v) e ctx ns =
     (case resolve_path p e ctx of Some actual \<Rightarrow> compare actual op v | None \<Rightarrow> False)"
| "matches_with_ns (And l r) e ctx ns =
     (matches_with_ns l e ctx ns \<and> matches_with_ns r e ctx ns)"
| "matches_with_ns (Or l r) e ctx ns =
     (matches_with_ns l e ctx ns \<or> matches_with_ns r e ctx ns)"
| "matches_with_ns (SpecMatch spec) e ctx ns =
     (case ns of Some n \<Rightarrow> fits_spec_term_with n e spec ctx | None \<Rightarrow> False)"

definition matches :: "filter_node \<Rightarrow> hdict \<Rightarrow> query_context option \<Rightarrow> bool" where
  "matches node e ctx = matches_with_ns node e ctx None"

fun collect_unresolved ::
  "filter_node \<Rightarrow> namespace option \<Rightarrow> string list \<Rightarrow> string list" where
  "collect_unresolved (SpecMatch spec) ns out =
     (let known = (case ns of Some n \<Rightarrow> resolves_spec_term n spec | None \<Rightarrow> False)
      in if \<not> known \<and> spec \<notin> set out then out @ [spec] else out)"
| "collect_unresolved (And l r) ns out = collect_unresolved r ns (collect_unresolved l ns out)"
| "collect_unresolved (Or l r) ns out = collect_unresolved r ns (collect_unresolved l ns out)"
| "collect_unresolved (Has _) ns out = out"
| "collect_unresolved (Missing _) ns out = out"
| "collect_unresolved (Cmp _ _ _) ns out = out"

definition unresolved_specs :: "filter_node \<Rightarrow> namespace option \<Rightarrow> string list" where
  "unresolved_specs node ns = collect_unresolved node ns []"

section \<open>Lemmas\<close>

fun spec_terms :: "filter_node \<Rightarrow> string set" where
  "spec_terms (SpecMatch s) = {s}"
| "spec_terms (And l r) = spec_terms l \<union> spec_terms r"
| "spec_terms (Or l r) = spec_terms l \<union> spec_terms r"
| "spec_terms _ = {}"

definition known_term :: "namespace option \<Rightarrow> string \<Rightarrow> bool" where
  "known_term ns s = (case ns of Some n \<Rightarrow> resolves_spec_term n s | None \<Rightarrow> False)"

lemma set_collect_unresolved:
  "set (collect_unresolved node ns out) = set out \<union> {s \<in> spec_terms node. \<not> known_term ns s}"
  by (induction node arbitrary: out) (auto simp: Let_def known_term_def)

lemma distinct_collect_unresolved:
  "distinct out \<Longrightarrow> distinct (collect_unresolved node ns out)"
  by (induction node arbitrary: out) (auto simp: Let_def)

lemma compare_number_order:
  assumes "ordered_cmp (KNumber a) op (KNumber b)"
  shows "num_unit a = num_unit b \<and> \<not> f64_is_nan (num_val a) \<and> \<not> f64_is_nan (num_val b)"
  using assms
  by (auto simp: ordered_cmp_def number_partial_cmp_def f64_partial_cmp_def split: if_splits)

end
