(* ===== verification/Index_Contract.thy ===== *)
theory Index_Contract
  imports Values
begin

text \<open>
  The contract between the entity graph and its secondary indexes.

  Each of the three indexes (tag bitmaps, reference adjacency, field values) records, for every
  numbered entity, a set of keys read off the entity.  \<open>ins\<close> and \<open>del\<close> are what the
  graph calls when an entity with number \<open>n\<close> appears and disappears; \<open>None\<close> is a panic.
  The graph relies on the laws below and on nothing else, so its preservation proofs are done
  once, in the locale, and each index is an interpretation.
\<close>

definition index_exact ::
  "('i \<Rightarrow> bool) \<Rightarrow> ('i \<Rightarrow> (nat \<times> 'k) set) \<Rightarrow> ('i \<Rightarrow> hdict \<Rightarrow> 'k set) \<Rightarrow>
   'i \<Rightarrow> (nat \<rightharpoonup> hdict) \<Rightarrow> bool" where
  "index_exact ok entries keys i rows \<longleftrightarrow>
     ok i \<and> entries i = {(n, k). \<exists>e. rows n = Some e \<and> k \<in> keys i e}"

locale entity_index =
  fixes ins :: "nat \<Rightarrow> hdict \<Rightarrow> 'i \<Rightarrow> 'i option"
    and del :: "nat \<Rightarrow> hdict \<Rightarrow> 'i \<Rightarrow> 'i option"
    and entries :: "'i \<Rightarrow> (nat \<times> 'k) set"
    and keys :: "'i \<Rightarrow> hdict \<Rightarrow> 'k set"
    and ok :: "'i \<Rightarrow> bool"
  assumes ins_ok:
    "\<lbrakk>ok i; dict_wf e; n \<le> U32_MAX; \<forall>k. (n, k) \<notin> entries i\<rbrakk> \<Longrightarrow>
     \<exists>i'. ins n e i = Some i' \<and> ok i' \<and> keys i' = keys i \<and>
          entries i' = entries i \<union> {n} \<times> keys i e"
    and del_ok:
    "\<lbrakk>ok i; dict_wf e; n \<le> U32_MAX; {k. (n, k) \<in> entries i} = keys i e\<rbrakk> \<Longrightarrow>
     \<exists>i'. del n e i = Some i' \<and> ok i' \<and> keys i' = keys i \<and>
          entries i' = entries i - {n} \<times> UNIV"
begin

lemma exact_ins:
  assumes "index_exact ok entries keys i rows" and "rows n = None"
    and "dict_wf e" and "n \<le> U32_MAX"
  shows "\<exists>i'. ins n e i = Some i' \<and> index_exact ok entries keys i' (rows(n \<mapsto> e))"
proof -
  from assms(1) have ok: "ok i"
    and ents: "entries i = {(n, k). \<exists>e. rows n = Some e \<and> k \<in> keys i e}"
    by (simp_all add: index_exact_def)
  from ents assms(2) have "\<forall>k. (n, k) \<notin> entries i" by simp
  from ins_ok [OF ok assms(3,4) this] obtain i' where i':
    "ins n e i = Some i'" "ok i'" "keys i' = keys i" "entries i' = entries i \<union> {n} \<times> keys i e"
    by blast
  moreover have "entries i' = {(m, k). \<exists>e'. (rows(n \<mapsto> e)) m = Some e' \<and> k \<in> keys i' e'}"
    using i'(3,4) ents assms(2) by (auto split: if_splits)
  ultimately show ?thesis
    by (auto simp: index_exact_def)
qed

lemma exact_del:
  assumes "index_exact ok entries keys i rows" and "rows n = Some e"
    and "dict_wf e" and "n \<le> U32_MAX"
  shows "\<exists>i'. del n e i = Some i' \<and> index_exact ok entries keys i' (rows(n := None))"
proof -
  from assms(1) have ok: "ok i"
    and ents: "entries i = {(n, k). \<exists>e. rows n = Some e \<and> k \<in> keys i e}"
    by (simp_all add: index_exact_def)
  from ents assms(2) have "{k. (n, k) \<in> entries i} = keys i e" by simp
  from del_ok [OF ok assms(3,4) this] obtain i' where i':
    "del n e i = Some i'" "ok i'" "keys i' = keys i" "entries i' = entries i - {n} \<times> UNIV"
    by blast
  moreover have "entries i' = {(m, k). \<exists>e'. (rows(n := None)) m = Some e' \<and> k \<in> keys i' e'}"
    using i'(3,4) ents by (auto split: if_splits)
  ultimately show ?thesis
    by (auto simp: index_exact_def)
qed

lemma exact_replace:
  assumes "index_exact ok entries keys i rows" and "rows n = Some e"
    and "dict_wf e" and "dict_wf e'" and "n \<le> U32_MAX"
  shows "\<exists>i1 i2. del n e i = Some i1 \<and> ins n e' i1 = Some i2 \<and>
           index_exact ok entries keys i2 (rows(n \<mapsto> e'))"
proof -
  obtain i1 where i1: "del n e i = Some i1" "index_exact ok entries keys i1 (rows(n := None))"
    using exact_del [OF assms(1,2,3,5)] by blast
  obtain i2 where "ins n e' i1 = Some i2"
    "index_exact ok entries keys i2 ((rows(n := None))(n \<mapsto> e'))"
    using exact_ins [OF i1(2) _ assms(4,5)] by auto
  with i1 show ?thesis by auto
qed

end

end
