(* ===== verification/Tag_Bitmap.thy ===== *)
theory Tag_Bitmap
  imports Index_Contract
begin

text \<open>
  The tag-presence index: \<open>graph/bitmap.rs\<close>.

  A \<open>RoaringBitmap\<close> is the finite set of \<open>u32\<close> positions it holds, iterated in ascending
  order.  \<open>add\<close> and \<open>remove\<close> convert the entity number with \<open>u32::try_from\<close> and panic
  (\<open>None\<close>) when it does not fit.
\<close>

type_synonym bitmap = "nat set"

record tag_index =
  bitmaps :: "(string \<times> bitmap) list"

definition tag_new :: tag_index where
  "tag_new = \<lparr>bitmaps = []\<rparr>"

definition bitmap_at :: "(string \<times> bitmap) list \<Rightarrow> string \<Rightarrow> bitmap" where
  "bitmap_at m t = (case map_of m t of None \<Rightarrow> {} | Some b \<Rightarrow> b)"

fun add_bits :: "nat \<Rightarrow> string list \<Rightarrow> (string \<times> bitmap) list \<Rightarrow> (string \<times> bitmap) list" where
  "add_bits eid [] m = m"
| "add_bits eid (t # ts) m = add_bits eid ts (AList.update t (insert eid (bitmap_at m t)) m)"

fun remove_bits :: "nat \<Rightarrow> string list \<Rightarrow> (string \<times> bitmap) list \<Rightarrow> (string \<times> bitmap) list" where
  "remove_bits eid [] m = m"
| "remove_bits eid (t # ts) m =
     remove_bits eid ts
       (case map_of m t of Some b \<Rightarrow> AList.update t (b - {eid}) m | None \<Rightarrow> m)"

definition tag_add :: "nat \<Rightarrow> string list \<Rightarrow> tag_index \<Rightarrow> tag_index option" where
  "tag_add entity_id ts i =
     (case u32_try_from entity_id of
        None \<Rightarrow> None
      | Some eid \<Rightarrow> Some (i\<lparr>bitmaps := add_bits eid ts (bitmaps i)\<rparr>))"

definition tag_remove :: "nat \<Rightarrow> string list \<Rightarrow> tag_index \<Rightarrow> tag_index option" where
  "tag_remove entity_id ts i =
     (case u32_try_from entity_id of
        None \<Rightarrow> None
      | Some eid \<Rightarrow>
          Some (i\<lparr>bitmaps := filter (\<lambda>(_, b). b \<noteq> {}) (remove_bits eid ts (bitmaps i))\<rparr>))"

definition has_tag :: "tag_index \<Rightarrow> string \<Rightarrow> bitmap option" where
  "has_tag i t = map_of (bitmaps i) t"

fun intersect :: "bitmap list \<Rightarrow> bitmap" where
  "intersect [] = {}"
| "intersect (b # bs) = fold (\<lambda>bm result. result \<inter> bm) bs b"

definition bitmap_union :: "bitmap list \<Rightarrow> bitmap" where
  "bitmap_union bs = fold (\<lambda>bm result. result \<union> bm) bs {}"

definition negate :: "bitmap \<Rightarrow> bitmap \<Rightarrow> bitmap" where
  "negate b universe = universe - b"

definition iter_set_bits :: "bitmap \<Rightarrow> nat list" where
  "iter_set_bits b = sorted_list_of_set b"

definition count_ones :: "bitmap \<Rightarrow> nat" where
  "count_ones b = card b"

section \<open>The index contract\<close>

definition tag_entries :: "tag_index \<Rightarrow> (nat \<times> string) set" where
  "tag_entries i = {(n, t). n \<in> bitmap_at (bitmaps i) t}"

definition tag_keys :: "tag_index \<Rightarrow> hdict \<Rightarrow> string set" where
  "tag_keys i e = {t. dict_get e t \<noteq> None}"

definition tag_inv :: "tag_index \<Rightarrow> bool" where
  "tag_inv i \<longleftrightarrow> hm_wf (bitmaps i) \<and>
     (\<forall>t b. map_of (bitmaps i) t = Some b \<longrightarrow> b \<noteq> {} \<and> finite b)"

definition tag_ins :: "nat \<Rightarrow> hdict \<Rightarrow> tag_index \<Rightarrow> tag_index option" where
  "tag_ins n e i = tag_add n (tag_names e) i"

definition tag_del :: "nat \<Rightarrow> hdict \<Rightarrow> tag_index \<Rightarrow> tag_index option" where
  "tag_del n e i = tag_remove n (tag_names e) i"

lemma hm_wf_add_bits: "hm_wf m \<Longrightarrow> hm_wf (add_bits n ts m)"
  by (induction ts arbitrary: m) auto

lemma bitmap_at_add_bits:
  "bitmap_at (add_bits n ts m) t = bitmap_at m t \<union> (if t \<in> set ts then {n} else {})"
  by (induction ts arbitrary: m) (auto simp: bitmap_at_def)

lemma add_bits_present: "map_of (add_bits n ts m) t = None \<longleftrightarrow> map_of m t = None \<and> t \<notin> set ts"
  by (induction ts arbitrary: m) auto

lemma hm_wf_remove_bits: "hm_wf m \<Longrightarrow> hm_wf (remove_bits n ts m)"
  by (induction ts arbitrary: m) (auto split: option.splits)

lemma map_of_remove_bits:
  "map_of (remove_bits n ts m) t =
     map_option (\<lambda>b. if t \<in> set ts then b - {n} else b) (map_of m t)"
proof (induction ts arbitrary: m)
  case (Cons a ts)
  then show ?case
    by (cases "map_of m a"; cases "map_of m t") auto
qed (simp add: option.map_ident)

lemma tag_inv_bitmap_at: "tag_inv i \<Longrightarrow> finite (bitmap_at (bitmaps i) t)"
  by (auto simp: tag_inv_def bitmap_at_def split: option.splits)

lemma has_tag_bitmap_at:
  "has_tag i t = Some b \<Longrightarrow> b = {n. (n, t) \<in> tag_entries i}"
  by (simp add: has_tag_def tag_entries_def bitmap_at_def)

lemma has_tag_None: "tag_inv i \<Longrightarrow> has_tag i t = None \<longleftrightarrow> (\<forall>n. (n, t) \<notin> tag_entries i)"
  by (auto simp: has_tag_def tag_entries_def tag_inv_def bitmap_at_def split: option.splits)

lemma tag_ins_ok:
  assumes "tag_inv i" and "dict_wf e" and "n \<le> U32_MAX"
  shows "\<exists>i'. tag_ins n e i = Some i' \<and> tag_inv i' \<and> tag_keys i' = tag_keys i \<and>
    tag_entries i' = tag_entries i \<union> {n} \<times> tag_keys i e"
proof -
  define m where "m = add_bits n (tag_names e) (bitmaps i)"
  have names: "set (tag_names e) = tag_keys i e"
    by (simp add: set_tag_names tag_keys_def)
  have "hm_wf m"
    using assms(1) by (simp add: m_def tag_inv_def hm_wf_add_bits)
  moreover have "b \<noteq> {} \<and> finite b" if "map_of m t = Some b" for t b
  proof -
    have b: "b = bitmap_at (bitmaps i) t \<union> (if t \<in> set (tag_names e) then {n} else {})"
      using that bitmap_at_add_bits [of n "tag_names e" "bitmaps i" t]
      by (simp add: m_def bitmap_at_def)
    have "map_of (bitmaps i) t \<noteq> None \<or> t \<in> set (tag_names e)"
      using that add_bits_present [of n "tag_names e" "bitmaps i" t] by (auto simp: m_def)
    then have "b \<noteq> {}"
      using b assms(1) by (auto simp: tag_inv_def bitmap_at_def split: option.splits)
    with b tag_inv_bitmap_at [OF assms(1)] show ?thesis by simp
  qed
  ultimately have "tag_inv (i\<lparr>bitmaps := m\<rparr>)"
    by (simp add: tag_inv_def)
  moreover have "tag_entries (i\<lparr>bitmaps := m\<rparr>) = tag_entries i \<union> {n} \<times> tag_keys i e"
    by (auto simp: tag_entries_def m_def bitmap_at_add_bits names)
  ultimately show ?thesis
    using assms(3) by (simp add: tag_ins_def tag_add_def m_def tag_keys_def fun_eq_iff)
qed

lemma tag_del_ok:
  assumes "tag_inv i" and "dict_wf e" and "n \<le> U32_MAX"
    and "{k. (n, k) \<in> tag_entries i} = tag_keys i e"
  shows "\<exists>i'. tag_del n e i = Some i' \<and> tag_inv i' \<and> tag_keys i' = tag_keys i \<and>
    tag_entries i' = tag_entries i - {n} \<times> UNIV"
proof -
  define r where "r = remove_bits n (tag_names e) (bitmaps i)"
  define m where "m = filter (\<lambda>(_, b). b \<noteq> {}) r"
  have names: "t \<in> set (tag_names e) \<longleftrightarrow> n \<in> bitmap_at (bitmaps i) t" for t
    using assms(4) by (auto simp: set_tag_names tag_keys_def tag_entries_def)
  have wf: "hm_wf r"
    using assms(1) by (simp add: r_def tag_inv_def hm_wf_remove_bits)
  have look: "map_of m t = (case map_of r t of None \<Rightarrow> None | Some b \<Rightarrow> if b \<noteq> {} then Some b else None)"
    for t using wf by (simp add: m_def hm_map_of_filter split: option.splits)
  have at: "bitmap_at m t = bitmap_at (bitmaps i) t - {n}" for t
    using names [of t]
    by (auto simp: bitmap_at_def look r_def map_of_remove_bits split: option.splits)
  have "hm_wf m" using wf by (simp add: m_def)
  then have "tag_inv (i\<lparr>bitmaps := m\<rparr>)"
    using assms(1)
    by (auto simp: tag_inv_def look r_def map_of_remove_bits split: option.splits if_splits)
  moreover have "tag_entries (i\<lparr>bitmaps := m\<rparr>) = tag_entries i - {n} \<times> UNIV"
    by (auto simp: tag_entries_def at)
  ultimately show ?thesis
    using assms(3) by (simp add: tag_del_def tag_remove_def m_def r_def tag_keys_def fun_eq_iff)
qed

interpretation tagx: entity_index tag_ins tag_del tag_entries tag_keys tag_inv
  by (unfold_locales; (rule tag_ins_ok | rule tag_del_ok); assumption)

lemma tag_new_exact: "index_exact tag_inv tag_entries tag_keys tag_new (\<lambda>_. None)"
  by (simp add: index_exact_def tag_inv_def tag_entries_def tag_new_def bitmap_at_def)

section \<open>Set operations\<close>

lemma intersect_eq: "bs \<noteq> [] \<Longrightarrow> intersect bs = \<Inter> (set bs)"
proof (induction bs rule: intersect.induct)
  case (2 b bs)
  have "fold (\<lambda>bm result. result \<inter> bm) bs r = r \<inter> \<Inter> (set bs)" for r
    by (induction bs arbitrary: r) auto
  then show ?case by simp
qed simp

lemma bitmap_union_eq: "bitmap_union bs = \<Union> (set bs)"
proof -
  have "fold (\<lambda>bm result. result \<union> bm) bs r = r \<union> \<Union> (set bs)" for r
    by (induction bs arbitrary: r) auto
  then show ?thesis by (simp add: bitmap_union_def)
qed

end
