(* ===== verification/Ref_Adjacency.thy ===== *)
theory Ref_Adjacency
  imports Index_Contract
begin

text \<open>
  Reference adjacency: \<open>graph/adjacency.rs\<close>, and the graph's \<open>index_refs\<close>, which feeds
  it.  Forward edges are kept per entity number, reverse edges per target identifier; the
  invariant says that the two maps are converses of each other and hold no empty vector.
\<close>

record ref_adjacency =
  adj_forward :: "(nat \<times> (string \<times> string) list) list"
  adj_reverse :: "(string \<times> (string \<times> nat) list) list"

definition adj_new :: ref_adjacency where
  "adj_new = \<lparr>adj_forward = [], adj_reverse = []\<rparr>"

definition adj_add :: "nat \<Rightarrow> string \<Rightarrow> string \<Rightarrow> ref_adjacency \<Rightarrow> ref_adjacency" where
  "adj_add entity_id ref_tag target a =
     \<lparr>adj_forward = hm_push entity_id (ref_tag, target) (adj_forward a),
      adj_reverse = hm_push target (ref_tag, entity_id) (adj_reverse a)\<rparr>"

fun remove_reverse ::
  "nat \<Rightarrow> (string \<times> string) list \<Rightarrow> (string \<times> (string \<times> nat) list) list \<Rightarrow>
   (string \<times> (string \<times> nat) list) list" where
  "remove_reverse entity_id [] m = m"
| "remove_reverse entity_id ((ref_tag, target) # edges) m =
     remove_reverse entity_id edges
       (case map_of m target of
          None \<Rightarrow> m
        | Some back \<Rightarrow>
            (let back' = filter (\<lambda>(rt, sid). \<not> (rt = ref_tag \<and> sid = entity_id)) back
             in if back' = [] then AList.delete target m else AList.update target back' m))"

definition adj_remove :: "nat \<Rightarrow> ref_adjacency \<Rightarrow> ref_adjacency" where
  "adj_remove entity_id a =
     (case map_of (adj_forward a) entity_id of
        None \<Rightarrow> a
      | Some edges \<Rightarrow>
          \<lparr>adj_forward = AList.delete entity_id (adj_forward a),
           adj_reverse = remove_reverse entity_id edges (adj_reverse a)\<rparr>)"

definition targets_from :: "ref_adjacency \<Rightarrow> nat \<Rightarrow> string option \<Rightarrow> string list" where
  "targets_from a entity_id ref_type =
     (case map_of (adj_forward a) entity_id of
        Some edges \<Rightarrow>
          map snd (filter (\<lambda>(rt, _). case ref_type of None \<Rightarrow> True | Some t \<Rightarrow> rt = t) edges)
      | None \<Rightarrow> [])"

definition sources_to :: "ref_adjacency \<Rightarrow> string \<Rightarrow> string option \<Rightarrow> nat list" where
  "sources_to a target ref_type =
     (case map_of (adj_reverse a) target of
        Some edges \<Rightarrow>
          map snd (filter (\<lambda>(rt, _). case ref_type of None \<Rightarrow> True | Some t \<Rightarrow> rt = t) edges)
      | None \<Rightarrow> [])"

definition sources_for :: "ref_adjacency \<Rightarrow> string \<Rightarrow> string \<Rightarrow> nat list" where
  "sources_for a ref_tag target =
     (case map_of (adj_reverse a) target of
        Some edges \<Rightarrow> map snd (filter (\<lambda>(rt, _). rt = ref_tag) edges)
      | None \<Rightarrow> [])"

text \<open>\<open>index_refs\<close>: every reference-valued tag but \<open>id\<close> is an edge.\<close>

fun index_refs_tags :: "nat \<Rightarrow> (string \<times> kind) list \<Rightarrow> ref_adjacency \<Rightarrow> ref_adjacency" where
  "index_refs_tags entity_id [] a = a"
| "index_refs_tags entity_id ((name, val) # ts) a =
     index_refs_tags entity_id ts
       (case val of
          KRef r \<Rightarrow> if name \<noteq> ''id'' then adj_add entity_id name (ref_val r) a else a
        | _ \<Rightarrow> a)"

section \<open>The index contract\<close>

definition ref_edges :: "hdict \<Rightarrow> (string \<times> string) set" where
  "ref_edges e = {(t, v). t \<noteq> ''id'' \<and> (\<exists>r. dict_get e t = Some (KRef r) \<and> ref_val r = v)}"

definition adj_entries :: "ref_adjacency \<Rightarrow> (nat \<times> string \<times> string) set" where
  "adj_entries a = {(n, t, v). (t, v) \<in> set (vec_at (adj_forward a) n)}"

definition adj_keys :: "ref_adjacency \<Rightarrow> hdict \<Rightarrow> (string \<times> string) set" where
  "adj_keys a e = ref_edges e"

definition adj_inv :: "ref_adjacency \<Rightarrow> bool" where
  "adj_inv a \<longleftrightarrow>
     hm_wf (adj_forward a) \<and> hm_wf (adj_reverse a) \<and>
     no_empty_vec (adj_forward a) \<and> no_empty_vec (adj_reverse a) \<and>
     (\<forall>n. distinct (vec_at (adj_forward a) n)) \<and> (\<forall>v. distinct (vec_at (adj_reverse a) v)) \<and>
     (\<forall>n t v. (t, v) \<in> set (vec_at (adj_forward a) n) \<longleftrightarrow> (t, n) \<in> set (vec_at (adj_reverse a) v))"

definition adj_ins :: "nat \<Rightarrow> hdict \<Rightarrow> ref_adjacency \<Rightarrow> ref_adjacency option" where
  "adj_ins n e a = Some (index_refs_tags n (tags e) a)"

definition adj_del :: "nat \<Rightarrow> hdict \<Rightarrow> ref_adjacency \<Rightarrow> ref_adjacency option" where
  "adj_del n e a = Some (adj_remove n a)"

lemma adj_entries_reverse:
  "adj_inv a \<Longrightarrow> (n, t, v) \<in> adj_entries a \<longleftrightarrow> (t, n) \<in> set (vec_at (adj_reverse a) v)"
  by (simp add: adj_inv_def adj_entries_def)

lemma adj_add_ok:
  assumes "adj_inv a" and "(n, t, v) \<notin> adj_entries a"
  shows "adj_inv (adj_add n t v a)"
    and "adj_entries (adj_add n t v a) = insert (n, t, v) (adj_entries a)"
proof -
  have "(t, n) \<notin> set (vec_at (adj_reverse a) v)" "(t, v) \<notin> set (vec_at (adj_forward a) n)"
    using assms by (simp_all add: adj_entries_reverse [symmetric]) (simp add: adj_entries_def)
  then show "adj_inv (adj_add n t v a)"
    using assms(1) by (auto simp: adj_inv_def adj_add_def)
  show "adj_entries (adj_add n t v a) = insert (n, t, v) (adj_entries a)"
    by (auto simp: adj_entries_def adj_add_def split: if_splits)
qed

definition tag_edges :: "(string \<times> kind) list \<Rightarrow> (string \<times> string) set" where
  "tag_edges ts = {(t, v). t \<noteq> ''id'' \<and> (\<exists>r. (t, KRef r) \<in> set ts \<and> ref_val r = v)}"

lemma tag_edges_dict: "dict_wf e \<Longrightarrow> tag_edges (tags e) = ref_edges e"
  by (simp add: tag_edges_def ref_edges_def dict_get_in_tags)

lemma tag_edges_Cons:
  "tag_edges ((name, val) # ts) =
     (case val of KRef r \<Rightarrow> if name \<noteq> ''id'' then {(name, ref_val r)} else {} | _ \<Rightarrow> {}) \<union> tag_edges ts"
  by (cases val) (auto simp: tag_edges_def)

lemma index_refs_tags_ok:
  assumes "adj_inv a" and "hm_wf ts" and "\<forall>t v. (n, t, v) \<in> adj_entries a \<longrightarrow> t \<notin> fst ` set ts"
  shows "adj_inv (index_refs_tags n ts a) \<and>
    adj_entries (index_refs_tags n ts a) = adj_entries a \<union> {n} \<times> tag_edges ts"
  using assms
proof (induction ts arbitrary: a)
  case Nil
  then show ?case by (simp add: tag_edges_def)
next
  case (Cons p ts)
  obtain name val where p: "p = (name, val)" by force
  show ?case
  proof (cases "\<exists>r. val = KRef r \<and> name \<noteq> ''id''")
    case True
    then obtain r where r: "val = KRef r" "name \<noteq> ''id''" by blast
    define a' where "a' = adj_add n name (ref_val r) a"
    have "(n, name, ref_val r) \<notin> adj_entries a"
      using Cons.prems(3) p by auto
    then have a': "adj_inv a'" "adj_entries a' = insert (n, name, ref_val r) (adj_entries a)"
      using adj_add_ok [OF Cons.prems(1)] by (simp_all add: a'_def)
    have "\<forall>t v. (n, t, v) \<in> adj_entries a' \<longrightarrow> t \<notin> fst ` set ts"
      using Cons.prems(2,3) p a'(2) by auto
    with Cons.IH [OF a'(1)] Cons.prems(2) p r a' show ?thesis
      by (auto simp: a'_def [symmetric] tag_edges_Cons)
  next
    case False
    then have "index_refs_tags n (p # ts) a = index_refs_tags n ts a"
      and "tag_edges (p # ts) = tag_edges ts"
      by (cases val; auto simp: p tag_edges_Cons)+
    with Cons.IH [OF Cons.prems(1)] Cons.prems(2,3) show ?thesis
      by auto
  qed
qed

lemma adj_ins_ok:
  assumes "adj_inv a" and "dict_wf e" and "n \<le> U32_MAX" and "\<forall>k. (n, k) \<notin> adj_entries a"
  shows "\<exists>a'. adj_ins n e a = Some a' \<and> adj_inv a' \<and> adj_keys a' = adj_keys a \<and>
    adj_entries a' = adj_entries a \<union> {n} \<times> adj_keys a e"
proof -
  have "hm_wf (tags e)" using assms(2) by (simp add: dict_wf_def)
  then show ?thesis
    using index_refs_tags_ok [OF assms(1), of "tags e" n] assms(2,4)
    by (simp add: adj_ins_def adj_keys_def fun_eq_iff tag_edges_dict)
qed

text \<open>Removing an entity drops exactly its own reverse edges.\<close>

lemma remove_reverse_ok:
  assumes "hm_wf m" and "no_empty_vec m" and "\<forall>v. distinct (vec_at m v)"
  shows "hm_wf (remove_reverse n es m) \<and> no_empty_vec (remove_reverse n es m) \<and>
    (\<forall>v. distinct (vec_at (remove_reverse n es m) v)) \<and>
    (\<forall>v. set (vec_at (remove_reverse n es m) v) =
       set (vec_at m v) - {(t, n) |t. (t, v) \<in> set es})"
  using assms
proof (induction es arbitrary: m)
  case (Cons e es)
  obtain t v where e: "e = (t, v)" by force
  define keep where "keep = filter (\<lambda>(rt, sid). \<not> (rt = t \<and> sid = n)) (vec_at m v)"
  define m' where "m' = (case map_of m v of None \<Rightarrow> m
    | Some back \<Rightarrow> (let back' = filter (\<lambda>(rt, sid). \<not> (rt = t \<and> sid = n)) back
        in if back' = [] then AList.delete v m else AList.update v back' m))"
  have at: "vec_at m' w = (if w = v then keep else vec_at m w)" for w
    by (auto simp: m'_def keep_def Let_def vec_at_def split: option.splits)
  have "hm_wf m'" "no_empty_vec m'"
    using Cons.prems(1,2) by (auto simp: m'_def Let_def no_empty_vec_def split: option.splits)
  moreover have "\<forall>w. distinct (vec_at m' w)"
    using Cons.prems(3) by (simp add: at keep_def)
  ultimately have IH: "hm_wf (remove_reverse n es m') \<and> no_empty_vec (remove_reverse n es m') \<and>
    (\<forall>v. distinct (vec_at (remove_reverse n es m') v)) \<and>
    (\<forall>v. set (vec_at (remove_reverse n es m') v) =
       set (vec_at m' v) - {(t, n) |t. (t, v) \<in> set es})"
    by (rule Cons.IH)
  have step: "remove_reverse n (e # es) m = remove_reverse n es m'"
    by (simp add: e m'_def)
  have "set keep = set (vec_at m v) - {(t, n)}"
    by (auto simp: keep_def)
  then have "set (vec_at m' w) - {(t, n) |t. (t, w) \<in> set es} =
      set (vec_at m w) - {(t, n) |t. (t, w) \<in> set (e # es)}" for w
    by (auto simp: at e)
  with IH show ?case by (simp add: step)
qed simp

lemma adj_del_ok:
  assumes "adj_inv a"
  shows "\<exists>a'. adj_del n e a = Some a' \<and> adj_inv a' \<and> adj_keys a' = adj_keys a \<and>
    adj_entries a' = adj_entries a - {n} \<times> UNIV"
proof (cases "map_of (adj_forward a) n")
  case None
  then have "adj_entries a - {n} \<times> UNIV = adj_entries a"
    by (auto simp: adj_entries_def vec_at_def)
  with None assms show ?thesis
    by (simp add: adj_del_def adj_remove_def)
next
  case (Some es)
  then have es: "es = vec_at (adj_forward a) n" by (simp add: vec_at_def)
  define a' where "a' = adj_remove n a"
  have a': "a' = \<lparr>adj_forward = AList.delete n (adj_forward a),
      adj_reverse = remove_reverse n es (adj_reverse a)\<rparr>"
    using Some by (simp add: a'_def adj_remove_def)
  have rev: "hm_wf (adj_reverse a') \<and> no_empty_vec (adj_reverse a') \<and>
      (\<forall>v. distinct (vec_at (adj_reverse a') v)) \<and>
      (\<forall>v. set (vec_at (adj_reverse a') v) =
         set (vec_at (adj_reverse a) v) - {(t, n) |t. (t, v) \<in> set es})"
    using remove_reverse_ok [of "adj_reverse a" n es] assms by (simp add: a' adj_inv_def)
  have conv: "(t, w) \<in> set (vec_at (adj_forward a) m) \<longleftrightarrow> (t, m) \<in> set (vec_at (adj_reverse a) w)"
    for t w m using assms by (simp add: adj_inv_def)
  have "(t, w) \<in> set (vec_at (adj_forward a') m) \<longleftrightarrow> (t, m) \<in> set (vec_at (adj_reverse a') w)"
    for t w m
    using rev conv [of t w m] by (auto simp: a' es)
  moreover have "hm_wf (adj_forward a')" "no_empty_vec (adj_forward a')"
    "\<forall>m. distinct (vec_at (adj_forward a') m)"
    using assms by (auto simp: a' adj_inv_def no_empty_vec_def)
  ultimately have "adj_inv a'"
    using rev by (simp add: adj_inv_def)
  moreover have "adj_entries a' = adj_entries a - {n} \<times> UNIV"
    by (auto simp: a' adj_entries_def split: if_splits)
  ultimately show ?thesis
    by (simp add: adj_del_def adj_keys_def fun_eq_iff a'_def)
qed

interpretation adjx: entity_index adj_ins adj_del adj_entries adj_keys adj_inv
  by (unfold_locales; (rule adj_ins_ok | rule adj_del_ok); assumption)

lemma adj_new_exact: "index_exact adj_inv adj_entries adj_keys adj_new (\<lambda>_. None)"
  by (simp add: index_exact_def adj_inv_def adj_entries_def adj_new_def no_empty_vec_def)

section \<open>What the lookups return\<close>

lemma set_targets_from:
  "set (targets_from a n rt) = {v. \<exists>t. (n, t, v) \<in> adj_entries a \<and> (rt = None \<or> rt = Some t)}"
  by (force simp: targets_from_def adj_entries_def vec_at_def split: option.splits)

lemma set_sources_to:
  assumes "adj_inv a"
  shows "set (sources_to a v rt) = {n. \<exists>t. (n, t, v) \<in> adj_entries a \<and> (rt = None \<or> rt = Some t)}"
proof -
  have "set (sources_to a v rt) =
      {n. \<exists>t. (t, n) \<in> set (vec_at (adj_reverse a) v) \<and> (rt = None \<or> rt = Some t)}"
    by (force simp: sources_to_def vec_at_def split: option.splits)
  with assms show ?thesis by (simp add: adj_entries_reverse)
qed

lemma sources_for_eq: "sources_for a t v = sources_to a v (Some t)"
  by (cases "map_of (adj_reverse a) v") (simp_all add: sources_for_def sources_to_def)

end
