(* ===== verification/Value_Index.thy ===== *)
theory Value_Index
  imports Index_Contract
begin

text \<open>
  Secondary value indexes: \<open>graph/value_index.rs\<close>.

  Each indexed field has an ordered map from orderable values (numbers without their unit,
  ordered by \<open>total_cmp\<close>, before strings) to the numbers of the entities holding them.
\<close>

section \<open>Orderable values\<close>

datatype ordered_f64 = OrderedF64 (of_ordered: f64)

instantiation ordered_f64 :: linorder
begin

definition less_eq_ordered_f64 :: "ordered_f64 \<Rightarrow> ordered_f64 \<Rightarrow> bool" where
  "a \<le> b \<longleftrightarrow> f64_total_cmp (of_ordered a) (of_ordered b) \<noteq> Greater"

definition less_ordered_f64 :: "ordered_f64 \<Rightarrow> ordered_f64 \<Rightarrow> bool" where
  "a < b \<longleftrightarrow> f64_total_cmp (of_ordered a) (of_ordered b) = Less"

instance
  by standard
    (auto simp: less_eq_ordered_f64_def less_ordered_f64_def f64_total_cmp_def
      intro: ordered_f64.expand)

end

lemma ordered_f64_less: "OrderedF64 a < OrderedF64 b \<longleftrightarrow> f64_total_key a < f64_total_key b"
  by (simp add: less_ordered_f64_def f64_total_cmp_def)

lemma ordered_f64_le: "OrderedF64 a \<le> OrderedF64 b \<longleftrightarrow> f64_total_key a \<le> f64_total_key b"
  by (simp add: less_eq_ordered_f64_def f64_total_cmp_def not_less)

datatype orderable_kind = ONum ordered_f64 | OStr string

fun orderable_cmp :: "orderable_kind \<Rightarrow> orderable_kind \<Rightarrow> ordering" where
  "orderable_cmp (ONum a) (ONum b) = cmp a b"
| "orderable_cmp (OStr a) (OStr b) = cmp a b"
| "orderable_cmp (ONum _) (OStr _) = Less"
| "orderable_cmp (OStr _) (ONum _) = Greater"

instantiation orderable_kind :: linorder
begin

definition less_eq_orderable_kind :: "orderable_kind \<Rightarrow> orderable_kind \<Rightarrow> bool" where
  "a \<le> b \<longleftrightarrow> orderable_cmp a b \<noteq> Greater"

definition less_orderable_kind :: "orderable_kind \<Rightarrow> orderable_kind \<Rightarrow> bool" where
  "a < b \<longleftrightarrow> orderable_cmp a b = Less"

instance
proof
  fix x y z :: orderable_kind
  show "x < y \<longleftrightarrow> x \<le> y \<and> \<not> y \<le> x"
    by (cases x; cases y) (auto simp: less_eq_orderable_kind_def less_orderable_kind_def)
  show "x \<le> x"
    by (cases x) (auto simp: less_eq_orderable_kind_def)
  show "x \<le> y \<Longrightarrow> y \<le> z \<Longrightarrow> x \<le> z"
    by (cases x; cases y; cases z) (auto simp: less_eq_orderable_kind_def)
  show "x \<le> y \<Longrightarrow> y \<le> x \<Longrightarrow> x = y"
    by (cases x; cases y) (auto simp: less_eq_orderable_kind_def)
  show "x \<le> y \<or> y \<le> x"
    by (cases x; cases y) (auto simp: less_eq_orderable_kind_def)
qed

end

fun orderable_from_kind :: "kind \<Rightarrow> orderable_kind option" where
  "orderable_from_kind (KNumber n) = Some (ONum (OrderedF64 (num_val n)))"
| "orderable_from_kind (KStr s) = Some (OStr s)"
| "orderable_from_kind _ = None"

section \<open>The index\<close>

type_synonym value_tree = "(orderable_kind \<times> nat list) list"

record value_index =
  indexes :: "(string \<times> value_tree) list"

definition vidx_new :: value_index where
  "vidx_new = \<lparr>indexes = []\<rparr>"

definition vidx_index_field :: "string \<Rightarrow> value_index \<Rightarrow> value_index" where
  "vidx_index_field field v =
     (case map_of (indexes v) field of
        Some _ \<Rightarrow> v
      | None \<Rightarrow> v\<lparr>indexes := AList.update field [] (indexes v)\<rparr>)"

definition has_index :: "value_index \<Rightarrow> string \<Rightarrow> bool" where
  "has_index v field \<longleftrightarrow> map_of (indexes v) field \<noteq> None"

definition indexed_fields :: "value_index \<Rightarrow> string list" where
  "indexed_fields v = map fst (indexes v)"

definition vidx_add :: "nat \<Rightarrow> string \<Rightarrow> kind \<Rightarrow> value_index \<Rightarrow> value_index" where
  "vidx_add entity_id field value v =
     (case map_of (indexes v) field of
        None \<Rightarrow> v
      | Some tree \<Rightarrow>
          (case orderable_from_kind value of
             None \<Rightarrow> v
           | Some key \<Rightarrow>
               v\<lparr>indexes := AList.update field (bt_push key entity_id tree) (indexes v)\<rparr>))"

definition vidx_remove :: "nat \<Rightarrow> string \<Rightarrow> kind \<Rightarrow> value_index \<Rightarrow> value_index" where
  "vidx_remove entity_id field value v =
     (case map_of (indexes v) field of
        None \<Rightarrow> v
      | Some tree \<Rightarrow>
          (case orderable_from_kind value of
             None \<Rightarrow> v
           | Some key \<Rightarrow>
               (case map_of tree key of
                  None \<Rightarrow> v
                | Some ids \<Rightarrow>
                    (let ids' = filter (\<lambda>n. n \<noteq> entity_id) ids;
                         tree' = (if ids' = [] then AList.delete key tree
                                  else bt_insert key ids' tree)
                     in v\<lparr>indexes := AList.update field tree' (indexes v)\<rparr>))))"

definition eq_lookup :: "value_index \<Rightarrow> string \<Rightarrow> kind \<Rightarrow> nat list" where
  "eq_lookup v field val =
     (case orderable_from_kind val of
        None \<Rightarrow> []
      | Some key \<Rightarrow>
          (case map_of (indexes v) field of None \<Rightarrow> [] | Some tree \<Rightarrow> vec_at tree key))"

definition ne_lookup :: "value_index \<Rightarrow> string \<Rightarrow> kind \<Rightarrow> nat list" where
  "ne_lookup v field val =
     (case orderable_from_kind val of
        None \<Rightarrow> []
      | Some key \<Rightarrow>
          (case map_of (indexes v) field of
             None \<Rightarrow> []
           | Some tree \<Rightarrow>
               (if vec_at tree key = [] then concat (map snd tree)
                else concat (map snd (filter (\<lambda>(k, _). k \<noteq> key) tree)))))"

text \<open>The four range lookups share their shape and differ in the range of keys.\<close>

definition range_lookup ::
  "(orderable_kind \<Rightarrow> orderable_kind \<Rightarrow> bool) \<Rightarrow> value_index \<Rightarrow> string \<Rightarrow> kind \<Rightarrow> nat list" where
  "range_lookup R v field val =
     (case orderable_from_kind val of
        None \<Rightarrow> []
      | Some key \<Rightarrow>
          (case map_of (indexes v) field of
             None \<Rightarrow> []
           | Some tree \<Rightarrow> concat (map snd (filter (\<lambda>(k, _). R k key) tree))))"

definition gt_lookup :: "value_index \<Rightarrow> string \<Rightarrow> kind \<Rightarrow> nat list" where
  "gt_lookup = range_lookup (\<lambda>k key. key < k)"

definition ge_lookup :: "value_index \<Rightarrow> string \<Rightarrow> kind \<Rightarrow> nat list" where
  "ge_lookup = range_lookup (\<lambda>k key. key \<le> k)"

definition lt_lookup :: "value_index \<Rightarrow> string \<Rightarrow> kind \<Rightarrow> nat list" where
  "lt_lookup = range_lookup (\<lambda>k key. k < key)"

definition le_lookup :: "value_index \<Rightarrow> string \<Rightarrow> kind \<Rightarrow> nat list" where
  "le_lookup = range_lookup (\<lambda>k key. k \<le> key)"

definition vidx_clear :: "value_index \<Rightarrow> value_index" where
  "vidx_clear v = v\<lparr>indexes := map (\<lambda>(f, _). (f, [])) (indexes v)\<rparr>"

text \<open>The loops of the graph's \<open>index_tags\<close> and \<open>remove_indexing\<close> over an entity's tags.\<close>

fun vidx_add_tags :: "nat \<Rightarrow> (string \<times> kind) list \<Rightarrow> value_index \<Rightarrow> value_index" where
  "vidx_add_tags entity_id [] v = v"
| "vidx_add_tags entity_id ((name, val) # ts) v =
     vidx_add_tags entity_id ts
       (if has_index v name then vidx_add entity_id name val v else v)"

fun vidx_remove_tags :: "nat \<Rightarrow> (string \<times> kind) list \<Rightarrow> value_index \<Rightarrow> value_index" where
  "vidx_remove_tags entity_id [] v = v"
| "vidx_remove_tags entity_id ((name, val) # ts) v =
     vidx_remove_tags entity_id ts
       (if has_index v name then vidx_remove entity_id name val v else v)"

section \<open>The index contract\<close>

definition tree_at :: "value_index \<Rightarrow> string \<Rightarrow> value_tree" where
  "tree_at v f = (case map_of (indexes v) f of None \<Rightarrow> [] | Some tree \<Rightarrow> tree)"

definition vidx_entries :: "value_index \<Rightarrow> (nat \<times> string \<times> orderable_kind) set" where
  "vidx_entries v = {(n, f, k). n \<in> set (vec_at (tree_at v f) k)}"

definition vidx_keys :: "value_index \<Rightarrow> hdict \<Rightarrow> (string \<times> orderable_kind) set" where
  "vidx_keys v e =
     {(f, k). has_index v f \<and> (\<exists>val. dict_get e f = Some val \<and> orderable_from_kind val = Some k)}"

definition tree_ok :: "value_tree \<Rightarrow> bool" where
  "tree_ok tree \<longleftrightarrow> bt_wf tree \<and> no_empty_vec tree \<and> (\<forall>k. distinct (vec_at tree k))"

definition vidx_inv :: "value_index \<Rightarrow> bool" where
  "vidx_inv v \<longleftrightarrow> hm_wf (indexes v) \<and> (\<forall>f. tree_ok (tree_at v f))"

definition vidx_ins :: "nat \<Rightarrow> hdict \<Rightarrow> value_index \<Rightarrow> value_index option" where
  "vidx_ins n e v = Some (vidx_add_tags n (tags e) v)"

definition vidx_del :: "nat \<Rightarrow> hdict \<Rightarrow> value_index \<Rightarrow> value_index option" where
  "vidx_del n e v = Some (vidx_remove_tags n (tags e) v)"

lemma tree_ok_Nil [simp]: "tree_ok []"
  by (simp add: tree_ok_def no_empty_vec_def)

lemma has_index_add [simp]: "has_index (vidx_add n f x v) = has_index v"
  by (rule ext) (auto simp: has_index_def vidx_add_def split: option.splits)

lemma has_index_remove [simp]: "has_index (vidx_remove n f x v) = has_index v"
  by (rule ext) (auto simp: has_index_def vidx_remove_def Let_def split: option.splits)

lemma vidx_keys_cong: "has_index v = has_index w \<Longrightarrow> vidx_keys v = vidx_keys w"
  by (simp add: vidx_keys_def fun_eq_iff)

lemma tree_at_add:
  "has_index v f \<Longrightarrow> orderable_from_kind x = Some k \<Longrightarrow>
   tree_at (vidx_add n f x v) g = (if g = f then bt_push k n (tree_at v f) else tree_at v g)"
  by (auto simp: tree_at_def vidx_add_def has_index_def)

lemma tree_at_add_other:
  "\<not> has_index v f \<or> orderable_from_kind x = None \<Longrightarrow> vidx_add n f x v = v"
  by (auto simp: vidx_add_def has_index_def split: option.splits)

lemma hm_wf_vidx_add: "hm_wf (indexes v) \<Longrightarrow> hm_wf (indexes (vidx_add n f x v))"
  by (simp add: vidx_add_def split: option.split)

lemma hm_wf_vidx_remove: "hm_wf (indexes v) \<Longrightarrow> hm_wf (indexes (vidx_remove n f x v))"
  by (simp add: vidx_remove_def Let_def split: option.split)

lemma vidx_add_ok:
  assumes "vidx_inv v" and "has_index v f" and "orderable_from_kind x = Some k"
    and "(n, f, k) \<notin> vidx_entries v"
  shows "vidx_inv (vidx_add n f x v)"
    and "vidx_entries (vidx_add n f x v) = insert (n, f, k) (vidx_entries v)"
proof -
  note at = tree_at_add [OF assms(2,3)]
  have "n \<notin> set (vec_at (tree_at v f) k)"
    using assms(4) by (simp add: vidx_entries_def)
  then have "tree_ok (bt_push k n (tree_at v f))"
    using assms(1) by (auto simp: vidx_inv_def tree_ok_def)
  then show "vidx_inv (vidx_add n f x v)"
    using assms(1) by (simp add: vidx_inv_def at hm_wf_vidx_add)
  show "vidx_entries (vidx_add n f x v) = insert (n, f, k) (vidx_entries v)"
    by (auto simp: vidx_entries_def at split: if_splits)
qed

definition tag_values :: "value_index \<Rightarrow> (string \<times> kind) list \<Rightarrow> (string \<times> orderable_kind) set" where
  "tag_values v ts =
     {(f, k). has_index v f \<and> (\<exists>val. (f, val) \<in> set ts \<and> orderable_from_kind val = Some k)}"

lemma tag_values_dict: "dict_wf e \<Longrightarrow> tag_values v (tags e) = vidx_keys v e"
  by (simp add: tag_values_def vidx_keys_def dict_get_in_tags)

lemma tag_values_Cons:
  "tag_values v ((f, x) # ts) =
     (case orderable_from_kind x of Some k \<Rightarrow> if has_index v f then {(f, k)} else {} | None \<Rightarrow> {})
     \<union> tag_values v ts"
  by (auto simp: tag_values_def split: option.splits)

lemma tag_values_cong: "has_index v = has_index w \<Longrightarrow> tag_values v = tag_values w"
  by (simp add: tag_values_def fun_eq_iff)

lemma vidx_add_tags_ok:
  assumes "vidx_inv v" and "hm_wf ts" and "\<forall>f k. (n, f, k) \<in> vidx_entries v \<longrightarrow> f \<notin> fst ` set ts"
  shows "vidx_inv (vidx_add_tags n ts v) \<and> has_index (vidx_add_tags n ts v) = has_index v \<and>
    vidx_entries (vidx_add_tags n ts v) = vidx_entries v \<union> {n} \<times> tag_values v ts"
  using assms
proof (induction ts arbitrary: v)
  case Nil
  then show ?case by (simp add: tag_values_def)
next
  case (Cons p ts)
  obtain f x where p: "p = (f, x)" by force
  show ?case
  proof (cases "has_index v f \<and> orderable_from_kind x \<noteq> None")
    case True
    then obtain k where k: "has_index v f" "orderable_from_kind x = Some k" by blast
    define v' where "v' = vidx_add n f x v"
    have "(n, f, k) \<notin> vidx_entries v"
      using Cons.prems(3) p by auto
    then have v': "vidx_inv v'" "vidx_entries v' = insert (n, f, k) (vidx_entries v)"
      using vidx_add_ok [OF Cons.prems(1) k] by (simp_all add: v'_def)
    have hi: "has_index v' = has_index v" by (simp add: v'_def)
    have "\<forall>g k. (n, g, k) \<in> vidx_entries v' \<longrightarrow> g \<notin> fst ` set ts"
      using Cons.prems(2,3) p v'(2) by auto
    with Cons.IH [OF v'(1)] Cons.prems(2) p
    have "vidx_inv (vidx_add_tags n ts v') \<and> has_index (vidx_add_tags n ts v') = has_index v' \<and>
        vidx_entries (vidx_add_tags n ts v') = vidx_entries v' \<union> {n} \<times> tag_values v' ts"
      by simp
    moreover have "vidx_add_tags n (p # ts) v = vidx_add_tags n ts v'"
      using k by (simp add: p v'_def)
    ultimately show ?thesis
      using v'(2) k by (auto simp: hi tag_values_cong [OF hi] p tag_values_Cons)
  next
    case False
    then have "vidx_add_tags n (p # ts) v = vidx_add_tags n ts v"
      and "tag_values v (p # ts) = tag_values v ts"
      using tree_at_add_other [of v f x n] by (auto simp: p tag_values_Cons split: option.splits)
    with Cons.IH [OF Cons.prems(1)] Cons.prems(2,3) show ?thesis
      by auto
  qed
qed

lemma vidx_ins_ok:
  assumes "vidx_inv v" and "dict_wf e" and "n \<le> U32_MAX" and "\<forall>k. (n, k) \<notin> vidx_entries v"
  shows "\<exists>v'. vidx_ins n e v = Some v' \<and> vidx_inv v' \<and> vidx_keys v' = vidx_keys v \<and>
    vidx_entries v' = vidx_entries v \<union> {n} \<times> vidx_keys v e"
proof -
  have "hm_wf (tags e)" using assms(2) by (simp add: dict_wf_def)
  then have "vidx_inv (vidx_add_tags n (tags e) v) \<and>
      has_index (vidx_add_tags n (tags e) v) = has_index v \<and>
      vidx_entries (vidx_add_tags n (tags e) v) = vidx_entries v \<union> {n} \<times> tag_values v (tags e)"
    using vidx_add_tags_ok [OF assms(1)] assms(4) by simp
  then show ?thesis
    using assms(2) by (auto simp: vidx_ins_def tag_values_dict intro: vidx_keys_cong)
qed

lemma tree_at_remove:
  assumes "has_index v f" and "orderable_from_kind x = Some k" and "tree_ok (tree_at v f)"
  shows "vec_at (tree_at (vidx_remove n f x v) g) j =
      (if g = f \<and> j = k then filter (\<lambda>m. m \<noteq> n) (vec_at (tree_at v f) k) else vec_at (tree_at v g) j)"
    and "tree_ok (tree_at (vidx_remove n f x v) f)"
    and "g \<noteq> f \<Longrightarrow> tree_at (vidx_remove n f x v) g = tree_at v g"
proof -
  obtain tree where tree: "map_of (indexes v) f = Some tree"
    using assms(1) by (auto simp: has_index_def)
  then have at: "tree_at v f = tree" by (simp add: tree_at_def)
  show "g \<noteq> f \<Longrightarrow> tree_at (vidx_remove n f x v) g = tree_at v g"
    using tree assms(2) by (simp add: vidx_remove_def tree_at_def Let_def split: option.split)
  show "vec_at (tree_at (vidx_remove n f x v) g) j =
      (if g = f \<and> j = k then filter (\<lambda>m. m \<noteq> n) (vec_at (tree_at v f) k) else vec_at (tree_at v g) j)"
    using tree assms(2)
    by (auto simp: vidx_remove_def tree_at_def Let_def vec_at_def split: option.splits)
  show "tree_ok (tree_at (vidx_remove n f x v) f)"
  proof (cases "map_of tree k")
    case None
    then have "vidx_remove n f x v = v"
      using tree assms(2) by (simp add: vidx_remove_def)
    with assms(3) show ?thesis by simp
  next
    case (Some ids)
    then have "distinct ids"
      using assms(3) at by (auto simp: tree_ok_def vec_at_def split: option.splits dest: spec [of _ k])
    with Some show ?thesis
      using tree assms(2,3) at
      by (auto simp: vidx_remove_def tree_at_def Let_def tree_ok_def no_empty_vec_def)
  qed
qed

lemma vidx_remove_ok:
  assumes "vidx_inv v" and "has_index v f" and "orderable_from_kind x = Some k"
  shows "vidx_inv (vidx_remove n f x v)"
    and "vidx_entries (vidx_remove n f x v) = vidx_entries v - {(n, f, k)}"
proof -
  have ok: "tree_ok (tree_at v f)" using assms(1) by (simp add: vidx_inv_def)
  note at = tree_at_remove [OF assms(2,3) ok]
  have "tree_ok (tree_at (vidx_remove n f x v) g)" for g
    using at(2,3) assms(1) by (cases "g = f") (auto simp: vidx_inv_def)
  then show "vidx_inv (vidx_remove n f x v)"
    using assms(1) by (simp add: vidx_inv_def hm_wf_vidx_remove)
  show "vidx_entries (vidx_remove n f x v) = vidx_entries v - {(n, f, k)}"
    by (auto simp: vidx_entries_def at(1) split: if_splits)
qed

lemma vidx_remove_other:
  "\<not> has_index v f \<or> orderable_from_kind x = None \<Longrightarrow> vidx_remove n f x v = v"
  by (auto simp: vidx_remove_def has_index_def split: option.splits)

lemma vidx_remove_tags_ok:
  assumes "vidx_inv v"
  shows "vidx_inv (vidx_remove_tags n ts v) \<and> has_index (vidx_remove_tags n ts v) = has_index v \<and>
    vidx_entries (vidx_remove_tags n ts v) = vidx_entries v - {n} \<times> tag_values v ts"
  using assms
proof (induction ts arbitrary: v)
  case Nil
  then show ?case by (simp add: tag_values_def)
next
  case (Cons p ts)
  obtain f x where p: "p = (f, x)" by force
  show ?case
  proof (cases "has_index v f \<and> orderable_from_kind x \<noteq> None")
    case True
    then obtain k where k: "has_index v f" "orderable_from_kind x = Some k" by blast
    define v' where "v' = vidx_remove n f x v"
    have v': "vidx_inv v'" "vidx_entries v' = vidx_entries v - {(n, f, k)}"
      using vidx_remove_ok [OF Cons.prems k] by (simp_all add: v'_def)
    have hi: "has_index v' = has_index v" by (simp add: v'_def)
    have "vidx_remove_tags n (p # ts) v = vidx_remove_tags n ts v'"
      using k by (simp add: p v'_def)
    with Cons.IH [OF v'(1)] v'(2) k show ?thesis
      by (auto simp: hi tag_values_cong [OF hi] p tag_values_Cons)
  next
    case False
    then have "vidx_remove_tags n (p # ts) v = vidx_remove_tags n ts v"
      and "tag_values v (p # ts) = tag_values v ts"
      using vidx_remove_other [of v f x n] by (auto simp: p tag_values_Cons split: option.splits)
    with Cons.IH [OF Cons.prems] show ?thesis by simp
  qed
qed

lemma vidx_del_ok:
  assumes "vidx_inv v" and "dict_wf e" and "n \<le> U32_MAX"
    and "{k. (n, k) \<in> vidx_entries v} = vidx_keys v e"
  shows "\<exists>v'. vidx_del n e v = Some v' \<and> vidx_inv v' \<and> vidx_keys v' = vidx_keys v \<and>
    vidx_entries v' = vidx_entries v - {n} \<times> UNIV"
proof -
  have "vidx_entries v - {n} \<times> vidx_keys v e = vidx_entries v - {n} \<times> UNIV"
    using assms(4) by auto
  then show ?thesis
    using vidx_remove_tags_ok [OF assms(1), of n "tags e"] assms(2)
    by (auto simp: vidx_del_def tag_values_dict intro: vidx_keys_cong)
qed

interpretation vidx: entity_index vidx_ins vidx_del vidx_entries vidx_keys vidx_inv
  by (unfold_locales; (rule vidx_ins_ok | rule vidx_del_ok); assumption)

section \<open>What the lookups return\<close>

lemma tree_in_set: "tree_ok tree \<Longrightarrow> (k, ids) \<in> set tree \<Longrightarrow> ids = vec_at tree k"
  by (simp add: tree_ok_def bt_in_set_iff vec_at_def)

lemma tree_entry: "tree_ok tree \<Longrightarrow> n \<in> set (vec_at tree k) \<Longrightarrow> (k, vec_at tree k) \<in> set tree"
  by (cases "map_of tree k") (simp_all add: tree_ok_def bt_in_set_iff vec_at_def)

lemma set_tree_range:
  assumes "tree_ok tree"
  shows "set (concat (map snd (filter (\<lambda>(k, _). P k) tree))) = {n. \<exists>k. P k \<and> n \<in> set (vec_at tree k)}"
proof (intro set_eqI iffI)
  fix n
  assume "n \<in> set (concat (map snd (filter (\<lambda>(k, _). P k) tree)))"
  then obtain k ids where "(k, ids) \<in> set tree" "P k" "n \<in> set ids" by auto
  then show "n \<in> {n. \<exists>k. P k \<and> n \<in> set (vec_at tree k)}"
    using tree_in_set [OF assms] by blast
next
  fix n
  assume "n \<in> {n. \<exists>k. P k \<and> n \<in> set (vec_at tree k)}"
  then obtain k where "P k" "n \<in> set (vec_at tree k)" by blast
  then show "n \<in> set (concat (map snd (filter (\<lambda>(k, _). P k) tree)))"
    using tree_entry [OF assms] by force
qed

lemma set_range_lookup:
  assumes "vidx_inv v" and "orderable_from_kind val = Some key"
  shows "set (range_lookup R v f val) = {n. \<exists>k. (n, f, k) \<in> vidx_entries v \<and> R k key}"
proof -
  have ok: "tree_ok (tree_at v f)" using assms(1) by (simp add: vidx_inv_def)
  have "range_lookup R v f val = concat (map snd (filter (\<lambda>(k, _). R k key) (tree_at v f)))"
    using assms(2) by (simp add: range_lookup_def tree_at_def split: option.split)
  then have "set (range_lookup R v f val) = {n. \<exists>k. R k key \<and> n \<in> set (vec_at (tree_at v f) k)}"
    using set_tree_range [OF ok] by (simp only:)
  then show ?thesis by (auto simp: vidx_entries_def)
qed

lemma set_eq_lookup:
  "orderable_from_kind val = Some key \<Longrightarrow>
   set (eq_lookup v f val) = {n. (n, f, key) \<in> vidx_entries v}"
  by (auto simp: eq_lookup_def vidx_entries_def tree_at_def split: option.splits)

lemma set_ne_lookup:
  assumes "vidx_inv v" and "orderable_from_kind val = Some key"
  shows "set (ne_lookup v f val) = {n. \<exists>k. (n, f, k) \<in> vidx_entries v \<and> k \<noteq> key}"
proof -
  define tree where "tree = tree_at v f"
  have ok: "tree_ok tree" using assms(1) by (simp add: vidx_inv_def tree_def)
  have all: "concat (map snd tree) = concat (map snd (filter (\<lambda>(k, _). True) tree))"
    by (simp add: case_prod_unfold)
  have "ne_lookup v f val = (if vec_at tree key = [] then concat (map snd tree)
      else concat (map snd (filter (\<lambda>(k, _). k \<noteq> key) tree)))"
    using assms(2) by (simp add: ne_lookup_def tree_def tree_at_def split: option.split)
  then have "set (ne_lookup v f val) =
      {n. \<exists>k. (vec_at tree key = [] \<or> k \<noteq> key) \<and> n \<in> set (vec_at tree k)}"
    using set_tree_range [OF ok, of "\<lambda>_. True"] set_tree_range [OF ok, of "\<lambda>k. k \<noteq> key"]
    by (cases "vec_at tree key = []") (simp_all only: all if_True if_False simp_thms)
  also have "\<dots> = {n. \<exists>k. k \<noteq> key \<and> n \<in> set (vec_at tree k)}"
    by (rule Collect_cong, metis list.distinct(1) list.set_cases)
  finally show ?thesis by (auto simp: vidx_entries_def tree_def)
qed

end
