(* ===== verification/Value_Size.thy ===== *)
theory Value_Size
  imports Values
begin

text \<open>
  Work and retained-byte accounting: \<open>graph/size.rs\<close>.

  \<open>None\<close> is the source's \<open>Err(())\<close>.  A failed charge is always propagated to the caller,
  which abandons the budget, so the state after a failure is not modelled.
\<close>

record value_budget =
  work_left :: nat
  bytes_left :: nat
  initial_bytes :: nat
  budget_depth :: nat

definition budget_new :: "nat \<Rightarrow> nat \<Rightarrow> nat \<Rightarrow> value_budget" where
  "budget_new work bytes depth =
     \<lparr>work_left = work, bytes_left = bytes, initial_bytes = bytes, budget_depth = depth\<rparr>"

definition charge :: "nat \<Rightarrow> nat \<Rightarrow> value_budget \<Rightarrow> value_budget option" where
  "charge work bytes b =
     (if work > work_left b \<or> bytes > bytes_left b then None
      else Some (b\<lparr>work_left := work_left b - work, bytes_left := bytes_left b - bytes\<rparr>))"

definition used_bytes :: "value_budget \<Rightarrow> nat" where
  "used_bytes b = initial_bytes b - bytes_left b"

definition opt_len :: "string option \<Rightarrow> nat" where
  "opt_len s = (case s of None \<Rightarrow> 0 | Some t \<Rightarrow> length t)"

fun payload_bytes :: "kind \<Rightarrow> nat" where
  "payload_bytes (KStr v) = length v"
| "payload_bytes (KNumber v) = opt_len (num_unit v)"
| "payload_bytes (KRef v) = saturating_add (length (ref_val v)) (opt_len (ref_dis v))"
| "payload_bytes (KUri v) = length v"
| "payload_bytes (KSymbol v) = length v"
| "payload_bytes (KDateTime v) = length (tz_name v)"
| "payload_bytes (KXStr v) = saturating_add (length (type_name v)) (length (xstr_val v))"
| "payload_bytes (KBuf v) = length v"
| "payload_bytes (KNominal v) =
     saturating_add (saturating_add (saturating_add (length (nom_spec v)) (length (nom_catalog v)))
       (length (nom_revision v))) (length (nom_text v))"
| "payload_bytes _ = 0"

definition charge_name :: "string \<Rightarrow> value_budget \<Rightarrow> value_budget option" where
  "charge_name name = charge (saturating_add (length name) 1) (saturating_add (length name) 64)"

definition charge_value :: "kind \<Rightarrow> value_budget \<Rightarrow> value_budget option" where
  "charge_value v =
     charge (saturating_add (payload_bytes v) 1) (saturating_add (payload_bytes v) 512)"

text \<open>\<open>ValueBudget::dict\<close> and \<open>ValueBudget::value\<close>, with one function per loop of
  their bodies.\<close>

function (sequential) budget_dict :: "hdict \<Rightarrow> nat \<Rightarrow> value_budget \<Rightarrow> value_budget option"
  and budget_tags :: "(string \<times> kind) list \<Rightarrow> nat \<Rightarrow> value_budget \<Rightarrow> value_budget option"
  and budget_value :: "kind \<Rightarrow> nat \<Rightarrow> value_budget \<Rightarrow> value_budget option"
  and budget_inner :: "kind \<Rightarrow> nat \<Rightarrow> value_budget \<Rightarrow> value_budget option"
  and budget_items :: "kind list \<Rightarrow> nat \<Rightarrow> value_budget \<Rightarrow> value_budget option"
  and budget_cols :: "hcol list \<Rightarrow> nat \<Rightarrow> value_budget \<Rightarrow> value_budget option"
  and budget_rows :: "hdict list \<Rightarrow> nat \<Rightarrow> value_budget \<Rightarrow> value_budget option" where
  "budget_dict (HDict ts) depth b =
     (if depth > budget_depth b then None
      else Option.bind (charge 1 128 b) (\<lambda>b. budget_tags ts depth b))"
| "budget_tags [] depth b = Some b"
| "budget_tags ((name, v) # ts) depth b =
     Option.bind (charge_name name b)
       (\<lambda>b. Option.bind (budget_value v (depth + 1) b) (\<lambda>b. budget_tags ts depth b))"
| "budget_value v depth b =
     (if depth > budget_depth b then None
      else Option.bind (charge_value v b) (\<lambda>b. budget_inner v depth b))"
| "budget_inner (KList xs) depth b = budget_items xs (depth + 1) b"
| "budget_inner (KDict d) depth b = budget_dict d (depth + 1) b"
| "budget_inner (KGrid (HGrid m cs rs)) depth b =
     Option.bind (budget_dict m (depth + 1) b)
       (\<lambda>b. Option.bind (budget_cols cs (depth + 1) b) (\<lambda>b. budget_rows rs (depth + 1) b))"
| "budget_inner _ depth b = Some b"
| "budget_items [] depth b = Some b"
| "budget_items (x # xs) depth b =
     Option.bind (budget_value x depth b) (\<lambda>b. budget_items xs depth b)"
| "budget_cols [] depth b = Some b"
| "budget_cols (HCol n m # cs) depth b =
     Option.bind (charge_name n b)
       (\<lambda>b. Option.bind (budget_dict m depth b) (\<lambda>b. budget_cols cs depth b))"
| "budget_rows [] depth b = Some b"
| "budget_rows (r # rs) depth b =
     Option.bind (budget_dict r depth b) (\<lambda>b. budget_rows rs depth b)"
  by pat_completeness auto
termination
  by (relation "measure (\<lambda>x. case x of
      Inl (Inl (d, _)) \<Rightarrow> 2 * size d
    | Inl (Inr (Inl (ts, _))) \<Rightarrow> 2 * size_list (size_prod (\<lambda>_. 0) size) ts
    | Inl (Inr (Inr (v, _))) \<Rightarrow> Suc (2 * size v)
    | Inr (Inl (Inl (v, _))) \<Rightarrow> 2 * size v
    | Inr (Inl (Inr (xs, _))) \<Rightarrow> 2 * size_list size xs
    | Inr (Inr (Inl (cs, _))) \<Rightarrow> 2 * size_list size cs
    | Inr (Inr (Inr (rs, _))) \<Rightarrow> 2 * size_list size rs)") simp_all

definition diff_bytes :: "string \<Rightarrow> hdict list \<Rightarrow> nat \<Rightarrow> nat option" where
  "diff_bytes ident rows limit =
     map_option used_bytes
       (Option.bind (charge 1 (saturating_add (length ident) 256) (budget_new USIZE_MAX limit 64))
         (\<lambda>b. budget_rows rows 1 b))"

fun charge_previous :: "hdict \<Rightarrow> (string \<times> kind) list \<Rightarrow> value_budget \<Rightarrow> value_budget option" where
  "charge_previous old [] b = Some b"
| "charge_previous old ((name, _) # ts) b =
     (case dict_get old name of
        None \<Rightarrow> charge_previous old ts b
      | Some v \<Rightarrow>
          Option.bind (charge_name name b)
            (\<lambda>b. Option.bind (budget_value v 2 b) (\<lambda>b. charge_previous old ts b)))"

definition patch_diff_bytes :: "string \<Rightarrow> hdict \<Rightarrow> hdict \<Rightarrow> nat \<Rightarrow> nat option" where
  "patch_diff_bytes ident old changes limit =
     map_option used_bytes
       (Option.bind (charge 1 (saturating_add (length ident) 384) (budget_new USIZE_MAX limit 64))
         (\<lambda>b. Option.bind (budget_dict changes 1 b) (\<lambda>b. charge_previous old (tags changes) b)))"

section \<open>The total cost of a value\<close>

text \<open>
  A cost is the work, the bytes and the nesting depth a traversal needs.  The metered traversal
  succeeds exactly when the whole cost fits the budget, and then spends exactly that cost: the
  order in which the parts are charged does not matter.
\<close>

type_synonym cost = "nat \<times> nat \<times> nat"

fun add_cost :: "cost \<Rightarrow> cost \<Rightarrow> cost" where
  "add_cost (w, y, d) (w', y', d') = (w + w', y + y', max d d')"

fun spend :: "cost \<Rightarrow> value_budget \<Rightarrow> value_budget option" where
  "spend (w, y, d) b =
     (if w \<le> work_left b \<and> y \<le> bytes_left b \<and> d \<le> budget_depth b
      then Some (b\<lparr>work_left := work_left b - w, bytes_left := bytes_left b - y\<rparr>) else None)"

definition name_cost :: "string \<Rightarrow> cost" where
  "name_cost n = (saturating_add (length n) 1, saturating_add (length n) 64, 0)"

definition value_cost :: "kind \<Rightarrow> nat \<Rightarrow> cost" where
  "value_cost v depth =
     (saturating_add (payload_bytes v) 1, saturating_add (payload_bytes v) 512, depth)"

function (sequential) cost_dict :: "hdict \<Rightarrow> nat \<Rightarrow> cost"
  and cost_tags :: "(string \<times> kind) list \<Rightarrow> nat \<Rightarrow> cost"
  and cost_value :: "kind \<Rightarrow> nat \<Rightarrow> cost"
  and cost_inner :: "kind \<Rightarrow> nat \<Rightarrow> cost"
  and cost_items :: "kind list \<Rightarrow> nat \<Rightarrow> cost"
  and cost_cols :: "hcol list \<Rightarrow> nat \<Rightarrow> cost"
  and cost_rows :: "hdict list \<Rightarrow> nat \<Rightarrow> cost" where
  "cost_dict (HDict ts) depth = add_cost (1, 128, depth) (cost_tags ts depth)"
| "cost_tags [] depth = (0, 0, 0)"
| "cost_tags ((name, v) # ts) depth =
     add_cost (name_cost name) (add_cost (cost_value v (depth + 1)) (cost_tags ts depth))"
| "cost_value v depth = add_cost (value_cost v depth) (cost_inner v depth)"
| "cost_inner (KList xs) depth = cost_items xs (depth + 1)"
| "cost_inner (KDict d) depth = cost_dict d (depth + 1)"
| "cost_inner (KGrid (HGrid m cs rs)) depth =
     add_cost (cost_dict m (depth + 1))
       (add_cost (cost_cols cs (depth + 1)) (cost_rows rs (depth + 1)))"
| "cost_inner _ depth = (0, 0, 0)"
| "cost_items [] depth = (0, 0, 0)"
| "cost_items (x # xs) depth = add_cost (cost_value x depth) (cost_items xs depth)"
| "cost_cols [] depth = (0, 0, 0)"
| "cost_cols (HCol n m # cs) depth =
     add_cost (name_cost n) (add_cost (cost_dict m depth) (cost_cols cs depth))"
| "cost_rows [] depth = (0, 0, 0)"
| "cost_rows (r # rs) depth = add_cost (cost_dict r depth) (cost_rows rs depth)"
  by pat_completeness auto
termination
  by (relation "measure (\<lambda>x. case x of
      Inl (Inl (d, _)) \<Rightarrow> 2 * size d
    | Inl (Inr (Inl (ts, _))) \<Rightarrow> 2 * size_list (size_prod (\<lambda>_. 0) size) ts
    | Inl (Inr (Inr (v, _))) \<Rightarrow> Suc (2 * size v)
    | Inr (Inl (Inl (v, _))) \<Rightarrow> 2 * size v
    | Inr (Inl (Inr (xs, _))) \<Rightarrow> 2 * size_list size xs
    | Inr (Inr (Inl (cs, _))) \<Rightarrow> 2 * size_list size cs
    | Inr (Inr (Inr (rs, _))) \<Rightarrow> 2 * size_list size rs)") simp_all

lemma spend_zero [simp]: "spend (0, 0, 0) b = Some b"
  by simp

lemma spend_bind: "Option.bind (spend c b) (spend c') = spend (add_cost c c') b"
  by (cases c; cases c') auto

lemma charge_spend: "charge w y = spend (w, y, 0)"
  by (rule ext) (simp add: charge_def)

lemma depth_then_charge:
  "(if d > budget_depth b then None else Option.bind (charge w y b) f) =
   Option.bind (spend (w, y, d) b) f"
  by (simp add: charge_def)

lemma charge_name_spend: "charge_name n = spend (name_cost n)"
  by (simp add: charge_name_def name_cost_def charge_spend)

lemma depth_then_charge_value:
  "(if d > budget_depth b then None else Option.bind (charge_value v b) f) =
   Option.bind (spend (value_cost v d) b) f"
  by (simp add: charge_value_def value_cost_def charge_def)

lemma budget_spends:
  "budget_dict d depth b = spend (cost_dict d depth) b"
  "budget_tags ts depth b = spend (cost_tags ts depth) b"
  "budget_value v depth b = spend (cost_value v depth) b"
  "budget_inner v depth b = spend (cost_inner v depth) b"
  "budget_items xs depth b = spend (cost_items xs depth) b"
  "budget_cols cs depth b = spend (cost_cols cs depth) b"
  "budget_rows rs depth b = spend (cost_rows rs depth) b"
proof (induction d depth b and ts depth b and v depth b and v depth b and xs depth b
    and cs depth b and rs depth b rule: budget_dict_budget_tags_budget_value_budget_inner_budget_items_budget_cols_budget_rows.induct)
  case (1 ts depth b)
  then have "(if depth > budget_depth b then None
      else Option.bind (charge 1 128 b) (\<lambda>b. budget_tags ts depth b)) =
    (if depth > budget_depth b then None
      else Option.bind (charge 1 128 b) (spend (cost_tags ts depth)))"
    by (auto cong: Option.bind_cong)
  then show ?case
    by (simp only: budget_dict.simps cost_dict.simps depth_then_charge spend_bind)
next
  case (4 v depth b)
  then have "(if depth > budget_depth b then None
      else Option.bind (charge_value v b) (\<lambda>b. budget_inner v depth b)) =
    (if depth > budget_depth b then None
      else Option.bind (charge_value v b) (spend (cost_inner v depth)))"
    by (auto cong: Option.bind_cong)
  then show ?case
    by (simp only: budget_value.simps cost_value.simps depth_then_charge_value spend_bind)
qed (simp_all add: charge_name_spend spend_bind cong: Option.bind_cong del: spend.simps)

lemma diff_bytes_cost:
  "diff_bytes ident rs limit =
     (case add_cost (1, saturating_add (length ident) 256, 0) (cost_rows rs 1) of (w, y, d) \<Rightarrow>
        if w \<le> USIZE_MAX \<and> y \<le> limit \<and> d \<le> 64 then Some y else None)"
  by (simp add: diff_bytes_def charge_spend budget_spends spend_bind del: spend.simps)
    (simp add: budget_new_def used_bytes_def split: prod.split)

text \<open>The old values a patch replaces, as the dictionary recorded in the log.\<close>

fun previous_tags_of :: "hdict \<Rightarrow> (string \<times> kind) list \<Rightarrow> (string \<times> kind) list" where
  "previous_tags_of old [] = []"
| "previous_tags_of old ((name, _) # ts) =
     (case dict_get old name of
        None \<Rightarrow> previous_tags_of old ts
      | Some v \<Rightarrow> (name, v) # previous_tags_of old ts)"

lemma charge_previous_cost:
  "charge_previous old ts b = spend (cost_tags (previous_tags_of old ts) 1) b"
  by (induction old ts b rule: charge_previous.induct)
    (auto simp: charge_name_spend budget_spends spend_bind numeral_2_eq_2
      simp del: spend.simps cost_value.simps budget_value.simps cong: Option.bind_cong split: option.splits)

lemma add_cost_assoc: "add_cost (add_cost a b) c = add_cost a (add_cost b c)"
  by (cases a; cases b; cases c) (simp add: add.assoc max.assoc)

lemma add_cost_zero [simp]: "add_cost c (0, 0, 0) = c"
  by (cases c) simp

lemma patch_diff_bytes_cost:
  "patch_diff_bytes ident old changes limit =
     (case add_cost (1, saturating_add (length ident) 384, 0)
        (add_cost (cost_dict changes 1) (cost_tags (previous_tags_of old (tags changes)) 1)) of
        (w, y, d) \<Rightarrow> if w \<le> USIZE_MAX \<and> y \<le> limit \<and> d \<le> 64 then Some y else None)"
  by (simp add: patch_diff_bytes_def charge_spend budget_spends charge_previous_cost spend_bind
      add_cost_assoc del: spend.simps)
    (simp add: budget_new_def used_bytes_def split: prod.split)

lemma diff_bytes_le: "diff_bytes ident rs limit = Some n \<Longrightarrow> n \<le> limit"
  by (auto simp: diff_bytes_cost split: prod.splits if_splits)

lemma patch_diff_bytes_le: "patch_diff_bytes ident old changes limit = Some n \<Longrightarrow> n \<le> limit"
  by (auto simp: patch_diff_bytes_cost split: prod.splits if_splits)

end
