(* ===== verification/Changelog.thy ===== *)
theory Changelog
  imports Value_Size "HOL-Library.Sublist"
begin

text \<open>
  The change feed of the entity graph: \<open>graph/changelog.rs\<close> and the operations of
  \<open>graph/entity_graph.rs\<close> that maintain and read it (\<open>append_committed_unit\<close>,
  \<open>native_gap\<close>, \<open>changes_since\<close>, \<open>change_units_since\<close>).

  \<open>feed\<close> holds the identity, revision and changelog fields of \<open>EntityGraph\<close>; the graph's record extends it.
  Byte totals are \<open>usize\<close> sums: an overflow or underflow is a panic (\<open>None\<close>).  The eviction
  loop is a \<open>partial_function\<close>: on a log whose front never leaves it would not return, which
  is also \<open>None\<close>.  \<open>retained f log h\<close> is the shape of every log the graph builds: complete
  commit units that follow each other without a hole from revision \<open>f + 1\<close> to \<open>h\<close>.
\<close>

section \<open>Records\<close>

record commit_span =
  span_first :: nat
  span_last :: nat

definition singleton :: "nat \<Rightarrow> commit_span" where
  "singleton version = \<lparr>span_first = version, span_last = version\<rparr>"

record graph_state =
  st_incarnation :: "8 word list"
  st_revision :: nat
  st_catalog_generation :: nat

datatype diff_op = DiffAdd | DiffUpdate | DiffRemove

record graph_diff =
  gd_version :: nat
  gd_span :: commit_span
  gd_retained_bytes :: nat
  gd_timestamp :: int
  gd_op :: diff_op
  gd_ref_val :: string
  gd_old :: "hdict option"
  gd_new :: "hdict option"
  gd_changed_tags :: "hdict option"
  gd_previous_tags :: "hdict option"

record changelog_gap =
  subscriber_version :: nat
  gap_floor_version :: nat

datatype change_cursor_error =
    Gap changelog_gap
  | Future nat
  | InsideUnit commit_span

record feed =
  incarnation :: "8 word list"
  catalog_generation :: nat
  version :: nat
  changelog :: "graph_diff list"
  changelog_capacity :: nat
  changelog_byte_capacity :: nat
  changelog_bytes :: nat
  floor_version :: nat

definition graph_state :: "'a feed_scheme \<Rightarrow> graph_state" where
  "graph_state g =
     \<lparr>st_incarnation = incarnation g, st_revision = version g,
      st_catalog_generation = catalog_generation g\<rparr>"

definition DEFAULT_CHANGELOG_CAPACITY :: nat where
  "DEFAULT_CHANGELOG_CAPACITY = 50000"

definition DEFAULT_CHANGELOG_BYTES :: nat where
  "DEFAULT_CHANGELOG_BYTES = 64 * 1024 * 1024"

section \<open>Appending and evicting\<close>

fun sum_retained :: "graph_diff list \<Rightarrow> nat \<Rightarrow> nat option" where
  "sum_retained [] acc = Some acc"
| "sum_retained (d # ds) acc =
     Option.bind (checked_add_usize acc (gd_retained_bytes d)) (sum_retained ds)"

fun pop_through :: "nat \<Rightarrow> graph_diff list \<Rightarrow> nat \<Rightarrow> (graph_diff list \<times> nat) option" where
  "pop_through bound [] bytes = Some ([], bytes)"
| "pop_through bound (d # ds) bytes =
     (if gd_version d \<le> bound then
        (if gd_retained_bytes d \<le> bytes then pop_through bound ds (bytes - gd_retained_bytes d)
         else None)
      else Some (d # ds, bytes))"

partial_function (option) evict ::
  "nat \<Rightarrow> nat \<Rightarrow> graph_diff list \<Rightarrow> nat \<Rightarrow> nat \<Rightarrow> (graph_diff list \<times> nat \<times> nat) option" where
  "evict cap byte_cap log bytes low =
     (if cap < length log \<or> byte_cap < bytes then
        (case log of
           [] \<Rightarrow> None
         | d # _ \<Rightarrow>
             Option.bind (pop_through (span_last (gd_span d)) log bytes)
               (\<lambda>(log', bytes'). evict cap byte_cap log' bytes' (span_last (gd_span d))))
      else Some (log, bytes, low))"

definition append_committed_unit ::
  "int \<Rightarrow> graph_diff list \<Rightarrow> 'a feed_scheme \<Rightarrow> 'a feed_scheme option" where
  "append_committed_unit now diffs g =
     Option.bind (sum_retained diffs 0) (\<lambda>bytes.
     Option.bind (checked_add_usize (changelog_bytes g) bytes) (\<lambda>total.
     Option.bind
       (evict (changelog_capacity g) (changelog_byte_capacity g)
          (changelog g @ map (gd_timestamp_update (\<lambda>_. now)) diffs) total (floor_version g))
       (\<lambda>(log, bytes', low).
          Some (g\<lparr>changelog := log, changelog_bytes := bytes', floor_version := low\<rparr>))))"

definition native_gap :: "'a feed_scheme \<Rightarrow> 'a feed_scheme" where
  "native_gap g = g\<lparr>changelog := [], changelog_bytes := 0, floor_version := version g\<rparr>"

section \<open>Reading\<close>

text \<open>\<open>partition_point\<close> of a sequence partitioned by its predicate.\<close>

definition partition_point :: "('a \<Rightarrow> bool) \<Rightarrow> 'a list \<Rightarrow> nat" where
  "partition_point P xs = length (takeWhile P xs)"

definition changes_since :: "'a feed_scheme \<Rightarrow> nat \<Rightarrow> changelog_gap + graph_diff list" where
  "changes_since g v =
     (if 0 < floor_version g \<and> v < floor_version g
      then Inl \<lparr>subscriber_version = v, gap_floor_version = floor_version g\<rparr>
      else Inr (drop (partition_point (\<lambda>d. gd_version d \<le> v) (changelog g)) (changelog g)))"

text \<open>The cursor of \<open>ChangeUnits\<close>: the log it borrows and the index of the next unit.\<close>

record change_units =
  cu_state :: graph_state
  cu_floor :: nat
  cu_log :: "graph_diff list"
  cu_next :: nat

record change_unit =
  unit_span :: commit_span
  unit_start :: nat
  unit_end :: nat

definition change_units_since :: "'a feed_scheme \<Rightarrow> nat \<Rightarrow> change_cursor_error + change_units" where
  "change_units_since g v =
     (if version g < v then Inl (Future (version g))
      else if v < floor_version g then
        Inl (Gap \<lparr>subscriber_version = v, gap_floor_version = floor_version g\<rparr>)
      else
        (let next = partition_point (\<lambda>d. gd_version d \<le> v) (changelog g)
         in if 0 < next \<and> span_last (gd_span (changelog g ! (next - 1))) \<noteq> v
            then Inl (InsideUnit (gd_span (changelog g ! (next - 1))))
            else Inr \<lparr>cu_state = graph_state g, cu_floor = floor_version g,
                      cu_log = changelog g, cu_next = next\<rparr>))"

text \<open>\<open>Iterator::next\<close>; a span whose end precedes its start underflows and panics.\<close>

definition change_units_next :: "change_units \<Rightarrow> (unit, (change_unit \<times> change_units) option) res" where
  "change_units_next u =
     (if cu_next u < length (cu_log u) then
        (let span = gd_span (cu_log u ! cu_next u)
         in if span_last span < span_first span then Inl Panic
            else
              (let count = span_last span - span_first span + 1
               in Inr (Some (\<lparr>unit_span = span, unit_start = cu_next u, unit_end = cu_next u + count\<rparr>,
                             u\<lparr>cu_next := cu_next u + count\<rparr>))))
      else Inr None)"

definition unit_len :: "change_unit \<Rightarrow> nat" where
  "unit_len u = unit_end u - unit_start u"

text \<open>\<open>log.range(start..end)\<close> panics when the range leaves the log.\<close>

definition unit_diffs :: "graph_diff list \<Rightarrow> change_unit \<Rightarrow> (unit, graph_diff list) res" where
  "unit_diffs log u =
     (if unit_end u \<le> length log \<and> unit_start u \<le> unit_end u
      then Inr (take (unit_end u - unit_start u) (drop (unit_start u) log)) else Inl Panic)"

text \<open>A consumer that drains the iterator.\<close>

function drain_units :: "change_units \<Rightarrow> (unit, (commit_span \<times> graph_diff list) list) res" where
  "drain_units u =
     rbind (change_units_next u) (\<lambda>r.
       case r of
         None \<Rightarrow> Inr []
       | Some (cu, u') \<Rightarrow>
           rbind (unit_diffs (cu_log u) cu) (\<lambda>ds.
           rbind (drain_units u') (\<lambda>rest. Inr ((unit_span cu, ds) # rest))))"
  by pat_completeness auto
termination
  by (relation "measure (\<lambda>u. length (cu_log u) - cu_next u)")
    (auto simp: change_units_next_def Let_def split: if_splits)

declare drain_units.simps [simp del]

section \<open>The shape of the log\<close>

definition bytes_of :: "graph_diff list \<Rightarrow> nat" where
  "bytes_of ds = sum_list (map gd_retained_bytes ds)"

definition unit_ok :: "nat \<Rightarrow> graph_diff list \<Rightarrow> nat \<Rightarrow> bool" where
  "unit_ok f u l \<longleftrightarrow> f < l \<and> map gd_version u = [Suc f..<Suc l] \<and>
     (\<forall>d \<in> set u. gd_span d = \<lparr>span_first = Suc f, span_last = l\<rparr>)"

inductive retained :: "nat \<Rightarrow> graph_diff list \<Rightarrow> nat \<Rightarrow> bool" where
  retained_nil: "retained f [] f"
| retained_unit: "unit_ok f u l \<Longrightarrow> retained l ds h \<Longrightarrow> retained f (u @ ds) h"

inductive_cases retained_ConsE: "retained f (d # ds) h"

definition feed_inv :: "'a feed_scheme \<Rightarrow> bool" where
  "feed_inv g \<longleftrightarrow>
     retained (floor_version g) (changelog g) (version g) \<and>
     changelog_bytes g = bytes_of (changelog g) \<and>
     length (changelog g) \<le> changelog_capacity g \<and>
     changelog_bytes g \<le> changelog_byte_capacity g \<and>
     0 < changelog_capacity g \<and> 2 * changelog_byte_capacity g \<le> USIZE_MAX \<and>
     version g \<le> U64_MAX"

lemma bytes_of_simps [simp]:
  "bytes_of [] = 0"
  "bytes_of (d # ds) = gd_retained_bytes d + bytes_of ds"
  "bytes_of (xs @ ys) = bytes_of xs + bytes_of ys"
  "bytes_of (map (gd_timestamp_update f) xs) = bytes_of xs"
  by (simp_all add: bytes_of_def comp_def)

lemma unit_ok_not_Nil: "unit_ok f u l \<Longrightarrow> u \<noteq> []"
  by (auto simp: unit_ok_def)

lemma unit_ok_stamp [simp]: "unit_ok f (map (gd_timestamp_update t) u) l = unit_ok f u l"
  by (auto simp: unit_ok_def comp_def)

lemma unit_ok_singleton:
  "gd_version d = Suc f \<Longrightarrow> gd_span d = singleton (Suc f) \<Longrightarrow> unit_ok f [d] (Suc f)"
  by (simp add: unit_ok_def singleton_def)

lemma upt_join: "i \<le> j \<Longrightarrow> j \<le> k \<Longrightarrow> [i..<j] @ [j..<k] = [i..<k]"
  using upt_add_eq_append [of i j "k - j"] by simp

lemma nth_of_versions:
  assumes "map gd_version ds = [Suc f..<Suc l]" and "i < length ds"
  shows "gd_version (ds ! i) = Suc (f + i)"
proof -
  have "length ds = Suc l - Suc f"
    using arg_cong [OF assms(1), of length] by (simp del: upt_Suc)
  with assms(2) have "Suc f + i < Suc l" by simp
  then have "[Suc f..<Suc l] ! i = Suc f + i" by (rule nth_upt)
  moreover have "map gd_version ds ! i = gd_version (ds ! i)" using assms(2) by (rule nth_map)
  ultimately show ?thesis using assms(1) by (simp del: upt_Suc)
qed

lemma unit_ok_nth: "unit_ok f u l \<Longrightarrow> i < length u \<Longrightarrow> gd_version (u ! i) = Suc (f + i)"
  unfolding unit_ok_def by (blast intro: nth_of_versions)

lemma unit_ok_span:
  "unit_ok f u l \<Longrightarrow> d \<in> set u \<Longrightarrow> gd_span d = \<lparr>span_first = Suc f, span_last = l\<rparr>"
  unfolding unit_ok_def by blast

lemma retained_versions: "retained f log h \<Longrightarrow> f \<le> h \<and> map gd_version log = [Suc f..<Suc h]"
proof (induction rule: retained.induct)
  case (retained_unit f u l ds h)
  then have "[Suc f..<Suc l] @ [Suc l..<Suc h] = [Suc f..<Suc h]"
    by (intro upt_join) (simp_all add: unit_ok_def)
  with retained_unit show ?case by (simp add: unit_ok_def del: upt_Suc)
qed simp

lemma retained_length:
  assumes "retained f log h"
  shows "f + length log = h"
proof -
  have "length (map gd_version log) = length [Suc f..<Suc h]" and "f \<le> h"
    using retained_versions [OF assms] by simp_all
  then show ?thesis by (simp del: upt_Suc)
qed

lemma retained_Nil_iff [simp]: "retained f [] h \<longleftrightarrow> h = f"
  using retained_length [of f "[]" h] retained_nil by auto

lemma retained_nth: "retained f log h \<Longrightarrow> i < length log \<Longrightarrow> gd_version (log ! i) = Suc (f + i)"
  using nth_of_versions retained_versions by blast

lemma retained_member:
  assumes "retained f log h" and "d \<in> set log"
  shows "f < gd_version d \<and> gd_version d \<le> h"
proof -
  have "gd_version d \<in> set (map gd_version log)" using assms(2) by simp
  with retained_versions [OF assms(1)] show ?thesis
    by (simp del: set_map upt_Suc)
qed

lemma unit_ok_member: "unit_ok f u l \<Longrightarrow> d \<in> set u \<Longrightarrow> f < gd_version d \<and> gd_version d \<le> l"
  using retained_member [of f u l d] retained_unit [OF _ retained_nil, of f u l] by simp

lemma retained_head:
  assumes "retained f (d # ds) h"
  shows "gd_version d = Suc f \<and> span_first (gd_span d) = Suc f"
proof -
  from assms obtain u l ds' where u: "d # ds = u @ ds'" "unit_ok f u l"
    by (rule retained_ConsE) blast+
  then obtain u' where "u = d # u'"
    using unit_ok_not_Nil by (cases u) auto
  with u retained_nth [OF assms, of 0] show ?thesis by (simp add: unit_ok_def)
qed

lemma retained_append:
  "retained f ds h \<Longrightarrow> unit_ok h u l \<Longrightarrow> retained f (ds @ u) l"
proof (induction rule: retained.induct)
  case (retained_nil f)
  then show ?case using retained.retained_unit [OF _ retained.retained_nil, of f u l] by simp
next
  case (retained_unit f u' l' ds h)
  then show ?case by (simp add: retained.retained_unit)
qed

section \<open>Eviction\<close>

lemma sum_retained_eq:
  "acc + bytes_of ds \<le> USIZE_MAX \<Longrightarrow> sum_retained ds acc = Some (acc + bytes_of ds)"
  by (induction ds arbitrary: acc) (auto simp: checked_add_usize_def)

lemma pop_through_unit:
  assumes "\<forall>d \<in> set u. gd_version d \<le> l" and "\<forall>d \<in> set ds. l < gd_version d"
  shows "pop_through l (u @ ds) (bytes_of (u @ ds)) = Some (ds, bytes_of ds)"
  using assms
proof (induction u)
  case Nil
  then show ?case by (cases ds) auto
qed simp

lemma suffix_of_unit:
  assumes "unit_ok f u l" and "suffix suf (u @ ds)" and "retained k suf h" and "suf \<noteq> u @ ds"
  shows "suffix suf ds"
proof (rule ccontr)
  assume no: "\<not> suffix suf ds"
  with assms(2) obtain u2 where u2: "suf = u2 @ ds" "suffix u2 u"
    unfolding suffix_append by blast
  with no obtain d u3 where d: "u2 = d # u3" by (cases u2) simp_all
  from u2(2) obtain u1 where u1: "u = u1 @ d # u3" unfolding suffix_def d by blast
  with assms(4) u2(1) d have "u1 \<noteq> []" by auto
  have "gd_version (u ! length u1) = Suc (f + length u1)"
    using unit_ok_nth [OF assms(1), of "length u1"] by (simp add: u1)
  then have "gd_version d = Suc (f + length u1)" by (simp add: u1)
  moreover have "gd_version d = Suc k" "span_first (gd_span d) = Suc k"
    using retained_head [of k d "u3 @ ds" h] assms(3) by (simp_all add: u2(1) d)
  moreover have "span_first (gd_span d) = Suc f"
    using unit_ok_span [OF assms(1), of d] by (simp add: u1)
  ultimately show False using \<open>u1 \<noteq> []\<close> by simp
qed

text \<open>Eviction returns, and keeps the longest run of complete newest units within both limits.\<close>

lemma evict_ok:
  assumes "retained f log h"
  shows "\<exists>log' f'. evict cap byte_cap log (bytes_of log) f = Some (log', bytes_of log', f') \<and>
    retained f' log' h \<and> suffix log' log \<and> length log' \<le> cap \<and> bytes_of log' \<le> byte_cap \<and>
    (\<forall>k suf. retained k suf h \<and> suffix suf log \<and> length suf \<le> cap \<and> bytes_of suf \<le> byte_cap \<longrightarrow>
       suffix suf log')"
  using assms
proof (induction rule: retained.induct)
  case (retained_nil f)
  have "evict cap byte_cap [] (bytes_of []) f = Some ([], bytes_of [], f)"
    by (subst evict.simps) simp
  then show ?case by (intro exI [of _ "[]"] exI [of _ f]) simp
next
  case (retained_unit f u l ds h)
  show ?case
  proof (cases "cap < length (u @ ds) \<or> byte_cap < bytes_of (u @ ds)")
    case False
    then have "evict cap byte_cap (u @ ds) (bytes_of (u @ ds)) f = Some (u @ ds, bytes_of (u @ ds), f)"
      by (subst evict.simps) simp
    with False retained.retained_unit [OF retained_unit.hyps] show ?thesis
      by (intro exI [of _ "u @ ds"] exI [of _ f]) simp
  next
    case True
    obtain d u' where d: "u = d # u'"
      using unit_ok_not_Nil [OF retained_unit.hyps(1)] by (cases u) auto
    have spn: "span_last (gd_span d) = l"
      using unit_ok_span [OF retained_unit.hyps(1), of d] by (simp add: d)
    have "\<forall>d \<in> set u. gd_version d \<le> l"
      using unit_ok_member [OF retained_unit.hyps(1)] by blast
    moreover have "\<forall>d \<in> set ds. l < gd_version d"
      using retained_member [OF retained_unit.hyps(2)] by blast
    ultimately have "pop_through l (u @ ds) (bytes_of (u @ ds)) = Some (ds, bytes_of ds)"
      by (rule pop_through_unit)
    then have step: "evict cap byte_cap (u @ ds) (bytes_of (u @ ds)) f =
        evict cap byte_cap ds (bytes_of ds) l"
      using True by (subst evict.simps) (simp add: d spn del: bytes_of_simps pop_through.simps)
    have cut: "suffix suf ds"
      if "retained k suf h" "suffix suf (u @ ds)" "length suf \<le> cap" "bytes_of suf \<le> byte_cap"
      for k suf
    proof -
      have "suf \<noteq> u @ ds" using True that(3,4) by auto
      with suffix_of_unit [OF retained_unit.hyps(1) that(2,1)] show ?thesis by simp
    qed
    from retained_unit.IH obtain log' f' where IH:
      "evict cap byte_cap ds (bytes_of ds) l = Some (log', bytes_of log', f')"
      "retained f' log' h \<and> suffix log' ds \<and> length log' \<le> cap \<and> bytes_of log' \<le> byte_cap"
      "\<forall>k suf. retained k suf h \<and> suffix suf ds \<and> length suf \<le> cap \<and> bytes_of suf \<le> byte_cap
         \<longrightarrow> suffix suf log'"
      by blast
    have "suffix log' (u @ ds)" using IH(2) suffix_appendI by blast
    moreover have "\<forall>k suf. retained k suf h \<and> suffix suf (u @ ds) \<and> length suf \<le> cap \<and>
        bytes_of suf \<le> byte_cap \<longrightarrow> suffix suf log'"
      using IH(3) cut by blast
    ultimately show ?thesis
      unfolding step using IH(1,2) by blast
  qed
qed

abbreviation stamp :: "int \<Rightarrow> graph_diff list \<Rightarrow> graph_diff list" where
  "stamp now \<equiv> map (gd_timestamp_update (\<lambda>_. now))"

lemma append_committed_unit_ok:
  fixes g :: "'a feed_scheme"
  assumes "retained (floor_version g) (changelog g) h" and "unit_ok h u (version g)"
    and "changelog_bytes g = bytes_of (changelog g)"
    and "changelog_bytes g \<le> changelog_byte_capacity g"
    and "bytes_of u \<le> changelog_byte_capacity g" and "2 * changelog_byte_capacity g \<le> USIZE_MAX"
  shows "\<exists>log low.
    append_committed_unit now u g =
      Some (g\<lparr>changelog := log, changelog_bytes := bytes_of log, floor_version := low\<rparr>) \<and>
    retained low log (version g) \<and> suffix log (changelog g @ stamp now u) \<and>
    length log \<le> changelog_capacity g \<and> bytes_of log \<le> changelog_byte_capacity g \<and>
    (\<forall>k suf. retained k suf (version g) \<and> suffix suf (changelog g @ stamp now u) \<and>
       length suf \<le> changelog_capacity g \<and> bytes_of suf \<le> changelog_byte_capacity g \<longrightarrow>
       suffix suf log)"
proof -
  have "retained (floor_version g) (changelog g @ stamp now u) (version g)"
    using assms(1,2) by (intro retained_append [of _ _ h]) simp_all
  from evict_ok [OF this, of "changelog_capacity g" "changelog_byte_capacity g"]
  obtain log low where ev:
    "evict (changelog_capacity g) (changelog_byte_capacity g) (changelog g @ stamp now u)
       (bytes_of (changelog g @ stamp now u)) (floor_version g) = Some (log, bytes_of log, low)"
    and rest: "retained low log (version g) \<and> suffix log (changelog g @ stamp now u) \<and>
      length log \<le> changelog_capacity g \<and> bytes_of log \<le> changelog_byte_capacity g \<and>
      (\<forall>k suf. retained k suf (version g) \<and> suffix suf (changelog g @ stamp now u) \<and>
         length suf \<le> changelog_capacity g \<and> bytes_of suf \<le> changelog_byte_capacity g \<longrightarrow>
         suffix suf log)"
    by blast
  have "sum_retained u 0 = Some (bytes_of u)"
    using assms(5,6) by (subst sum_retained_eq) simp_all
  moreover have "checked_add_usize (changelog_bytes g) (bytes_of u) =
      Some (bytes_of (changelog g @ stamp now u))"
    using assms(3-6) by (simp add: checked_add_usize_def)
  ultimately have "append_committed_unit now u g =
      Some (g\<lparr>changelog := log, changelog_bytes := bytes_of log, floor_version := low\<rparr>)"
    using ev by (simp add: append_committed_unit_def del: bytes_of_simps)
  with rest show ?thesis by blast
qed

lemma suffix_stamp_unit:
  assumes "unit_ok h u l" and "\<forall>k suf. retained k suf l \<and> suffix suf (xs @ stamp now u) \<and>
      length suf \<le> cap \<and> bytes_of suf \<le> byte_cap \<longrightarrow> suffix suf log"
    and "length u \<le> cap" and "bytes_of u \<le> byte_cap"
  shows "suffix (stamp now u) log"
proof -
  have "retained h (stamp now u) l"
    using retained_unit [OF _ retained_nil, of h "stamp now u" l] assms(1) by simp
  then show ?thesis using assms(2-4) by (simp add: suffix_def)
qed

lemma native_gap_retained: "retained (floor_version (native_gap g)) (changelog (native_gap g)) (version g)"
  by (simp add: native_gap_def)

section \<open>Reading the feed\<close>

lemma length_takeWhile_upt:
  "length (takeWhile (\<lambda>x. x \<le> v) [Suc f..<Suc h]) = min (v - f) (h - f)"
proof (cases "v \<le> h")
  case True
  show ?thesis
  proof (cases "f \<le> v")
    case fv: True
    then have "[Suc f..<Suc h] = [Suc f..<Suc v] @ [Suc v..<Suc h]"
      using True by (simp add: upt_join del: upt_Suc)
    moreover have "takeWhile (\<lambda>x. x \<le> v) ([Suc f..<Suc v] @ [Suc v..<Suc h]) = [Suc f..<Suc v]"
      by (subst takeWhile_append2) (auto simp: upt_conv_Cons simp del: upt_Suc intro: takeWhile_eq_Nil_iff [THEN iffD2])
    ultimately show ?thesis using True by (simp del: upt_Suc)
  next
    case False
    then show ?thesis by (cases "f < h") (simp_all add: upt_conv_Cons del: upt_Suc)
  qed
next
  case False
  then have all: "takeWhile (\<lambda>x. x \<le> v) [Suc f..<Suc h] = [Suc f..<Suc h]"
    by (auto simp: takeWhile_eq_all_conv simp del: upt_Suc)
  show ?thesis unfolding all using False by (simp del: upt_Suc)
qed

lemma partition_point_retained:
  assumes "retained f log h"
  shows "partition_point (\<lambda>d. gd_version d \<le> v) log = min (v - f) (length log)"
proof -
  have "length (takeWhile (\<lambda>d. gd_version d \<le> v) log) =
      length (takeWhile (\<lambda>x. x \<le> v) (map gd_version log))"
    by (simp add: takeWhile_map comp_def)
  also have "\<dots> = min (v - f) (h - f)"
    using retained_versions [OF assms] by (simp add: length_takeWhile_upt del: upt_Suc)
  finally show ?thesis
    using retained_length [OF assms] by (simp add: partition_point_def)
qed

lemma retained_drop_versions:
  "retained f log h \<Longrightarrow> f \<le> v \<Longrightarrow> map gd_version (drop (v - f) log) = [Suc v..<Suc h]"
  using retained_versions [of f log h] by (simp add: drop_map [symmetric] drop_upt del: upt_Suc)

lemma retained_boundary:
  assumes "retained f log h" and "i < length log"
    and "span_last (gd_span (log ! i)) = gd_version (log ! i)"
  shows "retained (Suc (f + i)) (drop (Suc i) log) h"
  using assms
proof (induction arbitrary: i rule: retained.induct)
  case (retained_unit f u l ds h)
  have len: "f + length u = l"
    using retained_length [OF retained.retained_unit [OF retained_unit.hyps(1) retained.retained_nil]]
    by simp
  show ?case
  proof (cases "i < length u")
    case True
    then have "Suc (f + i) = l"
      using retained_unit.prems(2) unit_ok_span [OF retained_unit.hyps(1), of "u ! i"]
        unit_ok_nth [OF retained_unit.hyps(1), of i] by (simp add: nth_append)
    with len have "Suc i = length u" by simp
    with retained_unit.hyps(2) \<open>Suc (f + i) = l\<close> show ?thesis by simp
  next
    case False
    with retained_unit.prems retained_unit.IH [of "i - length u"]
    have "retained (Suc (l + (i - length u))) (drop (Suc (i - length u)) ds) h"
      by (simp add: nth_append)
    moreover have "l + (i - length u) = f + i" using False len by simp
    ultimately show ?thesis using False by (simp add: Suc_diff_le)
  qed
qed simp

lemma retained_span:
  "retained f log h \<Longrightarrow> d \<in> set log \<Longrightarrow>
   span_first (gd_span d) \<le> gd_version d \<and> gd_version d \<le> span_last (gd_span d)"
proof (induction rule: retained.induct)
  case (retained_unit f u l ds h)
  then show ?case
    using unit_ok_span [of f u l d] unit_ok_member [of f u l d] by auto
qed simp

text \<open>Draining a cursor at a unit boundary yields every later unit, whole and in order.\<close>

definition whole_unit :: "commit_span \<times> graph_diff list \<Rightarrow> bool" where
  "whole_unit = (\<lambda>(s, ds). ds \<noteq> [] \<and> map gd_version ds = [span_first s..<Suc (span_last s)] \<and>
     (\<forall>d \<in> set ds. gd_span d = s))"

lemma drain_units_ok:
  assumes "retained k suf h" and "cu_log u = pre @ suf" and "cu_next u = length pre"
  shows "\<exists>us. drain_units u = Inr us \<and> concat (map snd us) = suf \<and> list_all whole_unit us"
  using assms
proof (induction arbitrary: u pre rule: retained.induct)
  case (retained_nil f)
  then show ?case
    by (subst drain_units.simps) (simp add: change_units_next_def)
next
  case (retained_unit f un l ds h)
  obtain d un' where d: "un = d # un'"
    using unit_ok_not_Nil [OF retained_unit.hyps(1)] by (cases un) auto
  have span: "gd_span d = \<lparr>span_first = Suc f, span_last = l\<rparr>"
    using unit_ok_span [OF retained_unit.hyps(1), of d] by (simp add: d)
  have len: "f + length un = l"
    using retained_length [OF retained.retained_unit [OF retained_unit.hyps(1) retained.retained_nil]]
    by simp
  define cu where "cu = \<lparr>unit_span = gd_span d, unit_start = length pre,
    unit_end = length pre + length un\<rparr>"
  define u' where "u' = u\<lparr>cu_next := length pre + length un\<rparr>"
  have "l - Suc f + 1 = length un" "Suc f \<le> l"
    using len unit_ok_not_Nil [OF retained_unit.hyps(1)] by (auto simp: d)
  then have nxt: "change_units_next u = Inr (Some (cu, u'))"
    using retained_unit.prems span
    by (simp add: change_units_next_def Let_def nth_append d cu_def u'_def)
  have diffs: "unit_diffs (cu_log u) cu = Inr un"
    using retained_unit.prems by (simp add: unit_diffs_def cu_def)
  have whole: "whole_unit (unit_span cu, un)"
    using retained_unit.hyps(1) unit_ok_not_Nil [OF retained_unit.hyps(1)]
    by (simp add: whole_unit_def cu_def span unit_ok_def del: upt_Suc)
  have "cu_log u' = (pre @ un) @ ds" "cu_next u' = length (pre @ un)"
    using retained_unit.prems by (simp_all add: u'_def)
  from retained_unit.IH [OF this] obtain us where
    "drain_units u' = Inr us" "concat (map snd us) = ds" "list_all whole_unit us" by blast
  with nxt diffs whole show ?case
    by (intro exI [of _ "(unit_span cu, un) # us"]) (subst drain_units.simps, simp)
qed

lemma change_units_since_ok:
  assumes "retained (floor_version g) (changelog g) (version g)"
    and "floor_version g \<le> v" and "v \<le> version g"
  shows "(\<exists>s \<in> gd_span ` set (changelog g).
            change_units_since g v = Inl (InsideUnit s) \<and> span_first s \<le> v \<and> v < span_last s) \<or>
    (\<exists>u us. change_units_since g v = Inr u \<and> cu_state u = graph_state g \<and>
       drain_units u = Inr us \<and> list_all whole_unit us \<and>
       concat (map snd us) = drop (v - floor_version g) (changelog g))"
proof -
  define f log i where "f = floor_version g" and "log = changelog g" and "i = v - f"
  note ret = assms(1) [folded f_def log_def]
  have i: "partition_point (\<lambda>d. gd_version d \<le> v) log = i" "i \<le> length log" "v = f + i"
    using partition_point_retained [OF ret, of v] retained_length [OF ret] assms(2,3)
    by (simp_all add: i_def f_def)
  define u where "u = \<lparr>cu_state = graph_state g, cu_floor = f, cu_log = log, cu_next = i\<rparr>"
  have since: "change_units_since g v =
      (if 0 < i \<and> span_last (gd_span (log ! (i - 1))) \<noteq> v
       then Inl (InsideUnit (gd_span (log ! (i - 1)))) else Inr u)"
    using assms(2,3) i(1) by (simp add: change_units_since_def Let_def u_def f_def log_def)
  show ?thesis
  proof (cases "0 < i \<and> span_last (gd_span (log ! (i - 1))) \<noteq> v")
    case True
    then have lt: "i - 1 < length log" using i(2) by auto
    then have mem: "log ! (i - 1) \<in> set log" by (rule nth_mem)
    moreover have "gd_version (log ! (i - 1)) = v"
      using True retained_nth [OF ret lt] i(3) by simp
    ultimately show ?thesis
      using retained_span [OF ret mem] since True
      by (intro disjI1 bexI [of _ "gd_span (log ! (i - 1))"]) (auto simp: log_def)
  next
    case False
    have "retained v (drop i log) (version g)"
    proof (cases i)
      case 0
      with ret i show ?thesis by simp
    next
      case (Suc j)
      with False i retained_nth [OF ret, of j] retained_boundary [OF ret, of j]
      show ?thesis by simp
    qed
    then have "\<exists>us. drain_units u = Inr us \<and> concat (map snd us) = drop i log \<and>
        list_all whole_unit us"
      using i(2) by (intro drain_units_ok [where pre = "take i log"]) (simp_all add: u_def)
    with since False show ?thesis
      by (intro disjI2) (auto simp: u_def i_def f_def log_def)
  qed
qed

lemma changes_since_eq:
  assumes "retained (floor_version g) (changelog g) (version g)"
  shows "changes_since g v =
    (if v < floor_version g
     then Inl \<lparr>subscriber_version = v, gap_floor_version = floor_version g\<rparr>
     else Inr (drop (v - floor_version g) (changelog g)))"
  using partition_point_retained [OF assms, of v]
  by (auto simp: changes_since_def min_def)

end
