(* ===== verification/Query_Cache.thy ===== *)
theory Query_Cache
  imports Prelude
begin

text \<open>
  The query-result cache of the entity graph: \<open>QueryCache\<close> in \<open>graph/entity_graph.rs\<close>.

  An \<open>IndexMap\<close> is its list of entries in insertion order: inserting a present key replaces
  the value in place, \<open>move_index(i, len - 1)\<close> moves an entry to the back and
  \<open>shift_remove_index(0)\<close> drops the front.
\<close>

type_synonym cache_key = "string \<times> nat"

record query_cache =
  qc_entries :: "(cache_key \<times> string list) list"
  qc_capacity :: nat

definition qc_new :: "nat \<Rightarrow> query_cache" where
  "qc_new capacity = \<lparr>qc_entries = [], qc_capacity = capacity\<rparr>"

definition qc_get :: "string \<Rightarrow> nat \<Rightarrow> query_cache \<Rightarrow> string list option \<times> query_cache" where
  "qc_get flt ver c =
     (case map_of (qc_entries c) (flt, ver) of
        None \<Rightarrow> (None, c)
      | Some refs \<Rightarrow>
          (Some refs,
           c\<lparr>qc_entries := AList.delete (flt, ver) (qc_entries c) @ [((flt, ver), refs)]\<rparr>))"

definition purge_stale :: "nat \<Rightarrow> query_cache \<Rightarrow> query_cache" where
  "purge_stale min_version c =
     c\<lparr>qc_entries := filter (\<lambda>((_, ver), _). min_version \<le> ver) (qc_entries c)\<rparr>"

definition qc_clear :: "query_cache \<Rightarrow> query_cache" where
  "qc_clear c = c\<lparr>qc_entries := []\<rparr>"

definition qc_insert :: "string \<Rightarrow> nat \<Rightarrow> string list \<Rightarrow> query_cache \<Rightarrow> query_cache" where
  "qc_insert flt ver refs c =
     (let c1 = (if qc_capacity c \<le> length (qc_entries c) then purge_stale ver c else c);
          c2 = (if qc_capacity c1 \<le> length (qc_entries c1)
                then c1\<lparr>qc_entries := tl (qc_entries c1)\<rparr> else c1)
      in c2\<lparr>qc_entries := AList.update (flt, ver) refs (qc_entries c2)\<rparr>)"

definition query_cache_capacity_for :: "nat \<Rightarrow> nat" where
  "query_cache_capacity_for entity_count = min (max (entity_count div 100) 256) 1024"

definition DEFAULT_QUERY_CACHE_CAPACITY :: nat where
  "DEFAULT_QUERY_CACHE_CAPACITY = 256"

section \<open>Invariant\<close>

text \<open>No key twice, no more entries than the capacity, and no entry from the future.\<close>

definition qc_inv :: "nat \<Rightarrow> query_cache \<Rightarrow> bool" where
  "qc_inv now c \<longleftrightarrow>
     hm_wf (qc_entries c) \<and> length (qc_entries c) \<le> qc_capacity c \<and>
     256 \<le> qc_capacity c \<and> qc_capacity c \<le> 1024 \<and>
     (\<forall>flt ver. now < ver \<longrightarrow> map_of (qc_entries c) (flt, ver) = None)"

lemma qc_inv_new [simp]: "qc_inv now (qc_new DEFAULT_QUERY_CACHE_CAPACITY)"
  by (simp add: qc_inv_def qc_new_def DEFAULT_QUERY_CACHE_CAPACITY_def)

lemma qc_inv_clear: "qc_inv now c \<Longrightarrow> qc_inv now' (qc_clear c)"
  by (simp add: qc_inv_def qc_clear_def)

lemma qc_inv_later: "qc_inv now c \<Longrightarrow> now \<le> now' \<Longrightarrow> qc_inv now' c"
  by (simp add: qc_inv_def)

lemma qc_inv_grow: "qc_inv now c \<Longrightarrow> qc_capacity c \<le> n \<Longrightarrow> n \<le> 1024 \<Longrightarrow> qc_inv now (c\<lparr>qc_capacity := n\<rparr>)"
  by (simp add: qc_inv_def)

lemma qc_capacity_for_bounds: "256 \<le> query_cache_capacity_for n \<and> query_cache_capacity_for n \<le> 1024"
  by (simp add: query_cache_capacity_for_def)

lemma length_delete_present:
  "hm_wf m \<Longrightarrow> map_of m k = Some v \<Longrightarrow> Suc (length (AList.delete k m)) = length m"
proof (induction m)
  case (Cons p m)
  show ?case
  proof (cases "fst p = k")
    case True
    then have "k \<notin> fst ` set m" using Cons.prems(1) by auto
    then have "AList.delete k m = m" by (force simp: AList.delete_eq filter_id_conv)
    with True show ?thesis by (cases p) (simp add: AList.delete_eq)
  next
    case False
    with Cons show ?thesis by (cases p) (simp add: AList.delete_eq)
  qed
qed simp

lemma qc_get_lookup:
  assumes "hm_wf (qc_entries c)"
  shows "fst (qc_get flt ver c) = map_of (qc_entries c) (flt, ver)"
    and "map_of (qc_entries (snd (qc_get flt ver c))) = map_of (qc_entries c)"
    and "hm_wf (qc_entries (snd (qc_get flt ver c)))"
    and "length (qc_entries (snd (qc_get flt ver c))) = length (qc_entries c)"
    and "qc_capacity (snd (qc_get flt ver c)) = qc_capacity c"
  using assms length_delete_present [OF assms]
  by (auto simp: qc_get_def map_add_def fun_eq_iff AList.delete_keys distinct_removeAll split: option.splits)

lemma qc_inv_get: "qc_inv now c \<Longrightarrow> qc_inv now (snd (qc_get flt ver c))"
  by (simp add: qc_inv_def qc_get_lookup)

lemma hm_length_update:
  "length (AList.update k v m) = (if map_of m k = None then Suc (length m) else length m)"
  by (induction m) auto

lemma map_of_tl: "hm_wf m \<Longrightarrow> map_of (tl m) k = Some v \<Longrightarrow> map_of m k = Some v"
  by (cases m) (auto simp: map_of_eq_None_iff [symmetric])

lemma qc_insert_lookup:
  assumes "hm_wf (qc_entries c)"
  shows "map_of (qc_entries (qc_insert flt ver refs c)) (flt, ver) = Some refs"
    and "map_of (qc_entries (qc_insert flt ver refs c)) k = Some x \<Longrightarrow>
      k = (flt, ver) \<and> x = refs \<or> map_of (qc_entries c) k = Some x"
  using assms
  by (auto simp: qc_insert_def Let_def purge_stale_def hm_map_of_filter
      dest!: map_of_tl [rotated] split: if_splits option.splits)

lemma qc_inv_insert:
  assumes "qc_inv now c" and "ver \<le> now"
  shows "qc_inv now (qc_insert flt ver refs c)"
proof -
  define c1 where "c1 = (if qc_capacity c \<le> length (qc_entries c) then purge_stale ver c else c)"
  define c2 where "c2 = (if qc_capacity c1 \<le> length (qc_entries c1)
    then c1\<lparr>qc_entries := tl (qc_entries c1)\<rparr> else c1)"
  have c: "qc_insert flt ver refs c = c2\<lparr>qc_entries := AList.update (flt, ver) refs (qc_entries c2)\<rparr>"
    by (simp add: qc_insert_def c1_def c2_def Let_def)
  have "hm_wf (qc_entries c1)" "length (qc_entries c1) \<le> qc_capacity c1" "qc_capacity c1 = qc_capacity c"
    using assms(1) by (auto simp: c1_def qc_inv_def purge_stale_def intro: le_trans [OF length_filter_le])
  then have c2: "hm_wf (qc_entries c2)" "length (qc_entries c2) < qc_capacity c2" "qc_capacity c2 = qc_capacity c"
    using assms(1) by (auto simp: c2_def qc_inv_def map_tl distinct_tl)
  have "map_of (qc_entries (qc_insert flt ver refs c)) (flt', ver') = None" if "now < ver'" for flt' ver'
    using qc_insert_lookup(2) [of c flt ver refs "(flt', ver')"] assms that
    by (cases "map_of (qc_entries (qc_insert flt ver refs c)) (flt', ver')") (auto simp: qc_inv_def)
  with c2 assms(1) show ?thesis
    by (simp add: c qc_inv_def hm_length_update)
qed

end
