(* ===== verification/Entity_Graph.thy ===== *)
theory Entity_Graph
  imports Filter_Eval Tag_Bitmap Ref_Adjacency Value_Index Changelog Query_Cache
begin

text \<open>
  The entity store: the state and the mutating operations of \<open>graph/entity_graph.rs\<close>.

  \<open>entity_graph\<close> has the fields of \<open>EntityGraph\<close>.  An operation that can fail returns
  its error, a panic, or the new graph with the result; the code returns every error before it
  changes anything, so an error leaves the old graph.  The wall clock read by
  \<open>append_committed_unit\<close>, the random incarnation and the addresses of new \<open>Arc\<close>s are
  arguments.
\<close>

section \<open>State\<close>

datatype graph_error =
    MissingId
  | InvalidId
  | ImmutableId
  | DuplicateRef string
  | NotFound string
  | FilterError string
  | IdExhausted
  | RevisionExhausted

text \<open>A shared handle: its address, compared by \<open>Arc::ptr_eq\<close>, and what it holds.\<close>

datatype 'a arc = Arc (arc_addr: nat) (arc_val: 'a)

definition ptr_eq :: "'a arc \<Rightarrow> 'a arc \<Rightarrow> bool" where
  "ptr_eq a b \<longleftrightarrow> arc_addr a = arc_addr b"

text \<open>Of an activated catalog the graph uses its namespace and how its selection derives a
  namespace from another one.\<close>

record activated_catalog =
  cat_namespace :: "namespace arc"
  cat_with_catalog :: "namespace \<Rightarrow> namespace"
  cat_selection :: string

definition rebase :: "nat \<Rightarrow> activated_catalog \<Rightarrow> namespace \<Rightarrow> activated_catalog" where
  "rebase addr c ns = c\<lparr>cat_namespace := Arc addr (cat_with_catalog c ns)\<rparr>"

record entity_graph = feed +
  entities :: "(string \<times> hdict) list"
  id_map :: "(string \<times> nat) list"
  reverse_id :: "(nat \<times> string) list"
  next_id :: nat
  free_ids :: "nat list"
  g_tags :: tag_index
  adjacency :: ref_adjacency
  g_namespace :: "namespace arc option"
  activated :: "activated_catalog arc option"
  g_query_cache :: query_cache
  ast_cache :: "(string \<times> filter_node) list"
  g_values :: value_index
  index_generation :: nat

definition MAX_ENTITY_ID :: nat where
  "MAX_ENTITY_ID = U32_MAX"

definition AUTO_INDEX_FIELDS :: "string list" where
  "AUTO_INDEX_FIELDS =
     [''siteRef'', ''equipRef'', ''dis'', ''curVal'', ''area'', ''geoCity'', ''kind'', ''unit'']"

section \<open>Construction\<close>

definition with_changelog_capacity :: "8 word list \<Rightarrow> nat \<Rightarrow> entity_graph" where
  "with_changelog_capacity rand capacity =
     \<lparr>incarnation = rand, catalog_generation = 0, version = 0, changelog = [],
      changelog_capacity = max capacity 1, changelog_byte_capacity = DEFAULT_CHANGELOG_BYTES,
      changelog_bytes = 0, floor_version = 0, entities = [], id_map = [], reverse_id = [],
      next_id = 0, free_ids = [], g_tags = tag_new, adjacency = adj_new, g_namespace = None,
      activated = None, g_query_cache = qc_new DEFAULT_QUERY_CACHE_CAPACITY, ast_cache = [],
      g_values = fold vidx_index_field AUTO_INDEX_FIELDS vidx_new, index_generation = 0\<rparr>"

definition graph_new :: "8 word list \<Rightarrow> entity_graph" where
  "graph_new rand = with_changelog_capacity rand DEFAULT_CHANGELOG_CAPACITY"

definition with_changelog_limits :: "8 word list \<Rightarrow> nat \<Rightarrow> nat \<Rightarrow> entity_graph" where
  "with_changelog_limits rand capacity bytes =
     (with_changelog_capacity rand capacity)\<lparr>changelog_byte_capacity := max bytes 1\<rparr>"

definition with_namespace :: "8 word list \<Rightarrow> namespace arc \<Rightarrow> entity_graph" where
  "with_namespace rand ns = (graph_new rand)\<lparr>g_namespace := Some ns\<rparr>"

definition renew_incarnation :: "8 word list \<Rightarrow> entity_graph \<Rightarrow> entity_graph" where
  "renew_incarnation rand g = g\<lparr>incarnation := rand\<rparr>"

section \<open>Internal indexing\<close>

definition index_tags :: "nat \<Rightarrow> hdict \<Rightarrow> entity_graph \<Rightarrow> entity_graph option" where
  "index_tags entity_id e g =
     map_option (\<lambda>t. g\<lparr>g_tags := t, g_values := vidx_add_tags entity_id (tags e) (g_values g)\<rparr>)
       (tag_add entity_id (tag_names e) (g_tags g))"

definition index_refs :: "nat \<Rightarrow> hdict \<Rightarrow> entity_graph \<Rightarrow> entity_graph" where
  "index_refs entity_id e g = g\<lparr>adjacency := index_refs_tags entity_id (tags e) (adjacency g)\<rparr>"

definition remove_indexing :: "nat \<Rightarrow> hdict \<Rightarrow> entity_graph \<Rightarrow> entity_graph option" where
  "remove_indexing entity_id e g =
     map_option (\<lambda>t. g\<lparr>g_tags := t, adjacency := adj_remove entity_id (adjacency g),
                        g_values := vidx_remove_tags entity_id (tags e) (g_values g)\<rparr>)
       (tag_remove entity_id (tag_names e) (g_tags g))"

section \<open>Adding, updating and removing entities\<close>

definition extract_ref_val :: "hdict \<Rightarrow> (graph_error, string) res" where
  "extract_ref_val e =
     (case dict_get e ''id'' of
        Some (KRef r) \<Rightarrow> Inr (ref_val r)
      | Some _ \<Rightarrow> Inl (Err InvalidId)
      | None \<Rightarrow> Inl (Err MissingId))"

text \<open>The last step of every mutation: the diff is appended as a unit of its own, or, when it is
  too large to retain, the log restarts at the current version.\<close>

definition commit_diff :: "int \<Rightarrow> graph_diff option \<Rightarrow> entity_graph \<Rightarrow> entity_graph option" where
  "commit_diff now d g =
     (case d of Some diff \<Rightarrow> append_committed_unit now [diff] g | None \<Rightarrow> Some (native_gap g))"

definition alloc_id :: "entity_graph \<Rightarrow> (graph_error, nat \<times> entity_graph) res" where
  "alloc_id g =
     (if free_ids g \<noteq> [] then Inr (last (free_ids g), g\<lparr>free_ids := butlast (free_ids g)\<rparr>)
      else if MAX_ENTITY_ID < next_id g then Inl (Err IdExhausted)
      else rbind (ok_or (Err InvalidId) (checked_add_usize (next_id g) 1))
             (\<lambda>next. Inr (next_id g, g\<lparr>next_id := next\<rparr>)))"

definition resize_cache :: "entity_graph \<Rightarrow> entity_graph" where
  "resize_cache g =
     (let target_cap = query_cache_capacity_for (length (entities g))
      in if qc_capacity (g_query_cache g) < target_cap
         then g\<lparr>g_query_cache := (g_query_cache g)\<lparr>qc_capacity := target_cap\<rparr>\<rparr> else g)"

definition add_diff :: "nat \<Rightarrow> string \<Rightarrow> hdict \<Rightarrow> nat \<Rightarrow> graph_diff" where
  "add_diff revision rv e bytes =
     \<lparr>gd_version = revision, gd_span = singleton revision, gd_retained_bytes = bytes,
      gd_timestamp = 0, gd_op = DiffAdd, gd_ref_val = rv, gd_old = None, gd_new = Some e,
      gd_changed_tags = None, gd_previous_tags = None\<rparr>"

definition add :: "int \<Rightarrow> hdict \<Rightarrow> entity_graph \<Rightarrow> (graph_error, string \<times> entity_graph) res" where
  "add now e g =
     rbind (extract_ref_val e) (\<lambda>rv.
     if map_of (entities g) rv \<noteq> None then Inl (Err (DuplicateRef rv))
     else
     rbind (ok_or (Err RevisionExhausted) (checked_add_u64 (version g) 1)) (\<lambda>revision.
     let log_bytes = diff_bytes rv [e] (changelog_byte_capacity g) in
     rbind (alloc_id g) (\<lambda>(eid, g).
     let g = g\<lparr>id_map := AList.update rv eid (id_map g),
               reverse_id := AList.update eid rv (reverse_id g)\<rparr> in
     rbind (expect (index_tags eid e g)) (\<lambda>g.
     let g = (index_refs eid e g)\<lparr>version := revision\<rparr>;
         g = g\<lparr>entities := bt_insert rv e (entities g)\<rparr> in
     rbind (expect (commit_diff now (map_option (add_diff revision rv e) log_bytes) g)) (\<lambda>g.
     Inr (rv, resize_cache g))))))"

definition graph_get :: "entity_graph \<Rightarrow> string \<Rightarrow> hdict option" where
  "graph_get g rv = map_of (entities g) rv"

text \<open>The previous values of the tags a patch names.\<close>

fun previous_values :: "hdict \<Rightarrow> (string \<times> kind) list \<Rightarrow> hdict \<Rightarrow> hdict" where
  "previous_values old [] prev = prev"
| "previous_values old ((name, _) # ts) prev =
     previous_values old ts
       (case dict_get old name of Some v \<Rightarrow> dict_set name v prev | None \<Rightarrow> prev)"

definition update_diff :: "nat \<Rightarrow> string \<Rightarrow> hdict \<Rightarrow> hdict \<Rightarrow> nat \<Rightarrow> graph_diff" where
  "update_diff revision rv old changes bytes =
     \<lparr>gd_version = revision, gd_span = singleton revision, gd_retained_bytes = bytes,
      gd_timestamp = 0, gd_op = DiffUpdate, gd_ref_val = rv, gd_old = None, gd_new = None,
      gd_changed_tags = Some changes,
      gd_previous_tags = Some (previous_values old (tags changes) dict_new)\<rparr>"

definition update :: "int \<Rightarrow> string \<Rightarrow> hdict \<Rightarrow> entity_graph \<Rightarrow> (graph_error, entity_graph) res" where
  "update now rv changes g =
     rbind (ok_or (Err (NotFound rv)) (map_of (id_map g) rv)) (\<lambda>eid.
     if (case dict_get changes ''id'' of
           None \<Rightarrow> False
         | Some (KRef r) \<Rightarrow> ref_val r \<noteq> rv
         | Some _ \<Rightarrow> True)
     then Inl (Err ImmutableId)
     else if dict_is_empty changes then Inr g
     else
     rbind (ok_or (Err RevisionExhausted) (checked_add_u64 (version g) 1)) (\<lambda>revision.
     rbind (expect (map_of (entities g) rv)) (\<lambda>old.
     let log_bytes = patch_diff_bytes rv old changes (changelog_byte_capacity g);
         g = g\<lparr>entities := AList.delete rv (entities g)\<rparr> in
     rbind (expect (remove_indexing eid old g)) (\<lambda>g.
     let e = dict_merge old changes in
     rbind (expect (index_tags eid e g)) (\<lambda>g.
     let g = (index_refs eid e g)\<lparr>version := revision\<rparr>;
         g = g\<lparr>entities := bt_insert rv e (entities g)\<rparr> in
     expect (commit_diff now (map_option (update_diff revision rv old changes) log_bytes) g))))))"

definition remove_diff :: "nat \<Rightarrow> string \<Rightarrow> hdict \<Rightarrow> nat \<Rightarrow> graph_diff" where
  "remove_diff revision rv e bytes =
     \<lparr>gd_version = revision, gd_span = singleton revision, gd_retained_bytes = bytes,
      gd_timestamp = 0, gd_op = DiffRemove, gd_ref_val = rv, gd_old = Some e, gd_new = None,
      gd_changed_tags = None, gd_previous_tags = None\<rparr>"

definition remove :: "int \<Rightarrow> string \<Rightarrow> entity_graph \<Rightarrow> (graph_error, hdict \<times> entity_graph) res" where
  "remove now rv g =
     rbind (ok_or (Err (NotFound rv)) (map_of (id_map g) rv)) (\<lambda>eid.
     rbind (ok_or (Err RevisionExhausted) (checked_add_u64 (version g) 1)) (\<lambda>revision.
     rbind (expect (map_of (entities g) rv)) (\<lambda>e.
     let log_bytes = diff_bytes rv [e] (changelog_byte_capacity g);
         g = g\<lparr>id_map := AList.delete rv (id_map g),
               reverse_id := AList.delete eid (reverse_id g),
               entities := AList.delete rv (entities g)\<rparr> in
     rbind (expect (remove_indexing eid e g)) (\<lambda>g.
     let g = g\<lparr>free_ids := free_ids g @ [eid], version := revision\<rparr> in
     rbind (expect (commit_diff now (map_option (remove_diff revision rv e) log_bytes) g)) (\<lambda>g.
     Inr (e, g))))))"

section \<open>Value indexes\<close>

fun backfill :: "string \<Rightarrow> (string \<times> nat) list \<Rightarrow> (string \<times> hdict) list \<Rightarrow> value_index \<Rightarrow> value_index option" where
  "backfill field ids [] v = Some v"
| "backfill field ids ((rv, e) # es) v =
     (case dict_get e field of
        None \<Rightarrow> backfill field ids es v
      | Some value \<Rightarrow>
          (case map_of ids rv of
             None \<Rightarrow> None
           | Some eid \<Rightarrow> backfill field ids es (vidx_add eid field value v)))"

definition index_field :: "string \<Rightarrow> entity_graph \<Rightarrow> entity_graph option" where
  "index_field field g =
     (if has_index (g_values g) field then Some g
      else
        Option.bind (checked_add_u64 (index_generation g) 1) (\<lambda>gen.
        Option.bind (backfill field (id_map g) (entities g) (vidx_index_field field (g_values g)))
          (\<lambda>v. Some (g\<lparr>index_generation := gen, g_values := v\<rparr>))))"

fun rebuild_values :: "(string \<times> nat) list \<Rightarrow> (string \<times> hdict) list \<Rightarrow> value_index \<Rightarrow> value_index" where
  "rebuild_values ids [] v = v"
| "rebuild_values ids ((rv, e) # es) v =
     rebuild_values ids es
       (case map_of ids rv of Some eid \<Rightarrow> vidx_add_tags eid (tags e) v | None \<Rightarrow> v)"

definition rebuild_value_index :: "entity_graph \<Rightarrow> entity_graph" where
  "rebuild_value_index g =
     g\<lparr>g_values := rebuild_values (id_map g) (entities g) (vidx_clear (g_values g))\<rparr>"

section \<open>Namespace and catalog\<close>

definition set_namespace :: "nat \<Rightarrow> nat \<Rightarrow> namespace arc \<Rightarrow> entity_graph \<Rightarrow> entity_graph option" where
  "set_namespace addr addr' ns g =
     Option.bind (checked_add_u64 (catalog_generation g) 1) (\<lambda>gen.
       let g = g\<lparr>catalog_generation := gen\<rparr> in
       (case activated g of
          Some current \<Rightarrow>
            (let rebased = rebase addr (arc_val current) (arc_val ns)
             in Some (g\<lparr>g_namespace := Some (cat_namespace rebased),
                         activated := Some (Arc addr' rebased),
                         g_query_cache := qc_clear (g_query_cache g)\<rparr>))
        | None \<Rightarrow>
            Some (g\<lparr>g_namespace := Some ns, g_query_cache := qc_clear (g_query_cache g)\<rparr>)))"

datatype catalog_changed = CatalogChanged

definition publish_catalog ::
  "activated_catalog arc \<Rightarrow> entity_graph \<Rightarrow> (catalog_changed, nat \<times> entity_graph) res" where
  "publish_catalog next g =
     rbind (ok_or (Err CatalogChanged) (checked_add_u64 (catalog_generation g) 1)) (\<lambda>gen.
       Inr (gen, g\<lparr>g_namespace := Some (cat_namespace (arc_val next)), activated := Some next,
                   catalog_generation := gen, g_query_cache := qc_clear (g_query_cache g)\<rparr>))"

definition compare_initialize_catalog ::
  "graph_state \<Rightarrow> namespace arc option \<Rightarrow> activated_catalog arc \<Rightarrow> entity_graph \<Rightarrow>
   (catalog_changed, nat \<times> entity_graph) res" where
  "compare_initialize_catalog expected base catalog g =
     (let same_base = (case (g_namespace g, base) of
            (None, None) \<Rightarrow> True
          | (Some current, Some b) \<Rightarrow> ptr_eq current b
          | _ \<Rightarrow> False)
      in if activated g \<noteq> None \<or> incarnation g \<noteq> st_incarnation expected \<or>
            catalog_generation g \<noteq> st_catalog_generation expected \<or> \<not> same_base
         then Inl (Err CatalogChanged) else publish_catalog catalog g)"

definition compare_activate_catalog ::
  "graph_state \<Rightarrow> activated_catalog arc \<Rightarrow> activated_catalog arc \<Rightarrow> entity_graph \<Rightarrow>
   (catalog_changed, nat \<times> entity_graph) res" where
  "compare_activate_catalog expected old next g =
     (if graph_state g \<noteq> expected \<or> ptr_eq old next \<or>
         \<not> (case activated g of Some current \<Rightarrow> ptr_eq current old | None \<Rightarrow> False)
      then Inl (Err CatalogChanged) else publish_catalog next g)"

definition compare_set_namespace ::
  "nat \<Rightarrow> nat \<Rightarrow> nat \<Rightarrow> namespace arc \<Rightarrow> entity_graph \<Rightarrow> (catalog_changed, nat \<times> entity_graph) res" where
  "compare_set_namespace addr addr' expected ns g =
     (if catalog_generation g \<noteq> expected then Inl (Err CatalogChanged)
      else rbind (expect (set_namespace addr addr' ns g)) (\<lambda>g. Inr (catalog_generation g, g)))"

section \<open>Reading the store\<close>

definition entities_after :: "entity_graph \<Rightarrow> string option \<Rightarrow> (string \<times> hdict) list" where
  "entities_after g after =
     filter (\<lambda>(rv, _). case after of None \<Rightarrow> True | Some a \<Rightarrow> a < rv) (entities g)"

definition incoming_edges :: "entity_graph \<Rightarrow> string \<Rightarrow> (string \<times> string) list" where
  "incoming_edges g target =
     List.map_filter (\<lambda>(tag, n). map_option (\<lambda>source. (tag, source)) (map_of (reverse_id g) n))
       (vec_at (adj_reverse (adjacency g)) target)"

definition graph_len :: "entity_graph \<Rightarrow> nat" where
  "graph_len g = length (entities g)"

definition graph_is_empty :: "entity_graph \<Rightarrow> bool" where
  "graph_is_empty g \<longleftrightarrow> entities g = []"

definition graph_contains :: "entity_graph \<Rightarrow> string \<Rightarrow> bool" where
  "graph_contains g rv \<longleftrightarrow> map_of (entities g) rv \<noteq> None"

definition graph_all :: "entity_graph \<Rightarrow> hdict list" where
  "graph_all g = map snd (entities g)"

end
