(* ===== verification/Entity_Graph_Inv.thy ===== *)
theory Entity_Graph_Inv
  imports Entity_Graph
begin

text \<open>
  The representation invariant of the entity graph and its preservation.

  \<open>graph_inv\<close> ties the redundant parts of the state together: the two directions of the
  numbering are inverse to each other and partition the numbers below \<open>next_id\<close> with the
  free list, every stored entity carries the identifier it is stored under, each secondary index
  records exactly the keys of the numbered entities, and the log holds complete units up to the
  current version.
\<close>

section \<open>The invariant\<close>

definition has_id :: "hdict \<Rightarrow> string \<Rightarrow> bool" where
  "has_id e rv \<longleftrightarrow> (\<exists>r. dict_get e ''id'' = Some (KRef r) \<and> ref_val r = rv)"

definition ids_ok :: "(string \<times> nat) list \<Rightarrow> (nat \<times> string) list \<Rightarrow> nat \<Rightarrow> nat list \<Rightarrow> bool" where
  "ids_ok ids back next free \<longleftrightarrow>
     hm_wf ids \<and> hm_wf back \<and>
     (\<forall>rv n. map_of ids rv = Some n \<longleftrightarrow> map_of back n = Some rv) \<and>
     distinct free \<and> set free \<inter> dom (map_of back) = {} \<and>
     set free \<union> dom (map_of back) = {..<next} \<and> next \<le> Suc U32_MAX"

definition ents_ok :: "(string \<times> hdict) list \<Rightarrow> (string \<times> nat) list \<Rightarrow> bool" where
  "ents_ok es ids \<longleftrightarrow>
     bt_wf es \<and> dom (map_of ids) = dom (map_of es) \<and>
     (\<forall>rv e. map_of es rv = Some e \<longrightarrow> dict_wf e \<and> has_id e rv)"

definition rows_of :: "(nat \<times> string) list \<Rightarrow> (string \<times> hdict) list \<Rightarrow> nat \<Rightarrow> hdict option" where
  "rows_of back es n = Option.bind (map_of back n) (map_of es)"

abbreviation rows :: "entity_graph \<Rightarrow> nat \<Rightarrow> hdict option" where
  "rows g \<equiv> rows_of (reverse_id g) (entities g)"

definition indexes_ok ::
  "tag_index \<Rightarrow> ref_adjacency \<Rightarrow> value_index \<Rightarrow> (nat \<Rightarrow> hdict option) \<Rightarrow> bool" where
  "indexes_ok t a v r \<longleftrightarrow>
     index_exact tag_inv tag_entries tag_keys t r \<and>
     index_exact adj_inv adj_entries adj_keys a r \<and>
     index_exact vidx_inv vidx_entries vidx_keys v r"

definition MAX_AST_CACHE_SIZE :: nat where
  "MAX_AST_CACHE_SIZE = 10000"

definition graph_inv :: "entity_graph \<Rightarrow> bool" where
  "graph_inv g \<longleftrightarrow>
     feed_inv g \<and>
     ids_ok (id_map g) (reverse_id g) (next_id g) (free_ids g) \<and>
     ents_ok (entities g) (id_map g) \<and>
     indexes_ok (g_tags g) (adjacency g) (g_values g) (rows g) \<and>
     qc_inv (version g) (g_query_cache g) \<and>
     hm_wf (ast_cache g) \<and> length (ast_cache g) \<le> MAX_AST_CACHE_SIZE"

section \<open>Numbering\<close>

lemma ids_ok_bound: "ids_ok ids back next free \<Longrightarrow> map_of back n = Some rv \<Longrightarrow> n \<le> U32_MAX"
proof -
  assume "ids_ok ids back next free" "map_of back n = Some rv"
  then have "n \<in> {..<next}" "next \<le> Suc U32_MAX"
    unfolding ids_ok_def by blast+
  then show ?thesis by simp
qed

lemma ids_ok_inverse:
  "ids_ok ids back next free \<Longrightarrow> map_of ids rv = Some n \<longleftrightarrow> map_of back n = Some rv"
  by (simp add: ids_ok_def)

lemma ids_ok_unique:
  assumes "ids_ok ids back next free" and "map_of ids rv = Some n"
  shows "map_of back m = Some rv \<longleftrightarrow> m = n"
  using ids_ok_inverse [OF assms(1), of rv m] assms(2) by auto

lemma ids_ok_insert:
  assumes "ids_ok ids back next free" and "map_of ids rv = None" and "map_of back n = None"
    and "distinct free'" and "insert n (set free' \<union> dom (map_of back)) = {..<next'}"
    and "set free' \<subseteq> set free" and "n \<notin> set free'" and "next' \<le> Suc U32_MAX"
  shows "ids_ok (AList.update rv n ids) (AList.update n rv back) next' free'"
proof -
  have inv: "\<And>rv' m. map_of ids rv' = Some m \<longleftrightarrow> map_of back m = Some rv'"
    using assms(1) by (simp add: ids_ok_def)
  have "\<And>m. map_of back m \<noteq> Some rv"
    using inv [of rv] assms(2) by simp
  with inv assms(2,3) have "\<forall>rv' m. ((map_of ids)(rv \<mapsto> n)) rv' = Some m \<longleftrightarrow>
      ((map_of back)(n \<mapsto> rv)) m = Some rv'"
    by auto
  with assms show ?thesis
    unfolding ids_ok_def by (auto simp: hm_lookup)
qed

lemma ids_ok_delete:
  assumes "ids_ok ids back next free" and "map_of ids rv = Some n"
  shows "ids_ok (AList.delete rv ids) (AList.delete n back) next (free @ [n])"
proof -
  have inv: "\<And>rv' m. map_of ids rv' = Some m \<longleftrightarrow> map_of back m = Some rv'"
    using assms(1) by (simp add: ids_ok_def)
  with assms(2) have n: "map_of back n = Some rv" by simp
  have "m \<noteq> n \<Longrightarrow> map_of back m \<noteq> Some rv" for m
    using ids_ok_unique [OF assms] by simp
  with inv n have "\<forall>rv' m. ((map_of ids)(rv := None)) rv' = Some m \<longleftrightarrow>
      ((map_of back)(n := None)) m = Some rv'"
    by auto
  moreover have "n \<notin> set free" "n < next"
    using assms(1) n unfolding ids_ok_def by blast+
  ultimately show ?thesis
    using assms(1) unfolding ids_ok_def by (auto simp: hm_lookup)
qed

lemma alloc_id_ok:
  assumes "ids_ok ids (reverse_id g) (next_id g) (free_ids g)"
  shows "alloc_id g = Inl (Err IdExhausted) \<and> free_ids g = [] \<and> next_id g = Suc U32_MAX \<or>
    (\<exists>eid next free. alloc_id g = Inr (eid, g\<lparr>next_id := next, free_ids := free\<rparr>) \<and>
       map_of (reverse_id g) eid = None \<and> eid \<le> U32_MAX \<and>
       (\<forall>rv. map_of ids rv = None \<longrightarrow>
          ids_ok (AList.update rv eid ids) (AList.update eid rv (reverse_id g)) next free))"
proof (cases "free_ids g = []")
  case True
  then have all: "dom (map_of (reverse_id g)) = {..<next_id g}" and le: "next_id g \<le> Suc U32_MAX"
    using assms by (simp_all add: ids_ok_def)
  show ?thesis
  proof (cases "next_id g = Suc U32_MAX")
    case max: True
    with True show ?thesis by (simp add: alloc_id_def MAX_ENTITY_ID_def)
  next
    case False
    with le have lt: "next_id g \<le> U32_MAX" by simp
    have "map_of (reverse_id g) (next_id g) = None"
      using all by auto
    moreover have "alloc_id g = Inr (next_id g, g\<lparr>next_id := Suc (next_id g), free_ids := []\<rparr>)"
      using lt True
      by (simp add: alloc_id_def MAX_ENTITY_ID_def checked_add_usize_def USIZE_MAX_def U32_MAX_def)
    moreover have "ids_ok (AList.update rv (next_id g) ids) (AList.update (next_id g) rv (reverse_id g))
        (Suc (next_id g)) []" if "map_of ids rv = None" for rv
      using lt True calculation(1) that
      by (intro ids_ok_insert [OF assms]) (auto simp: all lessThan_Suc)
    ultimately show ?thesis using lt by blast
  qed
next
  case False
  define eid where "eid = last (free_ids g)"
  have split: "free_ids g = butlast (free_ids g) @ [eid]"
    using False by (simp add: eid_def)
  have ok: "distinct (free_ids g)" "set (free_ids g) \<inter> dom (map_of (reverse_id g)) = {}"
      "set (free_ids g) \<union> dom (map_of (reverse_id g)) = {..<next_id g}" "next_id g \<le> Suc U32_MAX"
    using assms by (simp_all add: ids_ok_def)
  have eid: "eid \<in> set (free_ids g)" using False by (simp add: eid_def)
  then have none: "map_of (reverse_id g) eid = None" and "eid < next_id g"
    using ok(2,3) by blast+
  moreover have "alloc_id g = Inr (eid, g\<lparr>next_id := next_id g, free_ids := butlast (free_ids g)\<rparr>)"
    using False by (simp add: alloc_id_def eid_def)
  moreover have "ids_ok (AList.update rv eid ids) (AList.update eid rv (reverse_id g))
      (next_id g) (butlast (free_ids g))" if "map_of ids rv = None" for rv
  proof (rule ids_ok_insert [OF assms that none])
    show "distinct (butlast (free_ids g))" "eid \<notin> set (butlast (free_ids g))"
      using ok(1) split by (metis distinct_butlast, metis distinct_append disjoint_insert(1) list.simps(15))
    show "insert eid (set (butlast (free_ids g)) \<union> dom (map_of (reverse_id g))) = {..<next_id g}"
      using ok(3) arg_cong [OF split, of set] by auto
    show "set (butlast (free_ids g)) \<subseteq> set (free_ids g)" by (auto dest: in_set_butlastD)
  qed (rule ok(4))
  ultimately show ?thesis using ok(4) by (intro disjI2) force
qed

section \<open>Indexes\<close>

lemma indexes_ok_add:
  assumes "indexes_ok t a v r" and "r n = None" and "dict_wf e" and "n \<le> U32_MAX"
  shows "\<exists>t'. tag_add n (tag_names e) t = Some t' \<and>
    indexes_ok t' (index_refs_tags n (tags e) a) (vidx_add_tags n (tags e) v) (r(n \<mapsto> e))"
  using tagx.exact_ins [of t r n e] adjx.exact_ins [of a r n e] vidx.exact_ins [of v r n e] assms
  by (auto simp: indexes_ok_def tag_ins_def adj_ins_def vidx_ins_def)

lemma indexes_ok_remove:
  assumes "indexes_ok t a v r" and "r n = Some e" and "dict_wf e" and "n \<le> U32_MAX"
  shows "\<exists>t'. tag_remove n (tag_names e) t = Some t' \<and>
    indexes_ok t' (adj_remove n a) (vidx_remove_tags n (tags e) v) (r(n := None))"
  using tagx.exact_del [of t r n e] adjx.exact_del [of a r n e] vidx.exact_del [of v r n e] assms
  by (auto simp: indexes_ok_def tag_del_def adj_del_def vidx_del_def)

lemma rows_insert:
  assumes "ids_ok ids back next free" and "map_of ids rv = None"
  shows "rows_of (AList.update n rv back) (bt_insert rv e es) = (rows_of back es)(n \<mapsto> e)"
proof (rule ext)
  fix m
  have "map_of back m \<noteq> Some rv"
    using ids_ok_inverse [OF assms(1), of rv m] assms(2) by simp
  then show "rows_of (AList.update n rv back) (bt_insert rv e es) m = ((rows_of back es)(n \<mapsto> e)) m"
    by (cases "map_of back m") (auto simp: rows_of_def)
qed

lemma rows_replace:
  assumes "ids_ok ids back next free" and "map_of ids rv = Some n"
  shows "rows_of back (bt_insert rv e es) = (rows_of back es)(n \<mapsto> e)"
proof (rule ext)
  fix m
  have inv: "map_of back m = Some rv \<longleftrightarrow> m = n"
    by (rule ids_ok_unique [OF assms])
  then show "rows_of back (bt_insert rv e es) m = ((rows_of back es)(n \<mapsto> e)) m"
    by (cases "map_of back m") (auto simp: rows_of_def)
qed

lemma rows_delete:
  assumes "ids_ok ids back next free" and "map_of ids rv = Some n"
  shows "rows_of (AList.delete n back) (AList.delete rv es) = (rows_of back es)(n := None)"
proof (rule ext)
  fix m
  have inv: "map_of back m = Some rv \<longleftrightarrow> m = n"
    by (rule ids_ok_unique [OF assms])
  then show "rows_of (AList.delete n back) (AList.delete rv es) m = ((rows_of back es)(n := None)) m"
    by (cases "map_of back m") (auto simp: rows_of_def)
qed

section \<open>Committing\<close>

text \<open>What a commit leaves in the log: the new diff last, after a suffix of the old log; or
  nothing, when the diff was too large to retain.\<close>

definition logged :: "int \<Rightarrow> graph_diff option \<Rightarrow> graph_diff list \<Rightarrow> graph_diff list \<Rightarrow> bool" where
  "logged now d old new \<longleftrightarrow>
     (case d of
        None \<Rightarrow> new = []
      | Some x \<Rightarrow> suffix [x\<lparr>gd_timestamp := now\<rparr>] new \<and> suffix new (old @ [x\<lparr>gd_timestamp := now\<rparr>]))"

lemma commit_diff_ok:
  fixes g :: entity_graph
  assumes "feed_inv (g\<lparr>version := h\<rparr>)" and "version g = Suc h" and "Suc h \<le> U64_MAX"
    and "\<And>x. d = Some x \<Longrightarrow> gd_version x = Suc h \<and> gd_span x = singleton (Suc h) \<and>
      gd_retained_bytes x \<le> changelog_byte_capacity g"
  shows "\<exists>log b low.
    commit_diff now d g = Some (g\<lparr>changelog := log, changelog_bytes := b, floor_version := low\<rparr>) \<and>
    feed_inv (g\<lparr>changelog := log, changelog_bytes := b, floor_version := low\<rparr>) \<and>
    logged now d (changelog g) log"
proof (cases d)
  case None
  with assms(1-3) show ?thesis
    by (auto simp: commit_diff_def native_gap_def feed_inv_def logged_def)
next
  case (Some x)
  have f: "retained (floor_version g) (changelog g) h" "changelog_bytes g = bytes_of (changelog g)"
      "changelog_bytes g \<le> changelog_byte_capacity g" "0 < changelog_capacity g"
      "2 * changelog_byte_capacity g \<le> USIZE_MAX"
    using assms(1) by (simp_all add: feed_inv_def)
  have x: "unit_ok h [x] (version g)" "bytes_of [x] \<le> changelog_byte_capacity g"
    using assms(2) assms(4) [OF Some] by (simp_all add: unit_ok_singleton)
  from append_committed_unit_ok [OF f(1) x(1) f(2,3) x(2) f(5), of now]
  obtain log low where ap: "append_committed_unit now [x] g =
      Some (g\<lparr>changelog := log, changelog_bytes := bytes_of log, floor_version := low\<rparr>)"
    and log: "retained low log (version g)" "suffix log (changelog g @ stamp now [x])"
      "length log \<le> changelog_capacity g" "bytes_of log \<le> changelog_byte_capacity g"
    and longest: "\<forall>k suf. retained k suf (version g) \<and> suffix suf (changelog g @ stamp now [x]) \<and>
       length suf \<le> changelog_capacity g \<and> bytes_of suf \<le> changelog_byte_capacity g \<longrightarrow>
       suffix suf log"
    by blast
  have "suffix (stamp now [x]) log"
    using suffix_stamp_unit [OF x(1) longest] f(4) x(2) by simp
  with ap log f assms(2,3) Some show ?thesis
    by (intro exI [of _ log] exI [of _ "bytes_of log"] exI [of _ low])
      (simp add: commit_diff_def feed_inv_def logged_def)
qed

section \<open>The mutations\<close>

lemma bt_ext:
  assumes "bt_wf m" and "bt_wf m'" and "map_of m = map_of m'"
  shows "m = m'"
proof (rule map_sorted_distinct_set_unique [where f = fst])
  show "set m = set m'"
    using bt_in_set_iff [OF assms(1)] bt_in_set_iff [OF assms(2)] assms(3) by auto
  then show "inj_on fst (set m \<union> set m')"
    using bt_wf_distinct [OF assms(1)] by (simp add: distinct_map)
qed (use assms(1,2) in \<open>simp_all add: strict_sorted_iff\<close>)

lemma bt_insert_delete: "bt_wf m \<Longrightarrow> bt_insert k v (AList.delete k m) = bt_insert k v m"
  by (rule bt_ext) simp_all


text \<open>What a mutation of the entities does not touch.\<close>

definition same_config :: "entity_graph \<Rightarrow> entity_graph \<Rightarrow> bool" where
  "same_config g g' \<longleftrightarrow>
     incarnation g' = incarnation g \<and> catalog_generation g' = catalog_generation g \<and>
     changelog_capacity g' = changelog_capacity g \<and>
     changelog_byte_capacity g' = changelog_byte_capacity g \<and>
     g_namespace g' = g_namespace g \<and> activated g' = activated g \<and>
     qc_entries (g_query_cache g') = qc_entries (g_query_cache g) \<and>
     ast_cache g' = ast_cache g \<and> index_generation g' = index_generation g \<and>
     has_index (g_values g') = has_index (g_values g)"

lemma has_index_add_tags [simp]: "has_index (vidx_add_tags n ts v) = has_index v"
  by (induction n ts v rule: vidx_add_tags.induct) simp_all

lemma has_index_remove_tags [simp]: "has_index (vidx_remove_tags n ts v) = has_index v"
  by (induction n ts v rule: vidx_remove_tags.induct) simp_all

lemma ents_ok_insert:
  assumes "ents_ok es ids" and "dict_wf e" and "has_id e rv"
    and "dom (map_of ids') = insert rv (dom (map_of ids))"
  shows "ents_ok (bt_insert rv e es) ids'"
  using assms by (auto simp: ents_ok_def)

lemma ents_ok_delete: "ents_ok es ids \<Longrightarrow> ents_ok (AList.delete rv es) (AList.delete rv ids)"
  by (auto simp: ents_ok_def split: if_splits)

lemma ents_ok_get: "ents_ok es ids \<Longrightarrow> map_of es rv = Some e \<Longrightarrow> dict_wf e \<and> has_id e rv"
  by (simp add: ents_ok_def)

lemma ents_ok_None: "ents_ok es ids \<Longrightarrow> map_of ids rv = None \<longleftrightarrow> map_of es rv = None"
  unfolding ents_ok_def by (metis domIff)

lemma feed_inv_step: "feed_inv g \<Longrightarrow> version g < U64_MAX \<Longrightarrow> checked_add_u64 (version g) 1 = Some (Suc (version g))"
  by (simp add: checked_add_u64_def)

lemma qc_inv_resize:
  assumes "qc_inv now c"
  shows "qc_inv now (if qc_capacity c < query_cache_capacity_for n
      then c\<lparr>qc_capacity := query_cache_capacity_for n\<rparr> else c)"
  using assms qc_inv_grow [of now c "query_cache_capacity_for n"] qc_capacity_for_bounds [of n] by simp

lemma resize_cache_fields [simp]:
  "feed_inv (resize_cache g) = feed_inv g"
  "entities (resize_cache g) = entities g" "id_map (resize_cache g) = id_map g"
  "reverse_id (resize_cache g) = reverse_id g" "next_id (resize_cache g) = next_id g"
  "free_ids (resize_cache g) = free_ids g" "g_tags (resize_cache g) = g_tags g"
  "adjacency (resize_cache g) = adjacency g" "g_values (resize_cache g) = g_values g"
  "ast_cache (resize_cache g) = ast_cache g" "version (resize_cache g) = version g"
  "changelog (resize_cache g) = changelog g" "same_config h (resize_cache g) = same_config h g"
  by (simp_all add: resize_cache_def Let_def feed_inv_def same_config_def)

lemma qc_inv_resize_cache [simp]:
  "qc_inv now (g_query_cache g) \<Longrightarrow> qc_inv now (g_query_cache (resize_cache g))"
  using qc_inv_resize [of now "g_query_cache g" "length (entities g)"]
  by (simp add: resize_cache_def Let_def split: if_splits)

lemma add_ok:
  assumes inv: "graph_inv g" and wf: "dict_wf e" and "id": "dict_get e ''id'' = Some (KRef r)"
    and fresh: "map_of (entities g) (ref_val r) = None" and ver: "version g < U64_MAX"
    and room: "free_ids g \<noteq> [] \<or> next_id g \<le> U32_MAX"
  shows "\<exists>g'. add now e g = Inr (ref_val r, g') \<and> graph_inv g' \<and>
    entities g' = bt_insert (ref_val r) e (entities g) \<and> version g' = Suc (version g) \<and>
    logged now (map_option (add_diff (Suc (version g)) (ref_val r) e)
      (diff_bytes (ref_val r) [e] (changelog_byte_capacity g))) (changelog g) (changelog g') \<and>
    same_config g g'"
proof -
  define rv where "rv = ref_val r"
  define d where "d = map_option (add_diff (Suc (version g)) rv e)
    (diff_bytes rv [e] (changelog_byte_capacity g))"
  have parts: "feed_inv g" "ids_ok (id_map g) (reverse_id g) (next_id g) (free_ids g)"
      "ents_ok (entities g) (id_map g)" "indexes_ok (g_tags g) (adjacency g) (g_values g) (rows g)"
      "qc_inv (version g) (g_query_cache g)"
      "hm_wf (ast_cache g)" "length (ast_cache g) \<le> MAX_AST_CACHE_SIZE"
    using inv by (simp_all add: graph_inv_def)
  have new: "map_of (id_map g) rv = None"
    using ents_ok_None [OF parts(3)] fresh by (simp add: rv_def)
  obtain eid nx fr where alloc: "alloc_id g = Inr (eid, g\<lparr>next_id := nx, free_ids := fr\<rparr>)"
    and eid: "map_of (reverse_id g) eid = None" "eid \<le> U32_MAX"
    and ids: "ids_ok (AList.update rv eid (id_map g)) (AList.update eid rv (reverse_id g)) nx fr"
    using alloc_id_ok [OF parts(2)] room new by auto
  have "rows g eid = None" by (simp add: rows_of_def eid)
  from indexes_ok_add [OF parts(4) this wf eid(2)] obtain t where
    t: "tag_add eid (tag_names e) (g_tags g) = Some t"
      "indexes_ok t (index_refs_tags eid (tags e) (adjacency g))
         (vidx_add_tags eid (tags e) (g_values g)) ((rows g)(eid \<mapsto> e))"
    by blast
  define g1 where "g1 = g\<lparr>next_id := nx, free_ids := fr, id_map := AList.update rv eid (id_map g),
    reverse_id := AList.update eid rv (reverse_id g), g_tags := t,
    g_values := vidx_add_tags eid (tags e) (g_values g),
    adjacency := index_refs_tags eid (tags e) (adjacency g), version := Suc (version g),
    entities := bt_insert rv e (entities g)\<rparr>"
  have "feed_inv (g1\<lparr>version := version g\<rparr>)" "version g1 = Suc (version g)" "Suc (version g) \<le> U64_MAX"
    using parts(1) ver by (simp_all add: g1_def feed_inv_def)
  moreover have "gd_version x = Suc (version g) \<and> gd_span x = singleton (Suc (version g)) \<and>
      gd_retained_bytes x \<le> changelog_byte_capacity g1" if "d = Some x" for x
    using that diff_bytes_le by (auto simp: d_def add_diff_def g1_def)
  ultimately obtain log b low where commit:
      "commit_diff now d g1 = Some (g1\<lparr>changelog := log, changelog_bytes := b, floor_version := low\<rparr>)"
      "feed_inv (g1\<lparr>changelog := log, changelog_bytes := b, floor_version := low\<rparr>)"
      "logged now d (changelog g1) log"
    using commit_diff_ok [where g = g1 and h = "version g" and d = d and now = now] by blast
  define g' where "g' = resize_cache (g1\<lparr>changelog := log, changelog_bytes := b, floor_version := low\<rparr>)"
  have "add now e g = Inr (rv, g')"
    using "id" fresh ver alloc t(1) commit(1)
    by (simp add: add_def extract_ref_val_def rv_def [symmetric] checked_add_u64_def index_tags_def
        index_refs_def d_def [symmetric] g'_def g1_def)
  moreover have "ents_ok (bt_insert rv e (entities g)) (AList.update rv eid (id_map g))"
    using parts(3) wf "id" by (intro ents_ok_insert) (auto simp: has_id_def rv_def)
  moreover have "rows g1 = (rows g)(eid \<mapsto> e)"
    using rows_insert [OF parts(2) new] by (simp add: g1_def)
  ultimately have "add now e g = Inr (rv, g') \<and> graph_inv g'"
    using ids t(2) parts commit(2) qc_inv_later [OF parts(5), of "Suc (version g)"]
    by (simp add: graph_inv_def g'_def g1_def)
  moreover have "same_config g (g1\<lparr>changelog := log, changelog_bytes := b, floor_version := low\<rparr>)"
    by (simp add: same_config_def g1_def)
  then have "same_config g g'" by (simp add: g'_def)
  moreover have "entities g' = bt_insert rv e (entities g)" "version g' = Suc (version g)"
      "changelog g' = log" "changelog g1 = changelog g"
    by (simp_all add: g'_def g1_def)
  ultimately show ?thesis
    using commit(3) by (auto simp: rv_def [symmetric] d_def [symmetric])
qed

lemma update_ok:
  assumes inv: "graph_inv g" and wf: "dict_wf changes" and get: "map_of (entities g) rv = Some old"
    and same_id: "dict_get changes ''id'' = None \<or> has_id changes rv"
    and nonempty: "\<not> dict_is_empty changes" and ver: "version g < U64_MAX"
  shows "\<exists>g'. update now rv changes g = Inr g' \<and> graph_inv g' \<and>
    entities g' = bt_insert rv (dict_merge old changes) (entities g) \<and>
    version g' = Suc (version g) \<and>
    logged now (map_option (update_diff (Suc (version g)) rv old changes)
      (patch_diff_bytes rv old changes (changelog_byte_capacity g))) (changelog g) (changelog g') \<and>
    same_config g g'"
proof -
  define e where "e = dict_merge old changes"
  define d where "d = map_option (update_diff (Suc (version g)) rv old changes)
    (patch_diff_bytes rv old changes (changelog_byte_capacity g))"
  have parts: "feed_inv g" "ids_ok (id_map g) (reverse_id g) (next_id g) (free_ids g)"
      "ents_ok (entities g) (id_map g)" "indexes_ok (g_tags g) (adjacency g) (g_values g) (rows g)"
      "qc_inv (version g) (g_query_cache g)"
      "hm_wf (ast_cache g)" "length (ast_cache g) \<le> MAX_AST_CACHE_SIZE"
    using inv by (simp_all add: graph_inv_def)
  have old: "dict_wf old" "has_id old rv"
    using ents_ok_get [OF parts(3) get] by simp_all
  obtain eid where eid: "map_of (id_map g) rv = Some eid"
    using ents_ok_None [OF parts(3), of rv] get by fastforce
  then have rev: "map_of (reverse_id g) eid = Some rv"
    using ids_ok_inverse [OF parts(2)] by simp
  note eid_le = ids_ok_bound [OF parts(2) rev]
  have row: "rows g eid = Some old" by (simp add: rows_of_def rev get)
  have e: "dict_wf e" "has_id e rv"
    using old same_id dict_get_merge [OF wf, of old "''id''"]
    by (auto simp: e_def has_id_def patched_def)
  from indexes_ok_remove [OF parts(4) row old(1) eid_le] obtain t where
    t: "tag_remove eid (tag_names old) (g_tags g) = Some t"
      "indexes_ok t (adj_remove eid (adjacency g)) (vidx_remove_tags eid (tags old) (g_values g))
         ((rows g)(eid := None))"
    by blast
  from indexes_ok_add [OF t(2) _ e(1) eid_le] obtain t' where
    t': "tag_add eid (tag_names e) t = Some t'"
      "indexes_ok t' (index_refs_tags eid (tags e) (adj_remove eid (adjacency g)))
         (vidx_add_tags eid (tags e) (vidx_remove_tags eid (tags old) (g_values g)))
         ((rows g)(eid \<mapsto> e))"
    by auto
  define g1 where "g1 = g\<lparr>g_tags := t',
    g_values := vidx_add_tags eid (tags e) (vidx_remove_tags eid (tags old) (g_values g)),
    adjacency := index_refs_tags eid (tags e) (adj_remove eid (adjacency g)),
    version := Suc (version g), entities := bt_insert rv e (entities g)\<rparr>"
  have "feed_inv (g1\<lparr>version := version g\<rparr>)" "version g1 = Suc (version g)" "Suc (version g) \<le> U64_MAX"
    using parts(1) ver by (simp_all add: g1_def feed_inv_def)
  moreover have "gd_version x = Suc (version g) \<and> gd_span x = singleton (Suc (version g)) \<and>
      gd_retained_bytes x \<le> changelog_byte_capacity g1" if "d = Some x" for x
    using that patch_diff_bytes_le by (auto simp: d_def update_diff_def g1_def)
  ultimately obtain log b low where commit:
      "commit_diff now d g1 = Some (g1\<lparr>changelog := log, changelog_bytes := b, floor_version := low\<rparr>)"
      "feed_inv (g1\<lparr>changelog := log, changelog_bytes := b, floor_version := low\<rparr>)"
      "logged now d (changelog g1) log"
    using commit_diff_ok [where g = g1 and h = "version g" and d = d and now = now] by blast
  define g' where "g' = g1\<lparr>changelog := log, changelog_bytes := b, floor_version := low\<rparr>"
  have "bt_insert rv e (AList.delete rv (entities g)) = bt_insert rv e (entities g)"
    using parts(3) by (simp add: bt_insert_delete ents_ok_def)
  then have "update now rv changes g = Inr g'"
    using eid get nonempty ver t(1) t'(1) commit(1) same_id
    by (auto simp: update_def checked_add_u64_def remove_indexing_def index_tags_def has_id_def
        index_refs_def e_def [symmetric] d_def [symmetric] g'_def g1_def)
  moreover have "ents_ok (bt_insert rv e (entities g)) (id_map g)"
    using parts(3) e eid by (intro ents_ok_insert) auto
  moreover have "rows g1 = (rows g)(eid \<mapsto> e)"
    using rows_replace [OF parts(2) eid] by (simp add: g1_def)
  ultimately have "update now rv changes g = Inr g' \<and> graph_inv g'"
    using t'(2) parts commit(2) qc_inv_later [OF parts(5), of "Suc (version g)"]
    by (simp add: graph_inv_def g'_def g1_def)
  with commit(3) show ?thesis
    by (intro exI [of _ g'])
      (simp add: e_def [symmetric] d_def [symmetric] g'_def same_config_def g1_def)
qed

lemma remove_ok:
  assumes inv: "graph_inv g" and get: "map_of (entities g) rv = Some e" and ver: "version g < U64_MAX"
  shows "\<exists>g'. remove now rv g = Inr (e, g') \<and> graph_inv g' \<and>
    entities g' = AList.delete rv (entities g) \<and> version g' = Suc (version g) \<and>
    logged now (map_option (remove_diff (Suc (version g)) rv e)
      (diff_bytes rv [e] (changelog_byte_capacity g))) (changelog g) (changelog g') \<and>
    same_config g g'"
proof -
  define d where "d = map_option (remove_diff (Suc (version g)) rv e)
    (diff_bytes rv [e] (changelog_byte_capacity g))"
  have parts: "feed_inv g" "ids_ok (id_map g) (reverse_id g) (next_id g) (free_ids g)"
      "ents_ok (entities g) (id_map g)" "indexes_ok (g_tags g) (adjacency g) (g_values g) (rows g)"
      "qc_inv (version g) (g_query_cache g)"
      "hm_wf (ast_cache g)" "length (ast_cache g) \<le> MAX_AST_CACHE_SIZE"
    using inv by (simp_all add: graph_inv_def)
  have e: "dict_wf e" using ents_ok_get [OF parts(3) get] by simp
  obtain eid where eid: "map_of (id_map g) rv = Some eid"
    using ents_ok_None [OF parts(3), of rv] get by fastforce
  then have rev: "map_of (reverse_id g) eid = Some rv"
    using ids_ok_inverse [OF parts(2)] by simp
  have row: "rows g eid = Some e" by (simp add: rows_of_def rev get)
  from indexes_ok_remove [OF parts(4) row e ids_ok_bound [OF parts(2) rev]] obtain t where
    t: "tag_remove eid (tag_names e) (g_tags g) = Some t"
      "indexes_ok t (adj_remove eid (adjacency g)) (vidx_remove_tags eid (tags e) (g_values g))
         ((rows g)(eid := None))"
    by blast
  define g1 where "g1 = g\<lparr>id_map := AList.delete rv (id_map g),
    reverse_id := AList.delete eid (reverse_id g), entities := AList.delete rv (entities g),
    g_tags := t, adjacency := adj_remove eid (adjacency g),
    g_values := vidx_remove_tags eid (tags e) (g_values g), free_ids := free_ids g @ [eid],
    version := Suc (version g)\<rparr>"
  have "feed_inv (g1\<lparr>version := version g\<rparr>)" "version g1 = Suc (version g)" "Suc (version g) \<le> U64_MAX"
    using parts(1) ver by (simp_all add: g1_def feed_inv_def)
  moreover have "gd_version x = Suc (version g) \<and> gd_span x = singleton (Suc (version g)) \<and>
      gd_retained_bytes x \<le> changelog_byte_capacity g1" if "d = Some x" for x
    using that diff_bytes_le by (auto simp: d_def remove_diff_def g1_def)
  ultimately obtain log b low where commit:
      "commit_diff now d g1 = Some (g1\<lparr>changelog := log, changelog_bytes := b, floor_version := low\<rparr>)"
      "feed_inv (g1\<lparr>changelog := log, changelog_bytes := b, floor_version := low\<rparr>)"
      "logged now d (changelog g1) log"
    using commit_diff_ok [where g = g1 and h = "version g" and d = d and now = now] by blast
  define g' where "g' = g1\<lparr>changelog := log, changelog_bytes := b, floor_version := low\<rparr>"
  have "remove now rv g = Inr (e, g')"
    using eid get ver t(1) commit(1)
    by (simp add: remove_def checked_add_u64_def remove_indexing_def d_def [symmetric] g'_def g1_def)
  moreover have "rows g1 = (rows g)(eid := None)"
    using rows_delete [OF parts(2) eid] by (simp add: g1_def)
  ultimately have "remove now rv g = Inr (e, g') \<and> graph_inv g'"
    using t(2) parts commit(2) qc_inv_later [OF parts(5), of "Suc (version g)"]
      ids_ok_delete [OF parts(2) eid] ents_ok_delete [OF parts(3), of rv]
    by (simp add: graph_inv_def g'_def g1_def)
  with commit(3) show ?thesis
    by (intro exI [of _ g']) (simp add: d_def [symmetric] g'_def same_config_def g1_def)
qed

section \<open>Construction and index maintenance\<close>

lemma vidx_index_field_inv: "vidx_inv v \<Longrightarrow> vidx_inv (vidx_index_field f v)"
  by (auto simp: vidx_inv_def vidx_index_field_def tree_at_def split: option.splits)

lemma tree_at_index_field [simp]: "tree_at (vidx_index_field f v) = tree_at v"
  by (rule ext) (auto simp: vidx_index_field_def tree_at_def split: option.splits)

lemma has_index_index_field: "has_index (vidx_index_field f v) g \<longleftrightarrow> g = f \<or> has_index v g"
  by (auto simp: vidx_index_field_def has_index_def split: option.splits)

lemma auto_index_inv:
  "vidx_inv (fold vidx_index_field fs vidx_new) \<and> vidx_entries (fold vidx_index_field fs vidx_new) = {}"
proof -
  have "vidx_inv v \<and> vidx_entries v = {} \<Longrightarrow>
      vidx_inv (fold vidx_index_field fs v) \<and> vidx_entries (fold vidx_index_field fs v) = {}" for v
    by (induction fs arbitrary: v) (simp_all add: vidx_index_field_inv vidx_entries_def)
  then show ?thesis
    by (simp add: vidx_inv_def vidx_entries_def vidx_new_def tree_at_def)
qed

lemma graph_inv_limits:
  assumes "2 * max bytes 1 \<le> USIZE_MAX"
  shows "graph_inv (with_changelog_limits rand capacity bytes)"
  using assms tag_new_exact adj_new_exact auto_index_inv
  by (auto simp: graph_inv_def with_changelog_limits_def with_changelog_capacity_def feed_inv_def
      ids_ok_def ents_ok_def indexes_ok_def index_exact_def rows_of_def)

lemma graph_inv_capacity: "graph_inv (with_changelog_capacity rand capacity)"
  using graph_inv_limits [of DEFAULT_CHANGELOG_BYTES rand capacity]
  by (simp add: with_changelog_limits_def with_changelog_capacity_def DEFAULT_CHANGELOG_BYTES_def
      USIZE_MAX_def)

definition filled ::
  "string \<Rightarrow> (string \<times> nat) list \<Rightarrow> (string \<times> hdict) list \<Rightarrow> (nat \<times> string \<times> orderable_kind) set" where
  "filled f ids es =
     {(n, g, k). g = f \<and> (\<exists>rv e. (rv, e) \<in> set es \<and> map_of ids rv = Some n \<and>
        Option.bind (dict_get e f) orderable_from_kind = Some k)}"

lemma filled_Cons:
  "map_of ids rv = Some n \<Longrightarrow>
   filled f ids ((rv, e) # es) =
     (case Option.bind (dict_get e f) orderable_from_kind of Some k \<Rightarrow> {(n, f, k)} | None \<Rightarrow> {}) \<union>
     filled f ids es"
  by (auto simp: filled_def split: option.splits)

lemma backfill_ok:
  assumes "vidx_inv v" and "has_index v f" and "distinct (map fst es)"
    and "inj_on (map_of ids) (fst ` set es)" and "\<forall>p \<in> set es. map_of ids (fst p) \<noteq> None"
    and "\<forall>p \<in> set es. \<forall>n k. map_of ids (fst p) = Some n \<longrightarrow> (n, f, k) \<notin> vidx_entries v"
  shows "\<exists>v'. backfill f ids es v = Some v' \<and> vidx_inv v' \<and> has_index v' = has_index v \<and>
    vidx_entries v' = vidx_entries v \<union> filled f ids es"
  using assms
proof (induction es arbitrary: v)
  case Nil
  then show ?case by (auto simp: filled_def)
next
  case (Cons p es)
  obtain rv e where p: "p = (rv, e)" by force
  obtain n where n: "map_of ids rv = Some n" using Cons.prems(5) p by force
  show ?case
  proof (cases "Option.bind (dict_get e f) orderable_from_kind")
    case None
    then have "backfill f ids (p # es) v = backfill f ids es v"
      using n tree_at_add_other [of v f _ n] by (auto simp: p split: option.splits)
    moreover have "\<exists>v'. backfill f ids es v = Some v' \<and> vidx_inv v' \<and> has_index v' = has_index v \<and>
      vidx_entries v' = vidx_entries v \<union> filled f ids es"
      using Cons.prems by (intro Cons.IH) auto
    ultimately show ?thesis using None by (simp only: p filled_Cons [OF n] option.case) simp
  next
    case (Some k)
    then obtain x where x: "dict_get e f = Some x" "orderable_from_kind x = Some k"
      by (cases "dict_get e f") auto
    have "(n, f, k) \<notin> vidx_entries v" using Cons.prems(6) n by (auto simp: p)
    note step = vidx_add_ok [OF Cons.prems(1,2) x(2) this]
    define v1 where "v1 = vidx_add n f x v"
    have "map_of ids (fst q) \<noteq> Some n" if "q \<in> set es" for q
    proof
      assume "map_of ids (fst q) = Some n"
      then have "fst q = rv" using Cons.prems(4) n that by (auto simp: p inj_on_def)
      then show False using Cons.prems(3) that by (auto simp: p)
    qed
    then have "\<exists>v'. backfill f ids es v1 = Some v' \<and> vidx_inv v' \<and> has_index v' = has_index v1 \<and>
      vidx_entries v' = vidx_entries v1 \<union> filled f ids es"
      using Cons.prems step by (intro Cons.IH) (auto simp: v1_def)
    moreover have "backfill f ids (p # es) v = backfill f ids es v1"
      using x n by (simp add: p v1_def)
    moreover have "has_index v1 = has_index v" "vidx_entries v1 = insert (n, f, k) (vidx_entries v)"
      using step(2) by (simp_all add: v1_def)
    ultimately show ?thesis using Some by (simp only: p filled_Cons [OF n] option.case) auto
  qed
qed

lemma ids_inj: "ids_ok ids back next free \<Longrightarrow> inj_on (map_of ids) (dom (map_of ids))"
proof (rule inj_onI)
  fix x y
  assume ok: "ids_ok ids back next free" and "x \<in> dom (map_of ids)" and eq: "map_of ids x = map_of ids y"
  then obtain n where "map_of ids x = Some n" "map_of ids y = Some n" by force
  then show "x = y" using ids_ok_inverse [OF ok, of x n] ids_ok_inverse [OF ok, of y n] by simp
qed

lemma rows_iff:
  assumes "ids_ok ids back next free" and "ents_ok es ids"
  shows "rows_of back es n = Some e \<longleftrightarrow> (\<exists>rv. map_of ids rv = Some n \<and> (rv, e) \<in> set es)"
proof -
  have "(rv, e) \<in> set es \<longleftrightarrow> map_of es rv = Some e" for rv
    using assms(2) unfolding ents_ok_def by (intro bt_in_set_iff) simp
  then show ?thesis
    by (auto simp: rows_of_def ids_ok_inverse [OF assms(1)] bind_eq_Some_conv)
qed

lemma index_field_ok:
  assumes "graph_inv g" and "index_generation g < U64_MAX"
  shows "\<exists>g'. index_field f g = Some g' \<and> graph_inv g' \<and> has_index (g_values g') f \<and>
    entities g' = entities g \<and> version g' = version g \<and> changelog g' = changelog g"
proof (cases "has_index (g_values g) f")
  case True
  with assms(1) show ?thesis by (simp add: index_field_def)
next
  case False
  define v where "v = vidx_index_field f (g_values g)"
  have ids: "ids_ok (id_map g) (reverse_id g) (next_id g) (free_ids g)"
    and ents: "ents_ok (entities g) (id_map g)"
    and exact: "index_exact vidx_inv vidx_entries vidx_keys (g_values g) (rows g)"
    using assms(1) by (simp_all add: graph_inv_def indexes_ok_def)
  have old: "vidx_inv (g_values g)"
    "vidx_entries (g_values g) = {(n, k). \<exists>e. rows g n = Some e \<and> k \<in> vidx_keys (g_values g) e}"
    using exact by (simp_all add: index_exact_def)
  have v: "vidx_inv v" "has_index v f" "vidx_entries v = vidx_entries (g_values g)"
    using old(1) by (simp_all add: v_def vidx_index_field_inv has_index_index_field vidx_entries_def)
  have keys: "fst ` set (entities g) = dom (map_of (id_map g))"
    using ents by (simp add: ents_ok_def dom_map_of_conv_image_fst)
  have "\<exists>v'. backfill f (id_map g) (entities g) v = Some v' \<and> vidx_inv v' \<and> has_index v' = has_index v \<and>
    vidx_entries v' = vidx_entries v \<union> filled f (id_map g) (entities g)"
  proof (rule backfill_ok [OF v(1,2)])
    show "distinct (map fst (entities g))"
      using ents by (simp add: ents_ok_def bt_wf_distinct)
    show "inj_on (map_of (id_map g)) (fst ` set (entities g))"
      using ids_inj [OF ids] by (simp add: keys)
    show "\<forall>p \<in> set (entities g). map_of (id_map g) (fst p) \<noteq> None"
      using keys by blast
    show "\<forall>p \<in> set (entities g). \<forall>n k. map_of (id_map g) (fst p) = Some n \<longrightarrow> (n, f, k) \<notin> vidx_entries v"
      using False v(3) old(2) by (simp add: vidx_keys_def)
  qed
  then obtain v' where v': "backfill f (id_map g) (entities g) v = Some v'" "vidx_inv v'"
      "has_index v' = has_index v"
      "vidx_entries v' = vidx_entries v \<union> filled f (id_map g) (entities g)"
    by blast
  have "filled f (id_map g) (entities g) = {(n, h, k). h = f \<and>
      (\<exists>e. rows g n = Some e \<and> Option.bind (dict_get e f) orderable_from_kind = Some k)}"
    unfolding filled_def rows_iff [OF ids ents] by blast
  moreover have "vidx_keys v' e = vidx_keys (g_values g) e \<union>
      {(h, k). h = f \<and> Option.bind (dict_get e f) orderable_from_kind = Some k}" for e
    using v'(3) by (auto simp: vidx_keys_def v_def has_index_index_field bind_eq_Some_conv)
  ultimately have "index_exact vidx_inv vidx_entries vidx_keys v' (rows g)"
    using v' v(3) old(2) by (auto simp: index_exact_def)
  then have "graph_inv (g\<lparr>index_generation := Suc (index_generation g), g_values := v'\<rparr>)"
    using assms(1) by (simp add: graph_inv_def feed_inv_def indexes_ok_def)
  moreover have "index_field f g = Some (g\<lparr>index_generation := Suc (index_generation g), g_values := v'\<rparr>)"
    using False v'(1) assms(2) by (simp add: index_field_def v_def checked_add_u64_def)
  ultimately show ?thesis using v(2) v'(3) by simp
qed

lemma vidx_clear_ok:
  assumes "vidx_inv v"
  shows "vidx_inv (vidx_clear v)" and "vidx_entries (vidx_clear v) = {}"
    and "has_index (vidx_clear v) = has_index v"
proof -
  have look: "map_of (map (\<lambda>(f, _). (f, [])) m) f = map_option (\<lambda>_. []) (map_of m f)"
    for m :: "(string \<times> value_tree) list" and f by (induction m) auto
  have at: "tree_at (vidx_clear v) f = []" for f
    by (simp add: tree_at_def vidx_clear_def look split: option.split)
  have "map fst (indexes (vidx_clear v)) = map fst (indexes v)"
    by (simp add: vidx_clear_def comp_def case_prod_beta)
  then show "vidx_inv (vidx_clear v)"
    using assms by (simp add: vidx_inv_def at)
  show "vidx_entries (vidx_clear v) = {}" by (simp add: vidx_entries_def at)
  show "has_index (vidx_clear v) = has_index v"
    by (rule ext) (simp add: has_index_def vidx_clear_def look)
qed

lemma rebuild_values_ok:
  assumes "vidx_inv v" and "distinct (map fst es)" and "inj_on (map_of ids) (fst ` set es)"
    and "\<forall>p \<in> set es. map_of ids (fst p) \<noteq> None \<and> dict_wf (snd p)"
    and "\<forall>p \<in> set es. \<forall>n k. map_of ids (fst p) = Some n \<longrightarrow> (n, k) \<notin> vidx_entries v"
  shows "vidx_inv (rebuild_values ids es v) \<and> has_index (rebuild_values ids es v) = has_index v \<and>
    vidx_entries (rebuild_values ids es v) = vidx_entries v \<union>
      {(n, k). \<exists>rv e. (rv, e) \<in> set es \<and> map_of ids rv = Some n \<and> k \<in> vidx_keys v e}"
  using assms
proof (induction es arbitrary: v)
  case Nil
  then show ?case by auto
next
  case (Cons p es)
  obtain rv e where p: "p = (rv, e)" by force
  obtain n where n: "map_of ids rv = Some n" using Cons.prems(4) p by force
  define v1 where "v1 = vidx_add_tags n (tags e) v"
  have e: "dict_wf e" using Cons.prems(4) by (simp add: p)
  have "\<forall>f k. (n, f, k) \<in> vidx_entries v \<longrightarrow> f \<notin> fst ` set (tags e)"
    using Cons.prems(5) n by (auto simp: p)
  with vidx_add_tags_ok [OF Cons.prems(1), of "tags e" n] e
  have v1: "vidx_inv v1" "has_index v1 = has_index v"
      "vidx_entries v1 = vidx_entries v \<union> {n} \<times> vidx_keys v e"
    by (auto simp: v1_def dict_wf_def [symmetric] tag_values_dict)
  have "map_of ids (fst q) \<noteq> Some n" if "q \<in> set es" for q
  proof
    assume "map_of ids (fst q) = Some n"
    then have "fst q = rv" using Cons.prems(3) n that by (auto simp: p inj_on_def)
    then show False using Cons.prems(2) that by (auto simp: p)
  qed
  then have "vidx_inv (rebuild_values ids es v1) \<and> has_index (rebuild_values ids es v1) = has_index v1 \<and>
    vidx_entries (rebuild_values ids es v1) = vidx_entries v1 \<union>
      {(n, k). \<exists>rv e. (rv, e) \<in> set es \<and> map_of ids rv = Some n \<and> k \<in> vidx_keys v1 e}"
    using Cons.prems v1 by (intro Cons.IH) auto
  moreover have "rebuild_values ids (p # es) v = rebuild_values ids es v1"
    using n by (simp add: p v1_def)
  ultimately show ?case
    using v1 n vidx_keys_cong [OF v1(2)] by (auto simp: p)
qed

lemma rebuild_value_index_ok:
  assumes "graph_inv g"
  shows "graph_inv (rebuild_value_index g)"
proof -
  define v where "v = vidx_clear (g_values g)"
  have ids: "ids_ok (id_map g) (reverse_id g) (next_id g) (free_ids g)"
    and ents: "ents_ok (entities g) (id_map g)"
    and old: "vidx_inv (g_values g)"
    using assms by (simp_all add: graph_inv_def indexes_ok_def index_exact_def)
  note v = vidx_clear_ok [OF old, folded v_def]
  have keys: "fst ` set (entities g) = dom (map_of (id_map g))"
    using ents by (simp add: ents_ok_def dom_map_of_conv_image_fst)
  define v' where "v' = rebuild_values (id_map g) (entities g) v"
  have "vidx_inv v' \<and> has_index v' = has_index v \<and> vidx_entries v' = vidx_entries v \<union>
      {(n, k). \<exists>rv e. (rv, e) \<in> set (entities g) \<and> map_of (id_map g) rv = Some n \<and> k \<in> vidx_keys v e}"
    unfolding v'_def
  proof (rule rebuild_values_ok [OF v(1)])
    show "distinct (map fst (entities g))"
      using ents by (simp add: ents_ok_def bt_wf_distinct)
    show "inj_on (map_of (id_map g)) (fst ` set (entities g))"
      using ids_inj [OF ids] by (simp add: keys)
    have "dict_wf e" if "(rv, e) \<in> set (entities g)" for rv e
      using ents that bt_in_set_iff [of "entities g" rv e] by (simp add: ents_ok_def)
    then show "\<forall>p \<in> set (entities g). map_of (id_map g) (fst p) \<noteq> None \<and> dict_wf (snd p)"
      using keys by (metis domIff image_eqI prod.collapse)
  qed (simp add: v(2))
  moreover have "{(n, k). \<exists>rv e. (rv, e) \<in> set (entities g) \<and> map_of (id_map g) rv = Some n \<and> k \<in> vidx_keys v e}
      = {(n, k). \<exists>e. rows g n = Some e \<and> k \<in> vidx_keys v e}"
    unfolding rows_iff [OF ids ents] by blast
  ultimately have "index_exact vidx_inv vidx_entries vidx_keys v' (rows g)"
    using v(2) vidx_keys_cong [of v' v] by (simp add: index_exact_def)
  with assms show ?thesis
    by (simp add: graph_inv_def feed_inv_def indexes_ok_def rebuild_value_index_def v'_def v_def)
qed

lemma publish_catalog_inv: "graph_inv g \<Longrightarrow> publish_catalog c g = Inr (n, g') \<Longrightarrow> graph_inv g'"
  by (auto simp: publish_catalog_def graph_inv_def feed_inv_def intro: qc_inv_clear)

lemma set_namespace_inv: "graph_inv g \<Longrightarrow> set_namespace a a' ns g = Some g' \<Longrightarrow> graph_inv g'"
  by (auto simp: set_namespace_def Let_def bind_eq_Some_conv graph_inv_def feed_inv_def
      qc_inv_clear [of "version g"] split: option.splits)

end
