(* ===== verification/Graph_Spec.thy ===== *)
theory Graph_Spec
  imports Entity_Graph_Inv
begin

text \<open>
  What the entity store promises, and that the store keeps the promise.

  The abstract store is a partial map from identifiers to entities with a revision counter.  Its
  operations say when each error is returned and what a success changes; numbering, free lists,
  indexes, caches and the log do not appear.  The concrete operations of \<open>Entity_Graph\<close>
  refine them: applied to a graph in the invariant they return the same errors and results, and
  abstract to the same next state.
\<close>

section \<open>The abstract store\<close>

record spec_store =
  contents :: "string \<Rightarrow> hdict option"
  revision :: nat

definition graph_abs :: "entity_graph \<Rightarrow> spec_store" where
  "graph_abs g = \<lparr>contents = map_of (entities g), revision = version g\<rparr>"

definition spec_add :: "hdict \<Rightarrow> spec_store \<Rightarrow> (graph_error, string \<times> spec_store) res" where
  "spec_add e s =
     (case dict_get e ''id'' of
        None \<Rightarrow> Inl (Err MissingId)
      | Some (KRef r) \<Rightarrow>
          (if contents s (ref_val r) \<noteq> None then Inl (Err (DuplicateRef (ref_val r)))
           else if revision s = U64_MAX then Inl (Err RevisionExhausted)
           else if card (dom (contents s)) = Suc U32_MAX then Inl (Err IdExhausted)
           else Inr (ref_val r, \<lparr>contents = (contents s)(ref_val r \<mapsto> e), revision = Suc (revision s)\<rparr>))
      | Some _ \<Rightarrow> Inl (Err InvalidId))"

definition spec_update :: "string \<Rightarrow> hdict \<Rightarrow> spec_store \<Rightarrow> (graph_error, spec_store) res" where
  "spec_update rv changes s =
     (case contents s rv of
        None \<Rightarrow> Inl (Err (NotFound rv))
      | Some old \<Rightarrow>
          (if dict_get changes ''id'' \<noteq> None \<and> \<not> has_id changes rv then Inl (Err ImmutableId)
           else if dict_is_empty changes then Inr s
           else if revision s = U64_MAX then Inl (Err RevisionExhausted)
           else Inr \<lparr>contents = (contents s)(rv \<mapsto> dict_merge old changes), revision = Suc (revision s)\<rparr>))"

definition spec_remove :: "string \<Rightarrow> spec_store \<Rightarrow> (graph_error, hdict \<times> spec_store) res" where
  "spec_remove rv s =
     (case contents s rv of
        None \<Rightarrow> Inl (Err (NotFound rv))
      | Some e \<Rightarrow>
          (if revision s = U64_MAX then Inl (Err RevisionExhausted)
           else Inr (e, \<lparr>contents = (contents s)(rv := None), revision = Suc (revision s)\<rparr>)))"

text \<open>What a logged change does to the contents.\<close>

definition apply_diff :: "graph_diff \<Rightarrow> (string \<Rightarrow> hdict option) \<Rightarrow> string \<Rightarrow> hdict option" where
  "apply_diff d m =
     (case gd_op d of
        DiffAdd \<Rightarrow> m(gd_ref_val d := gd_new d)
      | DiffUpdate \<Rightarrow>
          (case (m (gd_ref_val d), gd_changed_tags d) of
             (Some old, Some changed) \<Rightarrow> m(gd_ref_val d \<mapsto> dict_merge old changed)
           | _ \<Rightarrow> m)
      | DiffRemove \<Rightarrow> m(gd_ref_val d := None))"

lemma apply_diff_stamp [simp]: "apply_diff (d\<lparr>gd_timestamp := t\<rparr>) = apply_diff d"
  by (rule ext, cases "gd_op d") (simp_all add: apply_diff_def split: option.split)

lemma apply_diff_span [simp]: "apply_diff (d\<lparr>gd_span := s\<rparr>) = apply_diff d"
  by (rule ext, cases "gd_op d") (simp_all add: apply_diff_def split: option.split)

lemma graph_inv_None: "graph_inv g \<Longrightarrow> map_of (id_map g) rv = None \<longleftrightarrow> map_of (entities g) rv = None"
  unfolding graph_inv_def by (blast dest: ents_ok_None)

lemma graph_inv_Some:
  assumes "graph_inv g" and "map_of (entities g) rv = Some e"
  obtains n where "map_of (id_map g) rv = Some n"
  using graph_inv_None [OF assms(1), of rv] assms(2) by (cases "map_of (id_map g) rv") auto

section \<open>Exhaustion of the numbering\<close>

lemma card_ids:
  assumes "ids_ok ids back next free"
  shows "card (dom (map_of ids)) + length free = next"
proof -
  have inv: "\<And>rv n. map_of ids rv = Some n \<longleftrightarrow> map_of back n = Some rv"
    using ids_ok_inverse [OF assms] .
  have "bij_betw (the \<circ> map_of ids) (dom (map_of ids)) (dom (map_of back))"
  proof (rule bij_betw_byWitness [where f' = "the \<circ> map_of back"])
    show "\<forall>x \<in> dom (map_of ids). (the \<circ> map_of back) ((the \<circ> map_of ids) x) = x"
      using inv by (metis comp_apply domD option.sel)
    show "\<forall>y \<in> dom (map_of back). (the \<circ> map_of ids) ((the \<circ> map_of back) y) = y"
      using inv by (metis comp_apply domD option.sel)
    show "(the \<circ> map_of ids) ` dom (map_of ids) \<subseteq> dom (map_of back)"
      "(the \<circ> map_of back) ` dom (map_of back) \<subseteq> dom (map_of ids)"
      using inv by fastforce+
  qed
  then have "card (dom (map_of ids)) = card (dom (map_of back))" by (rule bij_betw_same_card)
  moreover have "card (dom (map_of back)) + card (set free) = card {..<next}"
    using assms by (subst card_Un_disjoint [symmetric]) (auto simp: ids_ok_def finite_dom_map_of Un_commute)
  moreover have "card (set free) = length free"
    using assms by (simp add: ids_ok_def distinct_card)
  ultimately show ?thesis by simp
qed

lemma exhausted_iff:
  assumes "graph_inv g"
  shows "card (dom (map_of (entities g))) = Suc U32_MAX \<longleftrightarrow> free_ids g = [] \<and> next_id g = Suc U32_MAX"
proof -
  have ids: "ids_ok (id_map g) (reverse_id g) (next_id g) (free_ids g)"
    and dom: "dom (map_of (id_map g)) = dom (map_of (entities g))"
    using assms by (simp_all add: graph_inv_def ents_ok_def)
  have "next_id g \<le> Suc U32_MAX" using ids by (simp add: ids_ok_def)
  with card_ids [OF ids] show ?thesis
    unfolding dom by (cases "free_ids g") auto
qed

section \<open>Refinement\<close>

abbreviation abs_result :: "('e, 'a \<times> entity_graph) res \<Rightarrow> ('e, 'a \<times> spec_store) res" where
  "abs_result \<equiv> map_sum (\<lambda>e. e) (map_prod (\<lambda>a. a) graph_abs)"

lemma not_full: "graph_inv g \<Longrightarrow> version g \<noteq> U64_MAX \<Longrightarrow> version g < U64_MAX"
  by (auto simp: graph_inv_def feed_inv_def)

lemma add_cases:
  assumes inv: "graph_inv g" and wf: "dict_wf e"
  shows "abs_result (add now e g) = spec_add e (graph_abs g) \<and>
    (\<forall>rv g'. add now e g = Inr (rv, g') \<longrightarrow> graph_inv g')"
proof (cases "\<exists>r. dict_get e ''id'' = Some (KRef r)")
  case False
  then have "add now e g = Inl (Err InvalidId) \<and> (\<exists>k. dict_get e ''id'' = Some k) \<or>
      add now e g = Inl (Err MissingId) \<and> dict_get e ''id'' = None"
    by (cases "dict_get e ''id''") (auto simp: add_def extract_ref_val_def split: kind.splits)
  with False show ?thesis
    by (auto simp: spec_add_def split: kind.splits)
next
  case True
  then obtain r where r: "dict_get e ''id'' = Some (KRef r)" by blast
  show ?thesis
  proof (cases "map_of (entities g) (ref_val r) = None \<and> version g \<noteq> U64_MAX")
    case False
    then show ?thesis
      using r inv by (auto simp: add_def extract_ref_val_def spec_add_def graph_abs_def graph_inv_def
          feed_inv_def checked_add_u64_def)
  next
    case fresh: True
    then have ver: "version g < U64_MAX" using not_full [OF inv] by simp
    have ids: "ids_ok (id_map g) (reverse_id g) (next_id g) (free_ids g)"
      using inv by (simp add: graph_inv_def)
    show ?thesis
    proof (cases "free_ids g = [] \<and> next_id g = Suc U32_MAX")
      case True
      then have "add now e g = Inl (Err IdExhausted)"
        using r fresh ver
        by (simp add: add_def extract_ref_val_def checked_add_u64_def alloc_id_def MAX_ENTITY_ID_def)
      with True r fresh show ?thesis
        by (simp add: spec_add_def graph_abs_def exhausted_iff [OF inv])
    next
      case False
      then have "free_ids g \<noteq> [] \<or> next_id g \<le> U32_MAX"
        using ids by (auto simp: ids_ok_def)
      from add_ok [OF inv wf r _ ver this] fresh obtain g' where
        "add now e g = Inr (ref_val r, g')" "graph_inv g'"
        "entities g' = bt_insert (ref_val r) e (entities g)" "version g' = Suc (version g)"
        by blast
      with False r fresh show ?thesis
        by (simp add: spec_add_def graph_abs_def exhausted_iff [OF inv])
    qed
  qed
qed

lemma update_cases:
  assumes inv: "graph_inv g" and wf: "dict_wf changes"
  shows "map_sum (\<lambda>e. e) graph_abs (update now rv changes g) = spec_update rv changes (graph_abs g) \<and>
    (\<forall>g'. update now rv changes g = Inr g' \<longrightarrow> graph_inv g')"
proof (cases "map_of (entities g) rv")
  case None
  then have "map_of (id_map g) rv = None"
    using graph_inv_None [OF inv] by simp
  with None show ?thesis
    by (simp add: update_def spec_update_def graph_abs_def)
next
  case (Some old)
  then obtain eid where eid: "map_of (id_map g) rv = Some eid"
    using graph_inv_Some [OF inv] by blast
  define bad where "bad \<longleftrightarrow> dict_get changes ''id'' \<noteq> None \<and> \<not> has_id changes rv"
  have bad: "(case dict_get changes ''id'' of None \<Rightarrow> False | Some (KRef r) \<Rightarrow> ref_val r \<noteq> rv | Some _ \<Rightarrow> True)
      = bad"
    by (auto simp: bad_def has_id_def split: option.splits kind.splits)
  show ?thesis
  proof (cases "bad \<or> dict_is_empty changes \<or> version g = U64_MAX")
    case True
    with Some eid inv show ?thesis
      by (auto simp: update_def bad spec_update_def bad_def graph_abs_def checked_add_u64_def)
  next
    case False
    then have "dict_get changes ''id'' = None \<or> has_id changes rv" "\<not> dict_is_empty changes"
        "version g < U64_MAX"
      using not_full [OF inv] by (auto simp: bad_def)
    from update_ok [OF inv wf Some this] obtain g' where
      "update now rv changes g = Inr g'" "graph_inv g'"
      "entities g' = bt_insert rv (dict_merge old changes) (entities g)" "version g' = Suc (version g)"
      by blast
    with False Some show ?thesis
      by (auto simp: spec_update_def bad_def graph_abs_def)
  qed
qed

lemma remove_cases:
  assumes inv: "graph_inv g"
  shows "abs_result (remove now rv g) = spec_remove rv (graph_abs g) \<and>
    (\<forall>e g'. remove now rv g = Inr (e, g') \<longrightarrow> graph_inv g')"
proof (cases "map_of (entities g) rv")
  case None
  then have "map_of (id_map g) rv = None"
    using graph_inv_None [OF inv] by simp
  with None show ?thesis
    by (simp add: remove_def spec_remove_def graph_abs_def)
next
  case (Some e)
  then obtain eid where eid: "map_of (id_map g) rv = Some eid"
    using graph_inv_Some [OF inv] by blast
  show ?thesis
  proof (cases "version g = U64_MAX")
    case True
    with Some eid show ?thesis
      by (simp add: remove_def spec_remove_def graph_abs_def checked_add_u64_def)
  next
    case False
    from remove_ok [OF inv Some not_full [OF inv this]] obtain g' where
      "remove now rv g = Inr (e, g')" "graph_inv g'"
      "entities g' = AList.delete rv (entities g)" "version g' = Suc (version g)"
      by blast
    with False Some show ?thesis
      by (simp add: spec_remove_def graph_abs_def)
  qed
qed

section \<open>Successful mutations\<close>

lemma add_success:
  assumes inv: "graph_inv g" and wf: "dict_wf e" and res: "add now e g = Inr (rv, g')"
  shows "has_id e rv \<and> graph_inv g' \<and> entities g' = bt_insert rv e (entities g) \<and>
    version g' = Suc (version g) \<and>
    logged now (map_option (add_diff (Suc (version g)) rv e)
      (diff_bytes rv [e] (changelog_byte_capacity g))) (changelog g) (changelog g') \<and>
    same_config g g'"
proof -
  have "spec_add e (graph_abs g) = Inr (rv, graph_abs g')"
    using add_cases [OF inv wf, of now] res by simp
  then obtain r where r: "dict_get e ''id'' = Some (KRef r)" "rv = ref_val r"
      "map_of (entities g) (ref_val r) = None" "version g \<noteq> U64_MAX"
      "card (dom (map_of (entities g))) \<noteq> Suc U32_MAX"
    by (auto simp: spec_add_def graph_abs_def split: option.splits kind.splits if_splits)
  have "next_id g \<le> Suc U32_MAX" using inv by (simp add: graph_inv_def ids_ok_def)
  with r(5) exhausted_iff [OF inv] have "free_ids g \<noteq> [] \<or> next_id g \<le> U32_MAX" by auto
  from add_ok [OF inv wf r(1,3) not_full [OF inv r(4)] this, of now] res r(1,2) show ?thesis
    by (auto simp: has_id_def)
qed

lemma update_success:
  assumes inv: "graph_inv g" and wf: "dict_wf changes" and res: "update now rv changes g = Inr g'"
  shows "g' = g \<and> dict_is_empty changes \<or>
    (\<exists>old. map_of (entities g) rv = Some old \<and> graph_inv g' \<and>
      entities g' = bt_insert rv (dict_merge old changes) (entities g) \<and>
      version g' = Suc (version g) \<and>
      logged now (map_option (update_diff (Suc (version g)) rv old changes)
        (patch_diff_bytes rv old changes (changelog_byte_capacity g))) (changelog g) (changelog g') \<and>
      same_config g g')"
proof (cases "dict_is_empty changes")
  case True
  then show ?thesis
    using res by (auto simp: update_def split: if_splits)
next
  case False
  have "spec_update rv changes (graph_abs g) = Inr (graph_abs g')"
    using update_cases [OF inv wf, of now rv] res by simp
  with False obtain old where old: "map_of (entities g) rv = Some old"
      "dict_get changes ''id'' = None \<or> has_id changes rv" "version g \<noteq> U64_MAX"
    by (auto simp: spec_update_def graph_abs_def split: option.splits if_splits)
  from update_ok [OF inv wf old(1,2) False not_full [OF inv old(3)], of now] res old(1)
  show ?thesis by auto
qed

lemma remove_success:
  assumes inv: "graph_inv g" and res: "remove now rv g = Inr (e, g')"
  shows "map_of (entities g) rv = Some e \<and> graph_inv g' \<and>
    entities g' = AList.delete rv (entities g) \<and> version g' = Suc (version g) \<and>
    logged now (map_option (remove_diff (Suc (version g)) rv e)
      (diff_bytes rv [e] (changelog_byte_capacity g))) (changelog g) (changelog g') \<and>
    same_config g g'"
proof -
  have "spec_remove rv (graph_abs g) = Inr (e, graph_abs g')"
    using remove_cases [OF inv, of now rv] res by simp
  then have e: "map_of (entities g) rv = Some e" "version g \<noteq> U64_MAX"
    by (auto simp: spec_remove_def graph_abs_def split: option.splits if_splits)
  from remove_ok [OF inv e(1) not_full [OF inv e(2)], of now] res e(1) show ?thesis by auto
qed

lemma same_config_refl [simp]: "same_config g g"
  by (simp add: same_config_def)

lemma same_config_trans: "same_config g h \<Longrightarrow> same_config h k \<Longrightarrow> same_config g k"
  by (simp add: same_config_def)

end
