(* ===== verification/Entity_Query.thy ===== *)
theory Entity_Query
  imports Graph_Spec
begin

text \<open>
  The read side of \<open>graph/entity_graph.rs\<close>: filter queries with index acceleration and two
  caches, reference traversal, hierarchy helpers and export to grids.

  The filter parser is an argument of the query operations, a function from the expression to an
  error message or an abstract syntax tree.  \<open>read_all\<close> takes the graph by shared reference
  but updates the two caches behind their locks, also when it returns an error, so it is modelled
  as returning the graph together with the result.
\<close>

section \<open>Index acceleration\<close>

definition cmp_lookup :: "value_index \<Rightarrow> string \<Rightarrow> cmp_op \<Rightarrow> kind \<Rightarrow> nat list option" where
  "cmp_lookup vi field op val =
     (case val of
        KNumber n \<Rightarrow>
          (if op = OpEq then Some (eq_lookup vi field val)
           else if f64_eq (num_val n) 0 then None
           else (case op of
                   OpLt \<Rightarrow> Some (lt_lookup vi field val)
                 | OpLe \<Rightarrow> Some (le_lookup vi field val)
                 | OpGt \<Rightarrow> Some (gt_lookup vi field val)
                 | OpGe \<Rightarrow> Some (ge_lookup vi field val)
                 | _ \<Rightarrow> None))
      | KStr _ \<Rightarrow>
          (case op of
             OpEq \<Rightarrow> Some (eq_lookup vi field val)
           | OpLt \<Rightarrow> Some (lt_lookup vi field val)
           | OpLe \<Rightarrow> Some (le_lookup vi field val)
           | OpGt \<Rightarrow> Some (gt_lookup vi field val)
           | OpGe \<Rightarrow> Some (ge_lookup vi field val)
           | OpNe \<Rightarrow> None)
      | _ \<Rightarrow> None)"

fun bitmap_candidates :: "filter_node \<Rightarrow> tag_index \<Rightarrow> value_index \<Rightarrow> bitmap \<Rightarrow> bitmap option" where
  "bitmap_candidates (Has p) ti vi universe =
     (if path_is_single p then has_tag ti (path_first p) else None)"
| "bitmap_candidates (Missing p) ti vi universe =
     (if path_is_single p
      then map_option (\<lambda>bm. negate bm universe) (has_tag ti (path_first p)) else None)"
| "bitmap_candidates (Cmp p op val) ti vi universe =
     (if path_is_single p \<and> has_index vi (path_first p)
      then map_option (\<lambda>ids. set (map as_u32 ids)) (cmp_lookup vi (path_first p) op val)
      else None)"
| "bitmap_candidates (And l r) ti vi universe =
     (case (bitmap_candidates l ti vi universe, bitmap_candidates r ti vi universe) of
        (Some a, Some b) \<Rightarrow> Some (a \<inter> b)
      | (Some a, None) \<Rightarrow> Some a
      | (None, Some b) \<Rightarrow> Some b
      | (None, None) \<Rightarrow> None)"
| "bitmap_candidates (Or l r) ti vi universe =
     (case (bitmap_candidates l ti vi universe, bitmap_candidates r ti vi universe) of
        (Some a, Some b) \<Rightarrow> Some (a \<union> b)
      | _ \<Rightarrow> None)"
| "bitmap_candidates (SpecMatch s) ti vi universe = None"

section \<open>Queries\<close>

fun join_strings :: "string \<Rightarrow> string list \<Rightarrow> string" where
  "join_strings sep [] = []"
| "join_strings sep [s] = s"
| "join_strings sep (s # ss) = s @ sep @ join_strings sep ss"

definition reject_unresolved_specs ::
  "filter_node \<Rightarrow> namespace option \<Rightarrow> (graph_error, unit) res" where
  "reject_unresolved_specs ast ns =
     (let unresolved = unresolved_specs ast ns
      in if unresolved = [] then Inr ()
         else Inl (Err (FilterError
           (if ns \<noteq> None
            then ''filter names '' @ (if length unresolved = 1 then ''a spec'' else ''specs'') @
                 '' that this graph's namespace does not define: '' @ join_strings '', '' unresolved
            else ''filter contains spec-match terms ('' @ join_strings '', '' unresolved @
                 '') but this graph has no namespace: build it with EntityGraph::with_namespace''))))"

text \<open>A loop that pushes the hits of \<open>f\<close> until \<open>n\<close> results are collected.\<close>

fun collect_upto :: "nat \<Rightarrow> ('a \<Rightarrow> 'b option) \<Rightarrow> 'a list \<Rightarrow> 'b list \<Rightarrow> 'b list" where
  "collect_upto n f [] results = results"
| "collect_upto n f (x # xs) results =
     (if n \<le> length results then results
      else collect_upto n f xs (case f x of Some y \<Rightarrow> results @ [y] | None \<Rightarrow> results))"

definition graph_ctx :: "entity_graph \<Rightarrow> query_context" where
  "graph_ctx g =
     \<lparr>forward = (\<lambda>r. map_of (entities g) (ref_val r)),
      inverse = Some (\<lambda>target tag.
        List.map_filter (map_of (entities g))
          (List.map_filter (map_of (reverse_id g))
             (sources_to (adjacency g) (ref_val target) (Some tag))))\<rparr>"

definition graph_ns :: "entity_graph \<Rightarrow> namespace option" where
  "graph_ns g = map_option arc_val (g_namespace g)"

definition graph_matches :: "entity_graph \<Rightarrow> filter_node \<Rightarrow> hdict \<Rightarrow> bool" where
  "graph_matches g ast e = matches_with_ns ast e (Some (graph_ctx g)) (graph_ns g)"

definition effective_limit :: "nat \<Rightarrow> nat" where
  "effective_limit limit = (if limit = 0 then USIZE_MAX else limit)"

text \<open>The parsed filter, from the cache or freshly parsed and cached.\<close>

definition cached_ast ::
  "(string \<Rightarrow> string + filter_node) \<Rightarrow> string \<Rightarrow> entity_graph \<Rightarrow>
   entity_graph \<times> (graph_error, filter_node) res" where
  "cached_ast parse flt g =
     (case map_of (ast_cache g) flt of
        Some ast \<Rightarrow> (g, Inr ast)
      | None \<Rightarrow>
          (case parse flt of
             Inl msg \<Rightarrow> (g, Inl (Err (FilterError msg)))
           | Inr ast \<Rightarrow>
               (let cache = (if MAX_AST_CACHE_SIZE \<le> length (ast_cache g) then [] else ast_cache g)
                in (g\<lparr>ast_cache := AList.update flt ast cache\<rparr>, Inr ast))))"

definition query_results :: "entity_graph \<Rightarrow> filter_node \<Rightarrow> nat \<Rightarrow> hdict list" where
  "query_results g ast eff =
     (let universe = as_u32 ` set (map snd (id_map g));
          candidates = bitmap_candidates ast (g_tags g) (g_values g) universe;
          results =
            (case candidates of
               Some bitmap \<Rightarrow>
                 collect_upto eff
                   (\<lambda>eid. case map_of (reverse_id g) eid of
                      None \<Rightarrow> None
                    | Some rv \<Rightarrow>
                        (case map_of (entities g) rv of
                           None \<Rightarrow> None
                         | Some e \<Rightarrow> if graph_matches g ast e then Some e else None))
                   (iter_set_bits bitmap) []
             | None \<Rightarrow>
                 collect_upto eff (\<lambda>e. if graph_matches g ast e then Some e else None)
                   (map snd (entities g)) [])
      in take eff results)"

definition result_ref :: "hdict \<Rightarrow> string option" where
  "result_ref e = (case dict_get e ''id'' of Some (KRef r) \<Rightarrow> Some (ref_val r) | _ \<Rightarrow> None)"

definition read_all ::
  "(string \<Rightarrow> string + filter_node) \<Rightarrow> string \<Rightarrow> nat \<Rightarrow> entity_graph \<Rightarrow>
   entity_graph \<times> (graph_error, hdict list) res" where
  "read_all parse flt limit g =
     (let eff = effective_limit limit;
          (hit, qc) = qc_get flt (version g) (g_query_cache g);
          g = g\<lparr>g_query_cache := qc\<rparr>
      in case hit of
           Some refs \<Rightarrow> (g, Inr (collect_upto eff (map_of (entities g)) refs []))
         | None \<Rightarrow>
             (case cached_ast parse flt g of
                (g, Inl e) \<Rightarrow> (g, Inl e)
              | (g, Inr ast) \<Rightarrow>
                  (case reject_unresolved_specs ast (graph_ns g) of
                     Inl e \<Rightarrow> (g, Inl e)
                   | Inr _ \<Rightarrow>
                       (let results = query_results g ast eff
                        in if limit = 0
                           then (g\<lparr>g_query_cache := qc_insert flt (version g)
                                     (List.map_filter result_ref results) (g_query_cache g)\<rparr>,
                                 Inr results)
                           else (g, Inr results)))))"

section \<open>Reference traversal\<close>

definition refs_from :: "entity_graph \<Rightarrow> string \<Rightarrow> string option \<Rightarrow> string list" where
  "refs_from g rv ref_type =
     (case map_of (id_map g) rv of Some eid \<Rightarrow> targets_from (adjacency g) eid ref_type | None \<Rightarrow> [])"

definition refs_to :: "entity_graph \<Rightarrow> string \<Rightarrow> string option \<Rightarrow> string list" where
  "refs_to g rv ref_type =
     List.map_filter (map_of (reverse_id g)) (sources_to (adjacency g) rv ref_type)"

fun ref_chain_from :: "(string \<times> hdict) list \<Rightarrow> string \<Rightarrow> string list \<Rightarrow> hdict list" where
  "ref_chain_from es current [] = []"
| "ref_chain_from es current (tag # ref_tags) =
     (case map_of es current of
        None \<Rightarrow> []
      | Some e \<Rightarrow>
          (case dict_get e tag of
             Some (KRef r) \<Rightarrow>
               (case map_of es (ref_val r) of
                  Some target \<Rightarrow> target # ref_chain_from es (ref_val r) ref_tags
                | None \<Rightarrow> [])
           | _ \<Rightarrow> []))"

definition ref_chain :: "entity_graph \<Rightarrow> string \<Rightarrow> string list \<Rightarrow> hdict list" where
  "ref_chain g rv ref_tags = ref_chain_from (entities g) rv ref_tags"

definition site_for :: "entity_graph \<Rightarrow> string \<Rightarrow> hdict option" where
  "site_for g rv =
     Option.bind (map_of (entities g) rv) (\<lambda>e.
       if dict_has e ''site'' then Some e
       else
         (case dict_get e ''siteRef'' of
            Some (KRef r) \<Rightarrow> map_of (entities g) (ref_val r)
          | _ \<Rightarrow>
              (case dict_get e ''equipRef'' of
                 Some (KRef r) \<Rightarrow>
                   (case map_of (entities g) (ref_val r) of
                      Some equip \<Rightarrow>
                        (case dict_get equip ''siteRef'' of
                           Some (KRef sr) \<Rightarrow> map_of (entities g) (ref_val sr)
                         | _ \<Rightarrow> None)
                    | None \<Rightarrow> None)
               | _ \<Rightarrow> None)))"

definition children :: "entity_graph \<Rightarrow> string \<Rightarrow> hdict list" where
  "children g rv = List.map_filter (map_of (entities g)) (refs_to g rv None)"

definition equip_points ::
  "(string \<Rightarrow> string + filter_node) \<Rightarrow> entity_graph \<Rightarrow> string \<Rightarrow> string option \<Rightarrow>
   (graph_error, hdict list) res" where
  "equip_points parse g equip_ref flt =
     (let points = filter (\<lambda>e. dict_has e ''point'') (children g equip_ref)
      in case flt of
           None \<Rightarrow> Inr points
         | Some expr \<Rightarrow>
             (case parse expr of
                Inl msg \<Rightarrow> Inl (Err (FilterError msg))
              | Inr ast \<Rightarrow>
                  rbind (reject_unresolved_specs ast (graph_ns g))
                    (\<lambda>_. Inr (filter (graph_matches g ast) points))))"

end
