(* ===== verification/Entity_Query_Correct.thy ===== *)
theory Entity_Query_Correct
  imports Entity_Query
begin

text \<open>
  Correctness of the read side: the index-based candidate set never loses a match, so a query
  returns the matching entities and only them; the caches do not change what a query returns; and
  the traversal operations read the reference structure off the stored entities.
\<close>

section \<open>Candidates are complete\<close>

lemma compare_eq_number:
  "compare_eq actual (KNumber b) \<Longrightarrow> \<exists>a. actual = KNumber a \<and> num_val a = num_val b"
  by (cases actual) (auto simp: compare_eq_def number_eq_def)

lemma compare_eq_str: "compare_eq actual (KStr s) \<Longrightarrow> actual = KStr s"
  by (cases actual) (auto simp: compare_eq_def)

lemma ordered_number:
  "ordered_cmp_kinds actual (KNumber b) = Some ord \<Longrightarrow>
   \<exists>a. actual = KNumber a \<and> \<not> f64_is_nan (num_val a) \<and> \<not> f64_is_nan (num_val b) \<and>
     ord = cmp (f64_key (num_val a)) (f64_key (num_val b))"
  by (cases actual) (auto simp: number_partial_cmp_def f64_partial_cmp_def split: if_splits)

lemma ordered_str:
  "ordered_cmp_kinds actual (KStr b) = Some ord \<Longrightarrow> \<exists>a. actual = KStr a \<and> ord = cmp a b"
  by (cases actual) auto

lemma f64_key_zero [simp]: "f64_key 0 = 0" "\<not> f64_is_nan 0"
  by (simp_all add: f64_key_def f64_mag_def f64_is_nan_def)

lemma orderable_le_simps:
  "ONum (OrderedF64 a) < ONum (OrderedF64 b) \<longleftrightarrow> f64_total_key a < f64_total_key b"
  "ONum (OrderedF64 a) \<le> ONum (OrderedF64 b) \<longleftrightarrow> f64_total_key a \<le> f64_total_key b"
  "OStr s < OStr t \<longleftrightarrow> s < t"
  "OStr s \<le> OStr t \<longleftrightarrow> s \<le> t"
  by (auto simp: less_orderable_kind_def less_eq_orderable_kind_def ordered_f64_less ordered_f64_le
      cmp_def not_less not_le)

text \<open>The keys a range lookup visits for an operator.\<close>

fun key_in :: "cmp_op \<Rightarrow> orderable_kind \<Rightarrow> orderable_kind \<Rightarrow> bool" where
  "key_in OpLt k key = (k < key)"
| "key_in OpLe k key = (k \<le> key)"
| "key_in OpGt k key = (key < k)"
| "key_in OpGe k key = (key \<le> k)"
| "key_in OpEq k key = (k = key)"
| "key_in OpNe k key = False"

lemma cmp_lookup_keys:
  assumes "vidx_inv vi" and "cmp_lookup vi f op val = Some ids"
  shows "\<exists>key. orderable_from_kind val = Some key \<and>
    set ids = {n. \<exists>k. (n, f, k) \<in> vidx_entries vi \<and> key_in op k key}"
  using assms(2)
  by (cases val; cases op)
    (auto simp: cmp_lookup_def set_eq_lookup lt_lookup_def le_lookup_def
      gt_lookup_def ge_lookup_def set_range_lookup [OF assms(1)] split: if_splits)

lemma number_in_range:
  assumes "ordered_cmp (KNumber a) op (KNumber b)" and "\<not> f64_eq (num_val b) 0"
  shows "key_in op (ONum (OrderedF64 (num_val a))) (ONum (OrderedF64 (num_val b)))"
proof -
  have nan: "\<not> f64_is_nan (num_val a)" "\<not> f64_is_nan (num_val b)" "num_unit a = num_unit b"
    using compare_number_order [OF assms(1)] by simp_all
  then have nz: "f64_key (num_val b) \<noteq> 0"
    using assms(2) by (simp add: f64_eq_def)
  have "ordered_cmp_kinds (KNumber a) (KNumber b) =
      Some (cmp (f64_key (num_val a)) (f64_key (num_val b)))"
    using nan by (simp add: number_partial_cmp_def f64_partial_cmp_def)
  then show ?thesis
    using assms(1) f64_key_less_total [of "num_val a" "num_val b"]
      f64_key_less_total [of "num_val b" "num_val a"]
      f64_key_le_total [OF _ nz, of "num_val a"] f64_key_ge_total [OF _ nz, of "num_val a"]
    by (cases op) (auto simp: ordered_cmp_def orderable_le_simps)
qed

lemma str_in_range: "ordered_cmp (KStr a) op (KStr b) \<Longrightarrow> key_in op (OStr a) (OStr b)"
  by (cases op) (auto simp: ordered_cmp_def orderable_le_simps)

lemma ordered_cmp_same_kind:
  "ordered_cmp actual op (KNumber b) \<Longrightarrow> \<exists>a. actual = KNumber a"
  "ordered_cmp actual op (KStr s) \<Longrightarrow> \<exists>a. actual = KStr a"
  by (cases actual; simp add: ordered_cmp_def)+

text \<open>A value that passes a comparison is found by the corresponding lookup.\<close>

lemma compare_in_range:
  assumes "cmp_lookup vi f op val = Some ids" and "compare actual op val"
    and "orderable_from_kind val = Some key"
  shows "\<exists>k. orderable_from_kind actual = Some k \<and> key_in op k key"
proof (cases "op = OpEq")
  case True
  then show ?thesis
    using assms compare_eq_number compare_eq_str by (cases val) (fastforce simp: compare_def)+
next
  case False
  moreover have "op \<noteq> OpNe" using assms(1) by (cases val) (auto simp: cmp_lookup_def split: if_splits)
  ultimately have holds: "ordered_cmp actual op val"
    using assms(2) by (cases op) (simp_all add: compare_def)
  show ?thesis
  proof (cases val)
    case (KNumber b)
    then obtain a where "actual = KNumber a" using holds ordered_cmp_same_kind by blast
    moreover have "\<not> f64_eq (num_val b) 0"
      using assms(1) False KNumber by (auto simp: cmp_lookup_def split: if_splits)
    ultimately show ?thesis using holds KNumber assms(3) number_in_range by auto
  next
    case (KStr s)
    then obtain a where "actual = KStr a" using holds ordered_cmp_same_kind by blast
    then show ?thesis using holds KStr assms(3) str_in_range by auto
  qed (use assms(3) in simp_all)
qed

section \<open>Candidate sets\<close>

abbreviation universe :: "entity_graph \<Rightarrow> bitmap" where
  "universe g \<equiv> as_u32 ` set (map snd (id_map g))"

lemma resolve_single: "path_is_single p \<Longrightarrow> resolve_path p e ctx = dict_get e (path_first p)"
  by (cases p) simp

lemma rows_bound: "graph_inv g \<Longrightarrow> rows g n = Some e \<Longrightarrow> n \<le> U32_MAX"
  by (auto simp: graph_inv_def rows_of_def bind_eq_Some_conv intro: ids_ok_bound)

lemma rows_stored:
  assumes "graph_inv g"
  shows "rows g n = Some e \<longleftrightarrow> (\<exists>rv. map_of (id_map g) rv = Some n \<and> map_of (entities g) rv = Some e)"
  using assms ids_ok_inverse [of "id_map g" "reverse_id g"]
  by (auto simp: graph_inv_def rows_of_def bind_eq_Some_conv)

lemma rows_in_universe:
  assumes "graph_inv g" and "rows g n = Some e"
  shows "n \<in> universe g"
proof -
  obtain rv where "map_of (id_map g) rv = Some n" using assms rows_stored by blast
  then have "n \<in> set (map snd (id_map g))" by (force dest: map_of_SomeD)
  moreover have "as_u32 n = n" using rows_bound [OF assms] by simp
  ultimately show ?thesis by (metis imageI)
qed

lemma graph_indexes:
  assumes "graph_inv g"
  shows "tag_inv (g_tags g)" and "vidx_inv (g_values g)" and "adj_inv (adjacency g)"
    and "(n, t) \<in> tag_entries (g_tags g) \<longleftrightarrow> (\<exists>e. rows g n = Some e \<and> dict_get e t \<noteq> None)"
    and "(n, f, k) \<in> vidx_entries (g_values g) \<longleftrightarrow>
      (\<exists>e. rows g n = Some e \<and> (f, k) \<in> vidx_keys (g_values g) e)"
    and "(n, t, v) \<in> adj_entries (adjacency g) \<longleftrightarrow> (\<exists>e. rows g n = Some e \<and> (t, v) \<in> ref_edges e)"
  using assms
  by (auto simp: graph_inv_def indexes_ok_def index_exact_def tag_keys_def adj_keys_def)

text \<open>Index acceleration over-selects at most: every entity that matches is a candidate.\<close>

lemma candidates_complete:
  assumes "graph_inv g" and "rows g n = Some e"
    and "bitmap_candidates ast (g_tags g) (g_values g) (universe g) = Some bm"
    and "graph_matches g ast e"
  shows "n \<in> bm"
  using assms(3,4)
proof (induction ast arbitrary: bm)
  case (Has p)
  then show ?case
    using assms(2) has_tag_bitmap_at [of "g_tags g" "path_first p" bm] graph_indexes(4) [OF assms(1)]
    by (auto simp: graph_matches_def resolve_single split: if_splits)
next
  case (Missing p)
  then obtain b where p: "path_is_single p" "has_tag (g_tags g) (path_first p) = Some b"
      "bm = universe g - b"
    by (auto simp: negate_def split: if_splits)
  then have "n \<notin> b"
    using Missing.prems(2) assms(2) has_tag_bitmap_at [OF p(2)] graph_indexes(4) [OF assms(1)]
    by (auto simp: graph_matches_def resolve_single)
  with p(3) rows_in_universe [OF assms(1,2)] show ?case by simp
next
  case (Cmp p op val)
  then obtain ids where p: "path_is_single p" "has_index (g_values g) (path_first p)"
      "cmp_lookup (g_values g) (path_first p) op val = Some ids" "bm = set (map as_u32 ids)"
    by (auto split: if_splits)
  obtain actual where actual: "dict_get e (path_first p) = Some actual" "compare actual op val"
    using Cmp.prems(2) p(1) by (auto simp: graph_matches_def resolve_single split: option.splits)
  obtain key where key: "orderable_from_kind val = Some key"
      "set ids = {n. \<exists>k. (n, path_first p, k) \<in> vidx_entries (g_values g) \<and> key_in op k key}"
    using cmp_lookup_keys [OF graph_indexes(2) [OF assms(1)] p(3)] by blast
  obtain k where "orderable_from_kind actual = Some k" "key_in op k key"
    using compare_in_range [OF p(3) actual(2) key(1)] by blast
  moreover from this(1) have "(n, path_first p, k) \<in> vidx_entries (g_values g)"
    using graph_indexes(5) [OF assms(1)] assms(2) p(2) actual(1) by (simp add: vidx_keys_def)
  ultimately have "n \<in> set ids" using key(2) by blast
  moreover have "as_u32 n = n" using rows_bound [OF assms(1,2)] by simp
  ultimately show ?case unfolding p(4) by (metis image_eqI set_map)
next
  case (And l r)
  then show ?case by (auto simp: graph_matches_def split: option.splits)
next
  case (Or l r)
  then show ?case by (auto simp: graph_matches_def split: option.splits)
qed simp

lemma candidates_finite:
  assumes "graph_inv g"
    and "bitmap_candidates ast (g_tags g) (g_values g) (universe g) = Some bm"
  shows "finite bm"
  using assms(2)
proof (induction ast arbitrary: bm)
  case (Has p)
  then show ?case
    using graph_indexes(1) [OF assms(1)] by (auto simp: has_tag_def tag_inv_def split: if_splits)
qed (auto simp: negate_def split: if_splits option.splits)

section \<open>Query results\<close>

lemma collect_upto_eq:
  "length results \<le> n \<Longrightarrow>
   collect_upto n f xs results = results @ take (n - length results) (List.map_filter f xs)"
proof (induction n f xs results rule: collect_upto.induct)
  case (2 n f x xs results)
  show ?case
  proof (cases "n \<le> length results")
    case True
    with "2.prems" show ?thesis by simp
  next
    case False
    then show ?thesis
    proof (cases "f x")
      case None
      with False "2.IH" show ?thesis by (simp add: map_filter_simps)
    next
      case (Some y)
      have "n - length results = Suc (n - Suc (length results))" using False by simp
      with Some False "2.IH" show ?thesis by (simp add: map_filter_simps)
    qed
  qed
qed (simp add: map_filter_simps)

lemma set_map_filter_eq: "set (List.map_filter f xs) = {y. \<exists>x \<in> set xs. f x = Some y}"
  by (induction xs) (auto simp: map_filter_simps split: option.splits)

lemma distinct_map_filter:
  assumes "distinct xs" and "\<And>x y z. x \<in> set xs \<Longrightarrow> y \<in> set xs \<Longrightarrow> f x = Some z \<Longrightarrow> f y = Some z \<Longrightarrow> x = y"
  shows "distinct (List.map_filter f xs)"
  using assms
proof (induction xs)
  case (Cons a xs)
  then have "distinct (List.map_filter f xs)" by (metis distinct.simps(2) list.set_intros(2))
  moreover have "y \<notin> set (List.map_filter f xs)" if "f a = Some y" for y
  proof
    assume "y \<in> set (List.map_filter f xs)"
    then obtain x where "x \<in> set xs" "f x = Some y" by (auto simp: set_map_filter_eq)
    with Cons.prems that show False by (metis distinct.simps(2) list.set_intros)
  qed
  ultimately show ?case by (simp add: map_filter_simps split: option.split)
qed (simp add: map_filter_simps)

text \<open>The stored entities a filter selects, and what it means to return them.\<close>

definition selected :: "entity_graph \<Rightarrow> filter_node \<Rightarrow> hdict set" where
  "selected g ast = {e. \<exists>rv. map_of (entities g) rv = Some e \<and> graph_matches g ast e}"

definition returns_selected :: "entity_graph \<Rightarrow> filter_node \<Rightarrow> nat \<Rightarrow> hdict list \<Rightarrow> bool" where
  "returns_selected g ast limit res \<longleftrightarrow>
     (\<exists>all. distinct all \<and> set all = selected g ast \<and>
        res = (if limit = 0 then all else take limit all))"

lemma stored_id:
  "graph_inv g \<Longrightarrow> map_of (entities g) rv = Some e \<Longrightarrow> has_id e rv \<and> dict_wf e"
  using ents_ok_get [of "entities g" "id_map g"] by (simp add: graph_inv_def)

lemma has_id_unique: "has_id e rv \<Longrightarrow> has_id e rv' \<Longrightarrow> rv = rv'"
  by (auto simp: has_id_def)

lemma result_ref_iff: "result_ref e = Some rv \<longleftrightarrow> has_id e rv"
  by (auto simp: result_ref_def has_id_def split: option.splits kind.splits)

lemma rows_inj:
  assumes "graph_inv g" and "rows g n = Some e" and "rows g m = Some e"
  shows "n = m"
proof -
  obtain rv rv' where "map_of (id_map g) rv = Some n" "map_of (entities g) rv = Some e"
      "map_of (id_map g) rv' = Some m" "map_of (entities g) rv' = Some e"
    using assms rows_stored [OF assms(1)] by auto
  moreover from this have "rv = rv'" using stored_id [OF assms(1)] has_id_unique by blast
  ultimately show ?thesis by simp
qed

lemma rows_of_stored:
  assumes "graph_inv g" and "map_of (entities g) rv = Some e"
  shows "\<exists>n. rows g n = Some e"
  using assms rows_stored [OF assms(1)] graph_inv_Some [OF assms] by metis

lemma length_entities:
  assumes "graph_inv g"
  shows "length (entities g) \<le> Suc U32_MAX"
proof -
  have wf: "distinct (map fst (entities g))"
    using assms by (simp add: graph_inv_def ents_ok_def bt_wf_distinct)
  have "length (entities g) = card (set (map fst (entities g)))"
    using distinct_card [OF wf] by simp
  also have "\<dots> = card (dom (map_of (entities g)))"
    by (simp add: dom_map_of_conv_image_fst)
  also have "\<dots> = card (dom (map_of (id_map g)))"
    using assms by (simp add: graph_inv_def ents_ok_def)
  also have "\<dots> \<le> next_id g"
    using assms card_ids by (auto simp: graph_inv_def dest!: card_ids)
  also have "\<dots> \<le> Suc U32_MAX"
    using assms by (simp add: graph_inv_def ids_ok_def)
  finally show ?thesis .
qed

lemma distinct_stored: "graph_inv g \<Longrightarrow> distinct (map snd (entities g))"
proof -
  assume inv: "graph_inv g"
  have wf: "bt_wf (entities g)" using inv by (simp add: graph_inv_def ents_ok_def)
  have "inj_on snd (set (entities g))"
  proof (rule inj_onI)
    fix p q assume pq: "p \<in> set (entities g)" "q \<in> set (entities g)" "snd p = snd q"
    then have "has_id (snd p) (fst p)" "has_id (snd p) (fst q)"
      using stored_id [OF inv] bt_in_set_iff [OF wf] by (metis prod.collapse)+
    with pq(3) show "p = q" by (metis has_id_unique prod.collapse)
  qed
  moreover have "distinct (entities g)"
    using bt_wf_distinct [OF wf] by (simp add: distinct_map)
  ultimately show ?thesis by (simp add: distinct_map)
qed

lemma set_stored:
  assumes "graph_inv g"
  shows "set (map snd (entities g)) = {e. \<exists>rv. map_of (entities g) rv = Some e}"
proof -
  have "bt_wf (entities g)" using assms by (simp add: graph_inv_def ents_ok_def)
  from bt_in_set_iff [OF this] show ?thesis by auto (metis snd_conv imageI)
qed

lemma finite_selected:
  assumes "graph_inv g" and "distinct all" and "set all = selected g ast"
  shows "length all \<le> USIZE_MAX"
proof -
  have "selected g ast \<subseteq> set (map snd (entities g))"
    by (force simp: selected_def dest: map_of_SomeD)
  then have "card (set all) \<le> length (map snd (entities g))"
    unfolding assms(3) by (metis List.finite_set card_length card_mono le_trans)
  also have "\<dots> \<le> Suc U32_MAX" using length_entities [OF assms(1)] by simp
  finally show ?thesis using distinct_card [OF assms(2)] by (simp add: U32_MAX_def USIZE_MAX_def)
qed

lemma returns_selectedI:
  assumes "graph_inv g" and "distinct all" and "set all = selected g ast"
  shows "returns_selected g ast limit (take (effective_limit limit) all)"
  using assms finite_selected [OF assms]
  by (auto simp: returns_selected_def effective_limit_def)

lemma query_results_ok:
  assumes inv: "graph_inv g"
  shows "\<exists>all. distinct all \<and> set all = selected g ast \<and> query_results g ast eff = take eff all"
proof (cases "bitmap_candidates ast (g_tags g) (g_values g) (universe g)")
  case None
  define all where "all = List.map_filter (\<lambda>e. if graph_matches g ast e then Some e else None) (map snd (entities g))"
  have "query_results g ast eff = take eff all"
    by (simp add: query_results_def None collect_upto_eq all_def del: set_map)
  moreover have "distinct all"
    unfolding all_def by (rule distinct_map_filter [OF distinct_stored [OF inv]]) (simp split: if_splits)
  moreover have "set all = selected g ast"
    by (auto simp: all_def set_map_filter_eq set_stored [OF inv] selected_def simp del: set_map
        split: if_splits)
  ultimately show ?thesis by blast
next
  case (Some bm)
  define f where "f = (\<lambda>eid. case rows g eid of None \<Rightarrow> None
    | Some e \<Rightarrow> if graph_matches g ast e then Some e else None)"
  have f: "(\<lambda>eid. case map_of (reverse_id g) eid of None \<Rightarrow> None
      | Some rv \<Rightarrow> (case map_of (entities g) rv of None \<Rightarrow> None
         | Some e \<Rightarrow> if graph_matches g ast e then Some e else None)) = f"
    by (auto simp: f_def rows_of_def fun_eq_iff split: option.splits)
  have fin: "finite bm" using candidates_finite [OF inv Some] .
  define all where "all = List.map_filter f (iter_set_bits bm)"
  have "query_results g ast eff = take eff all"
    by (simp add: query_results_def Some f collect_upto_eq all_def del: set_map)
  moreover have "distinct all"
    unfolding all_def
    by (rule distinct_map_filter) (auto simp: iter_set_bits_def f_def intro: rows_inj [OF inv] split: option.splits if_splits)
  moreover have "e \<in> set all \<longleftrightarrow> e \<in> selected g ast" for e
  proof
    assume "e \<in> set all"
    then obtain n where "rows g n = Some e" "graph_matches g ast e"
      by (auto simp: all_def set_map_filter_eq f_def split: option.splits if_splits)
    then show "e \<in> selected g ast" using rows_stored [OF inv] by (auto simp: selected_def)
  next
    assume "e \<in> selected g ast"
    then obtain rv where e: "map_of (entities g) rv = Some e" "graph_matches g ast e"
      by (auto simp: selected_def)
    then obtain n where n: "rows g n = Some e" using rows_of_stored [OF inv] by blast
    then have "n \<in> bm" using candidates_complete [OF inv n Some e(2)] by simp
    with n e fin show "e \<in> set all"
      by (auto simp: all_def set_map_filter_eq f_def iter_set_bits_def intro!: bexI [of _ n])
  qed
  ultimately show ?thesis by blast
qed

section \<open>The caches\<close>

definition selected_refs :: "entity_graph \<Rightarrow> filter_node \<Rightarrow> string set" where
  "selected_refs g ast = {rv. \<exists>e. map_of (entities g) rv = Some e \<and> graph_matches g ast e}"

text \<open>A cached syntax tree is what the parser returns, and a result cached for the current
  version is the current selection.\<close>

definition caches_ok :: "(string \<Rightarrow> string + filter_node) \<Rightarrow> entity_graph \<Rightarrow> bool" where
  "caches_ok parse g \<longleftrightarrow>
     (\<forall>flt ast. map_of (ast_cache g) flt = Some ast \<longrightarrow> parse flt = Inr ast) \<and>
     (\<forall>flt refs. map_of (qc_entries (g_query_cache g)) (flt, version g) = Some refs \<longrightarrow>
        (\<exists>ast. parse flt = Inr ast \<and> unresolved_specs ast (graph_ns g) = [] \<and>
           distinct refs \<and> set refs = selected_refs g ast))"

text \<open>What a query depends on besides the caches.\<close>

definition same_data :: "entity_graph \<Rightarrow> entity_graph \<Rightarrow> bool" where
  "same_data g g' \<longleftrightarrow>
     entities g' = entities g \<and> id_map g' = id_map g \<and> reverse_id g' = reverse_id g \<and>
     adjacency g' = adjacency g \<and> g_namespace g' = g_namespace g \<and> version g' = version g"

lemma same_data_matches:
  assumes "same_data g g'"
  shows "graph_ns g' = graph_ns g" and "graph_matches g' = graph_matches g"
    and "selected g' = selected g" and "selected_refs g' = selected_refs g"
proof -
  show ns: "graph_ns g' = graph_ns g" using assms by (simp add: same_data_def graph_ns_def)
  have "graph_ctx g' = graph_ctx g" using assms by (simp add: same_data_def graph_ctx_def)
  with ns show m: "graph_matches g' = graph_matches g" by (simp add: fun_eq_iff graph_matches_def)
  show "selected g' = selected g" "selected_refs g' = selected_refs g"
    using assms m by (simp_all add: fun_eq_iff selected_def selected_refs_def same_data_def)
qed

lemma same_data_refl [simp]: "same_data g g"
  by (simp add: same_data_def)

lemma returns_selected_same: "same_data g g' \<Longrightarrow> returns_selected g' ast = returns_selected g ast"
  by (simp add: fun_eq_iff returns_selected_def same_data_matches)

lemma refs_to_entities:
  assumes "graph_inv g" and "distinct refs" and "set refs = selected_refs g ast"
  shows "distinct (List.map_filter (map_of (entities g)) refs)"
    and "set (List.map_filter (map_of (entities g)) refs) = selected g ast"
proof -
  show "distinct (List.map_filter (map_of (entities g)) refs)"
  proof (rule distinct_map_filter [OF assms(2)])
    fix x y z assume "map_of (entities g) x = Some z" "map_of (entities g) y = Some z"
    then show "x = y" using stored_id [OF assms(1)] has_id_unique by blast
  qed
  show "set (List.map_filter (map_of (entities g)) refs) = selected g ast"
    by (auto simp: set_map_filter_eq assms(3) selected_refs_def selected_def)
qed

lemma entities_to_refs:
  assumes "graph_inv g" and "distinct es" and "set es = selected g ast"
  shows "distinct (List.map_filter result_ref es)"
    and "set (List.map_filter result_ref es) = selected_refs g ast"
proof -
  show "distinct (List.map_filter result_ref es)"
  proof (rule distinct_map_filter [OF assms(2)])
    fix x y z assume "x \<in> set es" "y \<in> set es" "result_ref x = Some z" "result_ref y = Some z"
    then obtain a b where ab: "map_of (entities g) a = Some x" "map_of (entities g) b = Some y"
        "has_id x z" "has_id y z"
      by (auto simp: assms(3) selected_def result_ref_iff)
    then have "a = z" "b = z" using stored_id [OF assms(1)] has_id_unique by blast+
    with ab show "x = y" by simp
  qed
  show "set (List.map_filter result_ref es) = selected_refs g ast"
  proof (intro set_eqI iffI)
    fix z assume "z \<in> set (List.map_filter result_ref es)"
    then obtain x a where "map_of (entities g) a = Some x" "graph_matches g ast x" "has_id x z"
      by (auto simp: set_map_filter_eq assms(3) selected_def result_ref_iff)
    moreover from this have "a = z" using stored_id [OF assms(1)] has_id_unique by blast
    ultimately show "z \<in> selected_refs g ast" by (auto simp: selected_refs_def)
  next
    fix z assume "z \<in> selected_refs g ast"
    then obtain x where "map_of (entities g) z = Some x" "graph_matches g ast x"
      by (auto simp: selected_refs_def)
    then show "z \<in> set (List.map_filter result_ref es)"
      using stored_id [OF assms(1)] unfolding set_map_filter_eq assms(3) selected_def
      by (auto simp: result_ref_iff)
  qed
qed

lemma cached_ast_ok:
  assumes inv: "graph_inv g" and ok: "caches_ok parse g"
  obtains g' where "same_data g g'" and "graph_inv g'" and "caches_ok parse g'"
    and "g_query_cache g' = g_query_cache g"
    and "cached_ast parse flt g =
      (g', case parse flt of Inl msg \<Rightarrow> Inl (Err (FilterError msg)) | Inr ast \<Rightarrow> Inr ast)"
proof (cases "map_of (ast_cache g) flt")
  case (Some ast)
  then have "parse flt = Inr ast" using ok by (simp add: caches_ok_def)
  with Some inv ok show thesis by (intro that [of g]) (simp_all add: cached_ast_def)
next
  case None
  show thesis
  proof (cases "parse flt")
    case (Inl msg)
    with None inv ok show thesis by (intro that [of g]) (simp_all add: cached_ast_def)
  next
    case (Inr ast)
    define cache where "cache = (if MAX_AST_CACHE_SIZE \<le> length (ast_cache g) then [] else ast_cache g)"
    define g' where "g' = g\<lparr>ast_cache := AList.update flt ast cache\<rparr>"
    have "same_data g g'" by (simp add: g'_def same_data_def)
    have "length (AList.update flt ast cache) \<le> MAX_AST_CACHE_SIZE" "hm_wf (AList.update flt ast cache)"
      using inv by (auto simp: cache_def hm_length_update MAX_AST_CACHE_SIZE_def graph_inv_def)
    then have "graph_inv g'" using inv by (simp add: g'_def graph_inv_def feed_inv_def)
    moreover have "parse x = Inr y" if "map_of (AList.update flt ast cache) x = Some y" for x y
      using that ok Inr by (auto simp: cache_def caches_ok_def split: if_splits)
    then have "caches_ok parse g'"
      using ok same_data_matches [OF \<open>same_data g g'\<close>] by (simp add: g'_def caches_ok_def)
    ultimately show thesis
      using None Inr \<open>same_data g g'\<close>
      by (intro that [of g']) (simp_all add: cached_ast_def g'_def cache_def)
  qed
qed

text \<open>The specification of a query: parse, refuse unknown specs, return the selection.\<close>

definition query_spec ::
  "(string \<Rightarrow> string + filter_node) \<Rightarrow> string \<Rightarrow> nat \<Rightarrow> entity_graph \<Rightarrow>
   (graph_error, hdict list) res \<Rightarrow> bool" where
  "query_spec parse flt limit g r \<longleftrightarrow>
     (case parse flt of
        Inl msg \<Rightarrow> r = Inl (Err (FilterError msg))
      | Inr ast \<Rightarrow>
          (case reject_unresolved_specs ast (graph_ns g) of
             Inl e \<Rightarrow> r = Inl e
           | Inr _ \<Rightarrow> (\<exists>res. r = Inr res \<and> returns_selected g ast limit res)))"

lemma reject_iff: "reject_unresolved_specs ast ns = Inr () \<longleftrightarrow> unresolved_specs ast ns = []"
  by (simp add: reject_unresolved_specs_def Let_def)

lemma cache_fill_ok:
  assumes inv: "graph_inv g" and ok: "caches_ok parse g" and parse: "parse flt = Inr ast"
    and specs: "unresolved_specs ast (graph_ns g) = []"
    and refs: "distinct refs" "set refs = selected_refs g ast"
  defines "g' \<equiv> g\<lparr>g_query_cache := qc_insert flt (version g) refs (g_query_cache g)\<rparr>"
  shows "same_data g g' \<and> graph_inv g' \<and> caches_ok parse g'"
proof -
  have same: "same_data g g'" by (simp add: g'_def same_data_def)
  have qc: "qc_inv (version g) (g_query_cache g)" using inv by (simp add: graph_inv_def)
  then have wf: "hm_wf (qc_entries (g_query_cache g))" by (simp add: qc_inv_def)
  have "graph_inv g'"
    using inv qc_inv_insert [OF qc] by (simp add: g'_def graph_inv_def feed_inv_def)
  moreover have "\<exists>a. parse x = Inr a \<and> unresolved_specs a (graph_ns g) = [] \<and>
      distinct r \<and> set r = selected_refs g a"
    if "map_of (qc_entries (g_query_cache g')) (x, version g) = Some r" for x r
  proof (cases "x = flt \<and> r = refs")
    case True
    then show ?thesis using parse specs refs by auto
  next
    case False
    from qc_insert_lookup(2) [OF wf, of flt "version g" refs "(x, version g)" r] that False
    have "map_of (qc_entries (g_query_cache g)) (x, version g) = Some r" by (auto simp: g'_def)
    then show ?thesis using ok by (auto simp: caches_ok_def)
  qed
  then have "caches_ok parse g'"
    using ok same_data_matches [OF same] by (simp add: caches_ok_def g'_def)
  ultimately show ?thesis using same by blast
qed

text \<open>A query that misses the cache.\<close>

definition read_miss ::
  "(string \<Rightarrow> string + filter_node) \<Rightarrow> string \<Rightarrow> nat \<Rightarrow> entity_graph \<Rightarrow>
   entity_graph \<times> (graph_error, hdict list) res" where
  "read_miss parse flt limit g =
     (case cached_ast parse flt g of
        (g, Inl e) \<Rightarrow> (g, Inl e)
      | (g, Inr ast) \<Rightarrow>
          (case reject_unresolved_specs ast (graph_ns g) of
             Inl e \<Rightarrow> (g, Inl e)
           | Inr _ \<Rightarrow>
               (let results = query_results g ast (effective_limit limit) in
                if limit = 0
                then (g\<lparr>g_query_cache := qc_insert flt (version g) (List.map_filter result_ref results)
                         (g_query_cache g)\<rparr>, Inr results)
                else (g, Inr results))))"

lemma read_miss_ok:
  assumes inv: "graph_inv g" and ok: "caches_ok parse g" and res: "read_miss parse flt limit g = (g', r)"
  shows "same_data g g' \<and> graph_inv g' \<and> caches_ok parse g' \<and> query_spec parse flt limit g r"
proof -
  obtain g2 where g2: "same_data g g2" "graph_inv g2" "caches_ok parse g2"
    and ast: "cached_ast parse flt g =
      (g2, case parse flt of Inl msg \<Rightarrow> Inl (Err (FilterError msg)) | Inr ast \<Rightarrow> Inr ast)"
    using cached_ast_ok [OF inv ok] by blast
  note m = same_data_matches [OF g2(1)]
  show ?thesis
  proof (cases "parse flt")
    case (Inl msg)
    then show ?thesis using res g2 ast by (simp add: read_miss_def query_spec_def)
  next
    case (Inr a)
    show ?thesis
    proof (cases "reject_unresolved_specs a (graph_ns g)")
      case (Inl e)
      then show ?thesis using res g2 ast Inr m(1) by (simp add: read_miss_def query_spec_def)
    next
      case ok_specs: (Inr u)
      obtain all where all: "distinct all" "set all = selected g2 a"
          "query_results g2 a (effective_limit limit) = take (effective_limit limit) all"
        using query_results_ok [OF g2(2)] by blast
      have ret: "returns_selected g a limit (take (effective_limit limit) all)"
        using returns_selectedI [OF g2(2) all(1,2), of limit] returns_selected_same [OF g2(1)] by simp
      show ?thesis
      proof (cases "limit = 0")
        case False
        then show ?thesis
          using res g2 ast Inr m(1) ok_specs all(3) ret by (auto simp: read_miss_def query_spec_def Let_def)
      next
        case True
        have full: "take (effective_limit limit) all = all"
          using finite_selected [OF g2(2) all(1,2)] True by (simp add: effective_limit_def)
        note refs = entities_to_refs [OF g2(2) all(1,2)]
        have "unresolved_specs a (graph_ns g2) = []"
          using ok_specs m(1) by (simp add: reject_iff [symmetric])
        from cache_fill_ok [OF g2(2,3) Inr this refs] g2(1)
        show ?thesis
          using res ast Inr m(1) ok_specs all(3) ret True full
          by (auto simp: read_miss_def query_spec_def Let_def same_data_def)
      qed
    qed
  qed
qed

lemma read_all_ok:
  assumes inv: "graph_inv g" and ok: "caches_ok parse g"
  shows "same_data g (fst (read_all parse flt limit g)) \<and>
    graph_inv (fst (read_all parse flt limit g)) \<and>
    caches_ok parse (fst (read_all parse flt limit g)) \<and>
    query_spec parse flt limit g (snd (read_all parse flt limit g))"
proof -
  have wf: "hm_wf (qc_entries (g_query_cache g))" and qc: "qc_inv (version g) (g_query_cache g)"
    using inv by (simp_all add: graph_inv_def qc_inv_def)
  define hit c where "hit = fst (qc_get flt (version g) (g_query_cache g))"
    and "c = snd (qc_get flt (version g) (g_query_cache g))"
  have get: "qc_get flt (version g) (g_query_cache g) = (hit, c)" by (simp add: hit_def c_def)
  have hit: "hit = map_of (qc_entries (g_query_cache g)) (flt, version g)"
    and c: "map_of (qc_entries c) = map_of (qc_entries (g_query_cache g))" "qc_inv (version g) c"
    using qc_get_lookup [OF wf] qc_inv_get [OF qc] by (simp_all add: hit_def c_def)
  define g1 where "g1 = g\<lparr>g_query_cache := c\<rparr>"
  have g1: "same_data g g1" by (simp add: g1_def same_data_def)
  have inv1: "graph_inv g1" using inv c(2) by (simp add: g1_def graph_inv_def feed_inv_def)
  have ok1: "caches_ok parse g1"
    using ok same_data_matches [OF g1] c(1) by (simp add: g1_def caches_ok_def)
  show ?thesis
  proof (cases hit)
    case (Some refs)
    then obtain ast where ast: "parse flt = Inr ast" "unresolved_specs ast (graph_ns g) = []"
        "distinct refs" "set refs = selected_refs g ast"
      using ok hit unfolding caches_ok_def by metis
    have "read_all parse flt limit g =
        (g1, Inr (take (effective_limit limit) (List.map_filter (map_of (entities g)) refs)))"
      by (simp add: read_all_def get Some g1_def collect_upto_eq Let_def)
    moreover have "returns_selected g ast limit
        (take (effective_limit limit) (List.map_filter (map_of (entities g)) refs))"
      by (rule returns_selectedI [OF inv refs_to_entities [OF inv ast(3,4)]])
    ultimately show ?thesis
      using g1 inv1 ok1 ast(1) ast(2) [folded reject_iff] by (simp add: query_spec_def)
  next
    case None
    have "read_all parse flt limit g = read_miss parse flt limit g1"
      by (simp add: read_all_def read_miss_def get None g1_def Let_def cong: prod.case_cong sum.case_cong)
    moreover have "query_spec parse flt limit g1 = query_spec parse flt limit g"
      unfolding query_spec_def returns_selected_same [OF g1] same_data_matches(1) [OF g1] by (rule refl)
    ultimately show ?thesis
      using read_miss_ok [OF inv1 ok1, of flt limit] g1
      by (cases "read_miss parse flt limit g1") (simp add: same_data_def)
  qed
qed

section \<open>Reference traversal\<close>

lemma refs_to_exact:
  assumes "graph_inv g"
  shows "set (refs_to g rv rt) = {source. \<exists>e t. map_of (entities g) source = Some e \<and>
    (t, rv) \<in> ref_edges e \<and> (rt = None \<or> rt = Some t)}"
proof -
  have "source \<in> set (refs_to g rv rt) \<longleftrightarrow> (\<exists>n t. map_of (reverse_id g) n = Some source \<and>
      (n, t, rv) \<in> adj_entries (adjacency g) \<and> (rt = None \<or> rt = Some t))" for source
    using set_sources_to [OF graph_indexes(3) [OF assms], of rv rt]
    by (auto simp: refs_to_def set_map_filter_eq)
  also have "\<dots> source \<longleftrightarrow> (\<exists>n e t. map_of (reverse_id g) n = Some source \<and> rows g n = Some e \<and>
      (t, rv) \<in> ref_edges e \<and> (rt = None \<or> rt = Some t))" for source
    using graph_indexes(6) [OF assms] by blast
  also have "\<dots> source \<longleftrightarrow> (\<exists>e t. map_of (entities g) source = Some e \<and>
      (t, rv) \<in> ref_edges e \<and> (rt = None \<or> rt = Some t))" for source
  proof -
    have "(\<exists>n. map_of (reverse_id g) n = Some source \<and> rows g n = Some e) \<longleftrightarrow>
        map_of (entities g) source = Some e" for e
    proof
      assume e: "map_of (entities g) source = Some e"
      then obtain n where n: "map_of (id_map g) source = Some n" by (rule graph_inv_Some [OF assms])
      then have "map_of (reverse_id g) n = Some source"
        using assms ids_ok_inverse by (auto simp: graph_inv_def)
      with e show "\<exists>n. map_of (reverse_id g) n = Some source \<and> rows g n = Some e"
        by (auto simp: rows_of_def)
    qed (auto simp: rows_of_def)
    then show ?thesis by blast
  qed
  finally show ?thesis by blast
qed

lemma refs_from_exact:
  assumes "graph_inv g"
  shows "set (refs_from g rv rt) = {target. \<exists>e t. map_of (entities g) rv = Some e \<and>
    (t, target) \<in> ref_edges e \<and> (rt = None \<or> rt = Some t)}"
proof (cases "map_of (entities g) rv")
  case None
  with graph_inv_None [OF assms, of rv] have "map_of (id_map g) rv = None" by simp
  with None show ?thesis by (simp add: refs_from_def)
next
  case (Some e)
  then obtain n where n: "map_of (id_map g) rv = Some n" by (rule graph_inv_Some [OF assms])
  have "rows g n = Some e" using rows_stored [OF assms] n Some by blast
  then show ?thesis
    using n Some graph_indexes(6) [OF assms, of n]
    by (auto simp: refs_from_def set_targets_from)
qed

end
