(* ===== verification/Recovery.thy ===== *)
theory Recovery
  imports Graph_Spec
begin

text \<open>
  Durable images of a graph: \<open>graph/recovery.rs\<close>.

  \<open>image\<close> captures the authoritative rows and the retained log under limits; \<open>restore\<close>
  checks an image and rebuilds a graph from it.  The incarnation drawn by the constructor and the
  clock read while the rows are added are arguments; neither survives into the result.
\<close>

record recovery_limits =
  rl_max_rows :: nat
  rl_max_changes :: nat
  rl_max_bytes :: nat
  rl_max_work :: nat

definition recovery_limits_default :: recovery_limits where
  "recovery_limits_default =
     \<lparr>rl_max_rows = 4096, rl_max_changes = 4096, rl_max_bytes = 64 * 1024 * 1024,
      rl_max_work = 16000000\<rparr>"

datatype recovery_error = RecoveryInvalid | RecoveryLimit

record recovery_change =
  rc_version :: nat
  rc_span :: commit_span
  rc_timestamp :: int
  rc_op :: diff_op
  rc_id :: string
  rc_old :: "hdict option"
  rc_new :: "hdict option"
  rc_changed :: "hdict option"
  rc_previous :: "hdict option"

definition change_from_diff :: "graph_diff \<Rightarrow> recovery_change" where
  "change_from_diff d =
     \<lparr>rc_version = gd_version d, rc_span = gd_span d, rc_timestamp = gd_timestamp d,
      rc_op = gd_op d, rc_id = gd_ref_val d, rc_old = gd_old d, rc_new = gd_new d,
      rc_changed = gd_changed_tags d, rc_previous = gd_previous_tags d\<rparr>"

record graph_image =
  img_state :: graph_state
  img_rows :: "hdict list"
  img_floor :: nat
  img_changes :: "recovery_change list"

definition limits_validate :: "recovery_limits \<Rightarrow> (recovery_error, unit) res" where
  "limits_validate l =
     (if rl_max_rows l = 0 \<or> rl_max_rows l > 100000 \<or>
         rl_max_changes l = 0 \<or> rl_max_changes l > 100000 \<or>
         rl_max_bytes l = 0 \<or> rl_max_bytes l > 256 * 1024 * 1024 \<or>
         rl_max_work l = 0 \<or> rl_max_work l > 64000000
      then Inl (Err RecoveryLimit) else Inr ())"

definition limits_budget :: "recovery_limits \<Rightarrow> value_budget" where
  "limits_budget l = budget_new (rl_max_work l) (rl_max_bytes l) 64"

definition row_named :: "hdict option \<Rightarrow> string \<Rightarrow> bool" where
  "row_named row ident =
     (case row of
        None \<Rightarrow> False
      | Some r \<Rightarrow> (case dict_id r of None \<Rightarrow> False | Some i \<Rightarrow> ref_val i = ident))"

definition change_valid :: "recovery_change \<Rightarrow> bool" where
  "change_valid c =
     (case rc_op c of
        DiffAdd \<Rightarrow>
          row_named (rc_new c) (rc_id c) \<and> rc_old c = None \<and> rc_changed c = None \<and>
          rc_previous c = None
      | DiffRemove \<Rightarrow>
          row_named (rc_old c) (rc_id c) \<and> rc_new c = None \<and> rc_changed c = None \<and>
          rc_previous c = None
      | DiffUpdate \<Rightarrow>
          rc_new c = None \<and> rc_old c = None \<and> rc_changed c \<noteq> None \<and> rc_previous c \<noteq> None)"

definition into_diff :: "recovery_change \<Rightarrow> nat \<Rightarrow> (recovery_error, graph_diff) res" where
  "into_diff c limit =
     (if \<not> change_valid c \<or> rc_id c = [] \<or> length (rc_id c) > 4096 then Inl (Err RecoveryInvalid)
      else
        rbind (ok_or (Err RecoveryLimit)
          (diff_bytes (rc_id c)
            (List.map_filter (\<lambda>d. d) [rc_old c, rc_new c, rc_changed c, rc_previous c]) limit))
        (\<lambda>bytes. Inr
          \<lparr>gd_version = rc_version c, gd_span = rc_span c, gd_retained_bytes = bytes,
           gd_timestamp = rc_timestamp c, gd_op = rc_op c, gd_ref_val = rc_id c,
           gd_old = rc_old c, gd_new = rc_new c, gd_changed_tags = rc_changed c,
           gd_previous_tags = rc_previous c\<rparr>))"

fun charge_changes :: "graph_diff list \<Rightarrow> value_budget \<Rightarrow> value_budget option" where
  "charge_changes [] b = Some b"
| "charge_changes (d # ds) b =
     Option.bind (charge 1 (gd_retained_bytes d) b) (charge_changes ds)"

definition image :: "recovery_limits \<Rightarrow> entity_graph \<Rightarrow> (recovery_error, graph_image) res" where
  "image limits g =
     rbind (limits_validate limits) (\<lambda>_.
     if rl_max_rows limits < length (entities g) \<or> rl_max_changes limits < length (changelog g)
     then Inl (Err RecoveryLimit)
     else
     rbind (ok_or (Err RecoveryLimit)
       (budget_rows (map snd (entities g)) 0 (limits_budget limits))) (\<lambda>b.
     rbind (ok_or (Err RecoveryLimit) (charge_changes (changelog g) b)) (\<lambda>_.
     Inr \<lparr>img_state = graph_state g, img_rows = map snd (entities g), img_floor = floor_version g,
          img_changes = map change_from_diff (changelog g)\<rparr>)))"

text \<open>The replay log of an image: consecutive versions in complete units, each change checked and
  charged.  The result carries the last version, the unit left open, and the total size.\<close>

fun restore_changes ::
  "recovery_limits \<Rightarrow> nat \<Rightarrow> recovery_change list \<Rightarrow> nat \<Rightarrow> commit_span option \<Rightarrow> value_budget \<Rightarrow> nat \<Rightarrow>
   (recovery_error, nat \<times> commit_span option \<times> nat \<times> graph_diff list) res" where
  "restore_changes limits final [] previous span b bytes = Inr (previous, span, bytes, [])"
| "restore_changes limits final (c # cs) previous span b bytes =
     (if checked_add_u64 previous 1 \<noteq> Some (rc_version c) then Inl (Err RecoveryInvalid)
      else if (case span of
                 None \<Rightarrow>
                   span_first (rc_span c) \<noteq> rc_version c \<or> span_last (rc_span c) < rc_version c \<or>
                   final < span_last (rc_span c)
               | Some u \<Rightarrow> u \<noteq> rc_span c)
      then Inl (Err RecoveryInvalid)
      else
        (let span' = (if rc_version c = span_last (rc_span c) then None else Some (rc_span c)) in
         rbind (into_diff c (rl_max_bytes limits)) (\<lambda>diff.
         rbind (ok_or (Err RecoveryLimit) (charge 1 (gd_retained_bytes diff) b)) (\<lambda>b.
         rbind (ok_or (Err RecoveryLimit) (checked_add_usize bytes (gd_retained_bytes diff))) (\<lambda>bytes.
         rbind (restore_changes limits final cs (rc_version c) span' b bytes)
           (\<lambda>(p, s, y, ds). Inr (p, s, y, diff # ds)))))))"

fun restore_rows :: "int \<Rightarrow> hdict list \<Rightarrow> entity_graph \<Rightarrow> (recovery_error, entity_graph) res" where
  "restore_rows now [] g = Inr g"
| "restore_rows now (row # rs) g =
     (case add now row g of
        Inr (_, g') \<Rightarrow> restore_rows now rs g'
      | Inl (Err _) \<Rightarrow> Inl (Err RecoveryInvalid)
      | Inl Panic \<Rightarrow> Inl Panic)"

definition restore ::
  "8 word list \<Rightarrow> int \<Rightarrow> graph_image \<Rightarrow> activated_catalog arc \<Rightarrow> recovery_limits \<Rightarrow>
   (recovery_error, entity_graph) res" where
  "restore rand now img catalog limits =
     rbind (limits_validate limits) (\<lambda>_.
     if rl_max_rows limits < length (img_rows img) \<or> rl_max_changes limits < length (img_changes img)
     then Inl (Err RecoveryLimit)
     else if st_incarnation (img_state img) = replicate 16 0 \<or>
             st_catalog_generation (img_state img) = 0 \<or>
             st_revision (img_state img) < img_floor img
     then Inl (Err RecoveryInvalid)
     else
     rbind (ok_or (Err RecoveryLimit) (budget_rows (img_rows img) 0 (limits_budget limits))) (\<lambda>b.
     rbind (restore_changes limits (st_revision (img_state img)) (img_changes img) (img_floor img)
       None b 0) (\<lambda>(previous, span, bytes, changes).
     if previous \<noteq> st_revision (img_state img) \<or> span \<noteq> None then Inl (Err RecoveryInvalid)
     else
     let g = (with_changelog_limits rand 1 1)
               \<lparr>g_namespace := Some (cat_namespace (arc_val catalog)), activated := Some catalog\<rparr> in
     rbind (restore_rows now (img_rows img) g) (\<lambda>g.
     Inr (g\<lparr>incarnation := st_incarnation (img_state img), version := st_revision (img_state img),
            catalog_generation := st_catalog_generation (img_state img),
            floor_version := img_floor img, changelog := changes, changelog_bytes := bytes,
            changelog_capacity := rl_max_changes limits,
            changelog_byte_capacity := rl_max_bytes limits,
            g_query_cache := qc_clear (g_query_cache g)\<rparr>)))))"

section \<open>The checked log\<close>

text \<open>The sequence condition of \<open>restore_changes\<close> on its own.\<close>

fun follows :: "nat \<Rightarrow> nat \<Rightarrow> commit_span option \<Rightarrow> graph_diff list \<Rightarrow> bool" where
  "follows final previous span [] \<longleftrightarrow> previous = final \<and> span = None"
| "follows final previous span (d # ds) \<longleftrightarrow>
     gd_version d = Suc previous \<and>
     (case span of
        None \<Rightarrow>
          span_first (gd_span d) = Suc previous \<and> Suc previous \<le> span_last (gd_span d) \<and>
          span_last (gd_span d) \<le> final
      | Some u \<Rightarrow> u = gd_span d) \<and>
     follows final (Suc previous)
       (if Suc previous = span_last (gd_span d) then None else Some (gd_span d)) ds"

text \<open>What is left of a unit that is open after version \<open>p\<close>, and the units behind it.\<close>

definition open_unit :: "nat \<Rightarrow> nat \<Rightarrow> commit_span \<Rightarrow> graph_diff list \<Rightarrow> bool" where
  "open_unit final p s ds \<longleftrightarrow>
     (\<exists>u rest. ds = u @ rest \<and> map gd_version u = [Suc p..<Suc (span_last s)] \<and>
        (\<forall>d \<in> set u. gd_span d = s) \<and> retained (span_last s) rest final)"

lemma retained_Cons:
  "retained p (d # ds) final \<longleftrightarrow>
     gd_version d = Suc p \<and> span_first (gd_span d) = Suc p \<and> Suc p \<le> span_last (gd_span d) \<and>
     (if Suc p = span_last (gd_span d) then retained (Suc p) ds final
      else open_unit final (Suc p) (gd_span d) ds)"
  (is "?l \<longleftrightarrow> ?r")
proof
  assume ?l
  then obtain u l rest where u: "unit_ok p u l" "d # ds = u @ rest" "retained l rest final"
    by (auto elim: retained_ConsE)
  then obtain u' where u': "u = d # u'" "ds = u' @ rest"
    using unit_ok_not_Nil by (cases u) auto
  have s: "gd_span d = \<lparr>span_first = Suc p, span_last = l\<rparr>" "\<forall>d \<in> set u'. gd_span d = gd_span d"
    using u(1) by (auto simp: unit_ok_def u')
  have "p < l" "map gd_version (d # u') = [Suc p..<Suc l]"
    using u(1) by (simp_all add: unit_ok_def u' del: upt_Suc)
  then have v: "gd_version d = Suc p" "map gd_version u' = [Suc (Suc p)..<Suc l]"
    by (simp_all add: upt_conv_Cons del: upt_Suc)
  have "\<forall>x \<in> set u'. gd_span x = gd_span d" using u(1) s(1) by (simp add: unit_ok_def u')
  with s v u(3) u' \<open>p < l\<close> show ?r
    by (auto simp: open_unit_def simp del: upt_Suc)
next
  assume r: ?r
  define l where "l = span_last (gd_span d)"
  have s: "gd_span d = \<lparr>span_first = Suc p, span_last = l\<rparr>" using r by (simp add: l_def)
  show ?l
  proof (cases "Suc p = l")
    case True
    then have "unit_ok p [d] l" using r s by (simp add: unit_ok_def)
    from retained_unit [OF this, of ds final] show ?thesis using r True by (simp add: l_def)
  next
    case False
    with r obtain u rest where u: "ds = u @ rest" "map gd_version u = [Suc (Suc p)..<Suc l]"
        "\<forall>x \<in> set u. gd_span x = gd_span d" "retained l rest final"
      by (auto simp: open_unit_def l_def simp del: upt_Suc)
    have "gd_version d = Suc p" "p < l" using r by (simp_all add: l_def)
    then have "unit_ok p (d # u) l"
      using u(2,3) s by (simp add: unit_ok_def upt_conv_Cons del: upt_Suc)
    from retained_unit [OF this u(4)] show ?thesis by (simp add: u(1))
  qed
qed

lemma open_unit_Cons:
  assumes "p < span_last s"
  shows "open_unit final p s (d # ds) \<longleftrightarrow>
     gd_version d = Suc p \<and> gd_span d = s \<and>
     (if Suc p = span_last s then retained (Suc p) ds final else open_unit final (Suc p) s ds)"
  (is "?l \<longleftrightarrow> ?r")
proof
  assume ?l
  then obtain u rest where u: "d # ds = u @ rest" "map gd_version u = [Suc p..<Suc (span_last s)]"
      "\<forall>d \<in> set u. gd_span d = s" "retained (span_last s) rest final"
    by (auto simp: open_unit_def simp del: upt_Suc)
  then obtain u' where u': "u = d # u'" "ds = u' @ rest"
    using assms by (cases u) (auto simp: upt_conv_Cons simp del: upt_Suc)
  have "gd_version d = Suc p" "map gd_version u' = [Suc (Suc p)..<Suc (span_last s)]"
    using u(2) assms by (simp_all add: u' upt_conv_Cons del: upt_Suc)
  with u u' show ?r by (auto simp: open_unit_def simp del: upt_Suc)
next
  assume r: ?r
  show ?l
  proof (cases "Suc p = span_last s")
    case True
    with r show ?thesis unfolding open_unit_def by (intro exI [of _ "[d]"] exI [of _ ds]) simp
  next
    case False
    with r obtain u rest where "ds = u @ rest" "map gd_version u = [Suc (Suc p)..<Suc (span_last s)]"
        "\<forall>x \<in> set u. gd_span x = s" "retained (span_last s) rest final"
      by (auto simp: open_unit_def simp del: upt_Suc)
    with r assms show ?thesis unfolding open_unit_def
      by (intro exI [of _ "d # u"] exI [of _ rest]) (auto simp: upt_conv_Cons simp del: upt_Suc)
  qed
qed

lemma open_unit_last: "open_unit final p s ds \<Longrightarrow> span_last s \<le> final"
  using retained_versions by (auto simp: open_unit_def)

lemma follows_iff:
  "follows final p None ds \<longleftrightarrow> retained p ds final"
  "p < span_last s \<Longrightarrow> span_last s \<le> final \<Longrightarrow>
   follows final p (Some s) ds \<longleftrightarrow> open_unit final p s ds"
proof (induction ds arbitrary: p s)
  case Nil
  { case 1 show ?case by auto }
  { case 2 then show ?case by (auto simp: open_unit_def upt_conv_Cons simp del: upt_Suc) }
next
  case (Cons d ds)
  { case 1
    define s where "s = gd_span d"
    have "follows final p None (d # ds) \<longleftrightarrow> gd_version d = Suc p \<and> span_first s = Suc p \<and>
        Suc p \<le> span_last s \<and> span_last s \<le> final \<and>
        (if Suc p = span_last s then retained (Suc p) ds final else open_unit final (Suc p) s ds)"
      using Cons.IH(1) [of "Suc p"] Cons.IH(2) [of "Suc p" s] by (auto simp: s_def)
    moreover have "span_last s \<le> final" if "retained p (d # ds) final"
      using that retained_versions [of "Suc p" ds final] open_unit_last [of final "Suc p" s ds]
      by (auto simp: retained_Cons s_def split: if_splits)
    ultimately show ?case unfolding retained_Cons s_def by blast }
  { case 2
    then show ?case
      using Cons.IH(1) [of "Suc p"] Cons.IH(2) [of "Suc p" s]
      by (cases "Suc p = span_last s") (auto simp: open_unit_Cons) }
qed

lemma follows_length: "follows final p s ds \<Longrightarrow> p + length ds = final"
  by (induction final p s ds rule: follows.induct) auto

lemma into_diff_from: "into_diff c limit = Inr d \<Longrightarrow> change_from_diff d = c"
  by (auto simp: into_diff_def change_from_diff_def split: if_splits)

lemma restore_changes_sound:
  assumes "restore_changes limits final cs p s b y = Inr (p', s', y', ds)"
  shows "map change_from_diff ds = cs \<and> y' = y + bytes_of ds \<and> bytes_of ds \<le> bytes_left b \<and>
    (p' = final \<and> s' = None \<longrightarrow> follows final p s ds)"
  using assms
proof (induction limits final cs p s b y arbitrary: p' s' y' ds rule: restore_changes.induct)
  case (2 limits final c cs p s b y)
  define s1 where "s1 = (if rc_version c = span_last (rc_span c) then None else Some (rc_span c))"
  from "2.prems" obtain d b' ds' where d: "into_diff c (rl_max_bytes limits) = Inr d"
      "charge 1 (gd_retained_bytes d) b = Some b'"
      "checked_add_usize y (gd_retained_bytes d) = Some (y + gd_retained_bytes d)"
      "restore_changes limits final cs (rc_version c) s1 b' (y + gd_retained_bytes d) =
         Inr (p', s', y', ds')"
      "ds = d # ds'"
    and chk: "checked_add_u64 p 1 = Some (rc_version c)"
      "\<not> (case s of None \<Rightarrow> span_first (rc_span c) \<noteq> rc_version c \<or>
           span_last (rc_span c) < rc_version c \<or> final < span_last (rc_span c)
         | Some u \<Rightarrow> u \<noteq> rc_span c)"
    by (auto simp: Let_def checked_add_usize_eq_Some s1_def split: if_splits)
  have v: "rc_version c = Suc p" using chk(1) by (simp add: checked_add_u64_eq_Some)
  have c: "change_from_diff d = c" "gd_version d = rc_version c" "gd_span d = rc_span c"
    using into_diff_from [OF d(1)] by (auto simp: change_from_diff_def)
  have b': "bytes_left b' = bytes_left b - gd_retained_bytes d" "gd_retained_bytes d \<le> bytes_left b"
    using d(2) by (auto simp: charge_def split: if_splits)
  have IH: "map change_from_diff ds' = cs \<and> y' = y + gd_retained_bytes d + bytes_of ds' \<and>
      bytes_of ds' \<le> bytes_left b' \<and> (p' = final \<and> s' = None \<longrightarrow> follows final (rc_version c) s1 ds')"
    using "2.IH" chk d s1_def by auto
  with c chk(2) b' show ?case by (auto simp: d(5) v s1_def split: option.splits)
qed simp

lemma restore_changes_complete:
  assumes "follows final p s ds" and "\<forall>d \<in> set ds. into_diff (change_from_diff d) (rl_max_bytes limits) = Inr d"
    and "charge_changes ds b = Some b'" and "y + bytes_of ds \<le> USIZE_MAX" and "final \<le> U64_MAX"
  shows "restore_changes limits final (map change_from_diff ds) p s b y =
    Inr (final, None, y + bytes_of ds, ds)"
  using assms
proof (induction ds arbitrary: p s b y)
  case (Cons d ds)
  define s1 where "s1 = (if Suc p = span_last (gd_span d) then None else Some (gd_span d))"
  have v: "gd_version d = Suc p" "follows final (Suc p) s1 ds"
    using Cons.prems(1) by (auto simp: s1_def)
  from Cons.prems(3) obtain b1 where b1: "charge 1 (gd_retained_bytes d) b = Some b1"
      "charge_changes ds b1 = Some b'"
    by (auto simp: bind_eq_Some_conv)
  have "restore_changes limits final (map change_from_diff ds) (Suc p) s1 b1 (y + gd_retained_bytes d) =
      Inr (final, None, y + gd_retained_bytes d + bytes_of ds, ds)"
    using Cons.prems b1 v by (intro Cons.IH) simp_all
  moreover have "checked_add_u64 p 1 = Some (Suc p)"
    using follows_length [OF Cons.prems(1)] Cons.prems(5) by (simp add: checked_add_u64_def)
  moreover have "checked_add_usize y (gd_retained_bytes d) = Some (y + gd_retained_bytes d)"
    using Cons.prems(4) by (simp add: checked_add_usize_def)
  moreover have "rc_version (change_from_diff d) = Suc p" "rc_span (change_from_diff d) = gd_span d"
    using v by (simp_all add: change_from_diff_def)
  ultimately show ?case
    using Cons.prems(1,2) b1(1) by (auto simp: s1_def Let_def split: option.splits)
qed simp

lemma charge_changes_bytes: "charge_changes ds b = Some b' \<Longrightarrow> bytes_of ds \<le> bytes_left b"
proof (induction ds arbitrary: b)
  case (Cons d ds)
  then obtain b1 where "charge 1 (gd_retained_bytes d) b = Some b1" "bytes_of ds \<le> bytes_left b1"
    by (auto simp: bind_eq_Some_conv)
  then show ?case by (auto simp: charge_def split: if_splits)
qed simp

section \<open>Sizes of logged changes\<close>

text \<open>A change logged by the graph has the shape of its operation and the size that its rows
  have; \<open>restore\<close> computes the size of a patch from the two dictionaries, the graph from the
  patch and the row it replaces, and the two agree.\<close>

definition diff_rows :: "graph_diff \<Rightarrow> hdict list" where
  "diff_rows d =
     List.map_filter (\<lambda>x. x) [gd_old d, gd_new d, gd_changed_tags d, gd_previous_tags d]"

definition diff_ok :: "graph_diff \<Rightarrow> bool" where
  "diff_ok d \<longleftrightarrow>
     change_valid (change_from_diff d) \<and>
     (\<exists>limit. diff_bytes (gd_ref_val d) (diff_rows d) limit = Some (gd_retained_bytes d))"

lemma update_fresh: "k \<notin> fst ` set m \<Longrightarrow> AList.update k v m = m @ [(k, v)]"
  by (induction m) auto

lemma tags_previous_values:
  assumes "distinct (map fst ts)" and "fst ` set ts \<inter> fst ` set (tags prev) = {}"
  shows "tags (previous_values old ts prev) = tags prev @ previous_tags_of old ts"
  using assms
proof (induction old ts prev rule: previous_values.induct)
  case (2 old name v ts prev)
  then show ?case
    by (cases "dict_get old name") (auto simp: dict_set_def update_fresh)
qed simp

lemma cost_work_le:
  "fst (cost_dict d n) \<le> fst (snd (cost_dict d n))"
  "fst (cost_tags ts n) \<le> fst (snd (cost_tags ts n))"
  "fst (cost_value v n) \<le> fst (snd (cost_value v n))"
  "fst (cost_inner v n) \<le> fst (snd (cost_inner v n))"
  "fst (cost_items xs n) \<le> fst (snd (cost_items xs n))"
  "fst (cost_cols cs n) \<le> fst (snd (cost_cols cs n))"
  "fst (cost_rows rs n) \<le> fst (snd (cost_rows rs n))"
proof -
  have add: "fst a \<le> fst (snd a) \<Longrightarrow> fst b \<le> fst (snd b) \<Longrightarrow>
      fst (add_cost a b) \<le> fst (snd (add_cost a b))" for a b
    by (cases a; cases b) simp
  have leaf: "fst (name_cost n) \<le> fst (snd (name_cost n))"
      "fst (value_cost v m) \<le> fst (snd (value_cost v m))" for n v m
    by (simp_all add: name_cost_def value_cost_def saturating_add_def)
  show "fst (cost_dict d n) \<le> fst (snd (cost_dict d n))"
    "fst (cost_tags ts n) \<le> fst (snd (cost_tags ts n))"
    "fst (cost_value v n) \<le> fst (snd (cost_value v n))"
    "fst (cost_inner v n) \<le> fst (snd (cost_inner v n))"
    "fst (cost_items xs n) \<le> fst (snd (cost_items xs n))"
    "fst (cost_cols cs n) \<le> fst (snd (cost_cols cs n))"
    "fst (cost_rows rs n) \<le> fst (snd (cost_rows rs n))"
    by (induction d n and ts n and v n and v n and xs n and cs n and rs n
        rule: cost_dict_cost_tags_cost_value_cost_inner_cost_items_cost_cols_cost_rows.induct)
      (simp_all only: cost_dict.simps cost_tags.simps cost_value.simps cost_inner.simps
        cost_items.simps cost_cols.simps cost_rows.simps add leaf fst_conv snd_conv le_refl
        one_le_numeral add)
qed

lemma diff_bytes_limit:
  "diff_bytes ident rs limit = Some n \<Longrightarrow> n \<le> limit' \<Longrightarrow> diff_bytes ident rs limit' = Some n"
  by (auto simp: diff_bytes_cost split: prod.splits if_splits)

lemma patch_as_diff:
  assumes "patch_diff_bytes ident old changes limit = Some n" and "dict_wf changes"
    and "limit < USIZE_MAX"
  shows "diff_bytes ident [changes, previous_values old (tags changes) dict_new] limit = Some n"
proof -
  define prev where "prev = previous_values old (tags changes) dict_new"
  obtain w y d where ch: "cost_dict changes 1 = (w, y, d)" by (cases "cost_dict changes 1")
  obtain w' y' d' where pr: "cost_tags (previous_tags_of old (tags changes)) 1 = (w', y', d')"
    by (cases "cost_tags (previous_tags_of old (tags changes)) 1")
  have "tags prev = previous_tags_of old (tags changes)"
    using assms(2) unfolding prev_def by (subst tags_previous_values) (simp_all add: dict_wf_def dict_new_def)
  then have "prev = HDict (previous_tags_of old (tags changes))" by (cases prev) simp
  then have prc: "cost_dict prev 1 = (Suc w', 128 + y', max 1 d')" using pr by simp
  have le: "w \<le> y" "w' \<le> y'"
    using cost_work_le(1) [of changes 1] cost_work_le(2) [of "previous_tags_of old (tags changes)" 1]
    unfolding ch pr by simp_all
  have "1 \<le> d" using ch by (cases changes; cases "cost_tags (tags changes) 1") auto
  with assms(1,3) le show ?thesis
    unfolding prev_def [symmetric] patch_diff_bytes_cost diff_bytes_cost cost_rows.simps ch pr prc
    by (auto simp: saturating_add_def split: if_splits)
qed

lemma into_diff_ok:
  assumes "diff_ok d" and "gd_ref_val d \<noteq> []" and "length (gd_ref_val d) \<le> 4096"
    and "gd_retained_bytes d \<le> limit"
  shows "into_diff (change_from_diff d) limit = Inr d"
proof -
  have "diff_bytes (gd_ref_val d) (diff_rows d) limit = Some (gd_retained_bytes d)"
    using assms(1) diff_bytes_limit [OF _ assms(4)] unfolding diff_ok_def by blast
  then have "diff_bytes (rc_id (change_from_diff d))
      (List.map_filter (\<lambda>x. x) [rc_old (change_from_diff d), rc_new (change_from_diff d),
        rc_changed (change_from_diff d), rc_previous (change_from_diff d)]) limit =
      Some (gd_retained_bytes d)"
    by (simp add: change_from_diff_def diff_rows_def)
  moreover have "change_valid (change_from_diff d)" using assms(1) by (simp add: diff_ok_def)
  moreover have "rc_id (change_from_diff d) = gd_ref_val d" by (simp add: change_from_diff_def)
  ultimately have "into_diff (change_from_diff d) limit =
      Inr \<lparr>gd_version = rc_version (change_from_diff d), gd_span = rc_span (change_from_diff d),
        gd_retained_bytes = gd_retained_bytes d, gd_timestamp = rc_timestamp (change_from_diff d),
        gd_op = rc_op (change_from_diff d), gd_ref_val = rc_id (change_from_diff d),
        gd_old = rc_old (change_from_diff d), gd_new = rc_new (change_from_diff d),
        gd_changed_tags = rc_changed (change_from_diff d),
        gd_previous_tags = rc_previous (change_from_diff d)\<rparr>"
    using assms(2,3) unfolding into_diff_def by (simp del: map_filter_simps)
  then show ?thesis by (cases d) (simp add: change_from_diff_def)
qed

lemma into_diff_diff_ok:
  assumes "into_diff c limit = Inr d"
  shows "diff_ok d"
proof -
  have c: "change_from_diff d = c" by (rule into_diff_from [OF assms])
  have "change_valid c \<and> diff_bytes (rc_id c)
      (List.map_filter (\<lambda>d. d) [rc_old c, rc_new c, rc_changed c, rc_previous c]) limit =
      Some (gd_retained_bytes d)"
    using assms by (auto simp: into_diff_def simp del: map_filter_simps split: if_splits)
  moreover have "gd_ref_val d = rc_id c" "diff_rows d =
      List.map_filter (\<lambda>d. d) [rc_old c, rc_new c, rc_changed c, rc_previous c]"
    unfolding c [symmetric] by (simp_all add: change_from_diff_def diff_rows_def)
  ultimately show ?thesis unfolding diff_ok_def c by auto
qed

lemma restore_changes_diff_ok:
  "restore_changes limits final cs p s b y = Inr (p', s', y', ds) \<Longrightarrow> \<forall>d \<in> set ds. diff_ok d"
proof (induction cs arbitrary: p s b y p' s' y' ds)
  case (Cons c cs)
  from Cons.prems obtain d ds' p1 s1 b1 y1 where "into_diff c (rl_max_bytes limits) = Inr d"
      "restore_changes limits final cs p1 s1 b1 y1 = Inr (p', s', y', ds')" "ds = d # ds'"
    by (auto simp: Let_def split: if_splits)
  with Cons.IH into_diff_diff_ok show ?case by auto
qed simp

section \<open>Loading rows\<close>

definition row_key :: "hdict \<Rightarrow> string" where
  "row_key row = (case dict_id row of Some r \<Rightarrow> ref_val r | None \<Rightarrow> [])"

definition keyed :: "hdict list \<Rightarrow> (string \<times> hdict) list" where
  "keyed rs = map (\<lambda>row. (row_key row, row)) rs"

lemma has_id_dict_id: "has_id row rv \<longleftrightarrow> (\<exists>r. dict_id row = Some r \<and> ref_val r = rv)"
  by (auto simp: has_id_def dict_id_def dict_get_def split: option.splits kind.splits)

lemma has_id_key: "has_id row rv \<Longrightarrow> row_key row = rv \<and> dict_id row \<noteq> None"
  by (auto simp: has_id_dict_id row_key_def)

lemma restore_rows_sound:
  assumes "graph_inv g" and "\<forall>row \<in> set rs. dict_wf row" and "restore_rows now rs g = Inr g'"
  shows "graph_inv g' \<and> same_config g g' \<and> (\<forall>row \<in> set rs. dict_id row \<noteq> None) \<and>
    distinct (map row_key rs) \<and> (\<forall>row \<in> set rs. map_of (entities g) (row_key row) = None) \<and>
    map_of (entities g') = map_of (entities g) ++ map_of (keyed rs)"
  using assms
proof (induction rs arbitrary: g)
  case (Cons row rs)
  have wf: "dict_wf row" using Cons.prems(2) by simp
  from Cons.prems(3) obtain rv h where h: "add now row g = Inr (rv, h)" "restore_rows now rs h = Inr g'"
    by (auto split: sum.splits fault.splits)
  note ad = add_success [OF Cons.prems(1) wf h(1)]
  have fresh: "map_of (entities g) rv = None"
    using add_cases [OF Cons.prems(1) wf, of now] h(1)
    by (auto simp: spec_add_def graph_abs_def split: option.splits kind.splits if_splits)
  have key: "row_key row = rv" "dict_id row \<noteq> None" using ad has_id_key by blast+
  have inv: "graph_inv h" and wf': "\<forall>row \<in> set rs. dict_wf row"
    using ad Cons.prems(2) by simp_all
  note IH = Cons.IH [OF inv wf' h(2)]
  have other: "\<forall>r \<in> set rs. row_key r \<noteq> rv \<and> map_of (entities g) (row_key r) = None"
  proof
    fix r assume "r \<in> set rs"
    with IH have "map_of (entities h) (row_key r) = None" by blast
    then show "row_key r \<noteq> rv \<and> map_of (entities g) (row_key r) = None"
      using ad by (auto split: if_splits)
  qed
  then have "map_of (keyed rs) rv = None"
    by (auto simp: keyed_def map_of_eq_None_iff)
  then have "map_of (entities h) ++ map_of (keyed rs) =
      map_of (entities g) ++ map_of (keyed (row # rs))"
    using ad key by (auto simp: keyed_def map_add_def fun_eq_iff split: option.splits)
  then have con: "map_of (entities g') = map_of (entities g) ++ map_of (keyed (row # rs))"
    using IH by argo
  have parts: "graph_inv g'" "\<forall>row \<in> set rs. dict_id row \<noteq> None" "distinct (map row_key rs)"
      "same_config g g'"
    using IH ad same_config_trans by blast+
  show ?case using parts con key fresh other by auto
qed (simp add: keyed_def)

lemma restore_rows_complete:
  assumes "graph_inv g" and "\<forall>row \<in> set rs. dict_wf row \<and> dict_id row \<noteq> None"
    and "distinct (map row_key rs)" and "\<forall>row \<in> set rs. map_of (entities g) (row_key row) = None"
    and "version g + length rs \<le> U64_MAX" and "card (dom (map_of (entities g))) + length rs \<le> Suc U32_MAX"
  shows "\<exists>g'. restore_rows now rs g = Inr g'"
  using assms
proof (induction rs arbitrary: g)
  case (Cons row rs)
  have wf: "dict_wf row" using Cons.prems(2) by simp
  obtain r where r: "dict_id row = Some r" "dict_get row ''id'' = Some (KRef r)" "row_key row = ref_val r"
    using Cons.prems(2) by (auto simp: dict_id_def dict_get_def row_key_def split: option.splits kind.splits)
  have fresh: "map_of (entities g) (ref_val r) = None" using Cons.prems(4) r by simp
  have "spec_add row (graph_abs g) =
      Inr (ref_val r, \<lparr>contents = (map_of (entities g))(ref_val r \<mapsto> row), revision = Suc (version g)\<rparr>)"
    using Cons.prems(5,6) r(2) fresh by (simp add: spec_add_def graph_abs_def)
  then obtain h where h: "add now row g = Inr (ref_val r, h)"
    using add_cases [OF Cons.prems(1) wf, of now] by (cases "add now row g") auto
  note ad = add_success [OF Cons.prems(1) wf h]
  have "card (dom (map_of (entities h))) = Suc (card (dom (map_of (entities g))))"
    using ad fresh by (simp add: finite_dom_map_of domIff)
  then have c: "card (dom (map_of (entities h))) + length rs \<le> Suc U32_MAX"
    using Cons.prems(6) by simp
  have "\<forall>x \<in> set rs. row_key x \<noteq> ref_val r" using Cons.prems(3) r(3) by force
  then have none: "\<forall>x \<in> set rs. map_of (entities h) (row_key x) = None"
    using ad Cons.prems(4) by simp
  have "\<exists>g'. restore_rows now rs h = Inr g'"
    using Cons.prems(2,3,5) ad by (intro Cons.IH [OF _ _ _ none _ c]) simp_all
  then show ?case using h by simp
qed simp

section \<open>Images and restored graphs\<close>

lemma limits_validate_ok:
  "limits_validate l = Inr u \<longleftrightarrow> rl_max_rows l \<in> {1..100000} \<and> rl_max_changes l \<in> {1..100000} \<and>
     rl_max_bytes l \<in> {1..268435456} \<and> rl_max_work l \<in> {1..64000000}"
  by (auto simp: limits_validate_def)

lemma budget_rows_bytes: "budget_rows rs n b = Some b' \<Longrightarrow> bytes_left b' \<le> bytes_left b"
  by (cases "cost_rows rs n") (auto simp: budget_spends split: if_splits)

definition image_wf :: "graph_image \<Rightarrow> bool" where
  "image_wf img \<longleftrightarrow> (\<forall>row \<in> set (img_rows img). dict_wf row) \<and> st_revision (img_state img) \<le> U64_MAX"

definition restored_from :: "graph_image \<Rightarrow> activated_catalog arc \<Rightarrow> recovery_limits \<Rightarrow> entity_graph \<Rightarrow> bool" where
  "restored_from img catalog limits g \<longleftrightarrow>
     graph_state g = img_state img \<and> floor_version g = img_floor img \<and>
     map change_from_diff (changelog g) = img_changes img \<and>
     distinct (map row_key (img_rows img)) \<and> (\<forall>row \<in> set (img_rows img). dict_id row \<noteq> None) \<and>
     map_of (entities g) = map_of (keyed (img_rows img)) \<and>
     g_namespace g = Some (cat_namespace (arc_val catalog)) \<and> activated g = Some catalog \<and>
     changelog_capacity g = rl_max_changes limits \<and> changelog_byte_capacity g = rl_max_bytes limits"

abbreviation restore_base :: "8 word list \<Rightarrow> activated_catalog arc \<Rightarrow> entity_graph" where
  "restore_base rand catalog \<equiv> (with_changelog_limits rand 1 1)
     \<lparr>g_namespace := Some (cat_namespace (arc_val catalog)), activated := Some catalog\<rparr>"

lemma restore_base_ok:
  "graph_inv (restore_base rand catalog)" "entities (restore_base rand catalog) = []"
  "version (restore_base rand catalog) = 0" "ast_cache (restore_base rand catalog) = []"
  "qc_entries (g_query_cache (restore_base rand catalog)) = []"
proof -
  have "graph_inv (with_changelog_limits rand 1 1)"
    by (rule graph_inv_limits) (simp add: USIZE_MAX_def)
  then show "graph_inv (restore_base rand catalog)" by (simp add: graph_inv_def feed_inv_def)
qed (simp_all add: with_changelog_limits_def with_changelog_capacity_def qc_new_def)

lemma restore_sound:
  assumes "restore rand now img catalog limits = Inr g" and "image_wf img"
  shows "graph_inv g \<and> restored_from img catalog limits g \<and> (\<forall>d \<in> set (changelog g). diff_ok d) \<and>
    ast_cache g = [] \<and> qc_entries (g_query_cache g) = []"
proof -
  from assms(1) obtain b ds h y where
    lim: "limits_validate limits = Inr ()" and
    len: "length (img_changes img) \<le> rl_max_changes limits" and
    b: "budget_rows (img_rows img) 0 (limits_budget limits) = Some b" and
    ds: "restore_changes limits (st_revision (img_state img)) (img_changes img) (img_floor img) None b 0 =
      Inr (st_revision (img_state img), None, y, ds)" and
    h: "restore_rows now (img_rows img) (restore_base rand catalog) = Inr h" and
    g: "g = h\<lparr>incarnation := st_incarnation (img_state img), version := st_revision (img_state img),
            catalog_generation := st_catalog_generation (img_state img),
            floor_version := img_floor img, changelog := ds, changelog_bytes := y,
            changelog_capacity := rl_max_changes limits,
            changelog_byte_capacity := rl_max_bytes limits,
            g_query_cache := qc_clear (g_query_cache h)\<rparr>"
    unfolding restore_def by (auto simp: Let_def split: if_splits)
  have wf: "\<forall>row \<in> set (img_rows img). dict_wf row" using assms(2) by (simp add: image_wf_def)
  note log = restore_changes_sound [OF ds]
  note rws = restore_rows_sound [OF restore_base_ok(1) wf h]
  have ret: "retained (img_floor img) ds (st_revision (img_state img))"
    using log follows_iff(1) by blast
  have "y \<le> rl_max_bytes limits"
    using log budget_rows_bytes [OF b] by (simp add: limits_budget_def budget_new_def)
  moreover have "length ds \<le> rl_max_changes limits"
    using log len by (metis length_map)
  ultimately have "feed_inv g"
    using log ret lim assms(2)
    by (auto simp: feed_inv_def g limits_validate_ok image_wf_def USIZE_MAX_def)
  then have "graph_inv g"
    using rws by (auto simp: graph_inv_def g intro: qc_inv_clear)
  moreover have "restored_from img catalog limits g"
    using rws log restore_base_ok(2)
    by (simp add: restored_from_def g graph_state_def same_config_def)
  moreover have "ast_cache g = []" "qc_entries (g_query_cache g) = []"
    using rws restore_base_ok(4) by (simp_all add: g same_config_def qc_clear_def)
  ultimately show ?thesis using restore_changes_diff_ok [OF ds] by (simp add: g)
qed

lemma keyed_entities:
  assumes "ents_ok es ids"
  shows "keyed (map snd es) = es" "distinct (map row_key (map snd es))"
    "\<forall>row \<in> set (map snd es). dict_wf row \<and> dict_id row \<noteq> None"
proof -
  have e: "has_id e rv \<and> dict_wf e" if "(rv, e) \<in> set es" for rv e
    using assms that bt_in_set_iff [of es rv e] by (auto simp: ents_ok_def)
  then have key: "\<And>p. p \<in> set es \<Longrightarrow> row_key (snd p) = fst p" using has_id_key by force
  then show "keyed (map snd es) = es" by (simp add: keyed_def map_idI)
  have "map row_key (map snd es) = map fst es" using key by simp
  moreover have "hm_wf es" using assms bt_wf_distinct [of es] by (simp add: ents_ok_def)
  ultimately show "distinct (map row_key (map snd es))" by (simp only:)
  show "\<forall>row \<in> set (map snd es). dict_wf row \<and> dict_id row \<noteq> None"
    using e has_id_key by force
qed

lemma image_restore:
  assumes inv: "graph_inv g" and log: "\<forall>d \<in> set (changelog g). diff_ok d"
    and ids: "\<forall>d \<in> set (changelog g). gd_ref_val d \<noteq> [] \<and> length (gd_ref_val d) \<le> 4096"
    and st: "incarnation g \<noteq> replicate 16 0" "catalog_generation g \<noteq> 0"
    and img: "image limits g = Inr img"
  shows "\<exists>g'. restore rand now img catalog limits = Inr g' \<and> graph_inv g' \<and>
    entities g' = entities g \<and> changelog g' = changelog g \<and> floor_version g' = floor_version g \<and>
    graph_state g' = graph_state g \<and> activated g' = Some catalog"
proof -
  from img obtain b b' where
    lim: "limits_validate limits = Inr ()" and
    len: "length (entities g) \<le> rl_max_rows limits" "length (changelog g) \<le> rl_max_changes limits" and
    b: "budget_rows (map snd (entities g)) 0 (limits_budget limits) = Some b" and
    b': "charge_changes (changelog g) b = Some b'" and
    im: "img = \<lparr>img_state = graph_state g, img_rows = map snd (entities g), img_floor = floor_version g,
          img_changes = map change_from_diff (changelog g)\<rparr>"
    unfolding image_def by (auto split: if_splits)
  have parts: "feed_inv g" "ents_ok (entities g) (id_map g)" using inv by (simp_all add: graph_inv_def)
  note ke = keyed_entities [OF parts(2)]
  have fol: "follows (version g) (floor_version g) None (changelog g)" "version g \<le> U64_MAX"
    using parts(1) by (simp_all add: feed_inv_def follows_iff)
  have "bytes_of (changelog g) \<le> rl_max_bytes limits"
    using charge_changes_bytes [OF b'] budget_rows_bytes [OF b] by (simp add: limits_budget_def budget_new_def)
  then have bytes: "bytes_of (changelog g) \<le> USIZE_MAX"
      "\<forall>d \<in> set (changelog g). gd_retained_bytes d \<le> rl_max_bytes limits"
    using lim member_le_sum_list [of _ "map gd_retained_bytes (changelog g)"]
    by (force simp: limits_validate_ok USIZE_MAX_def bytes_of_def)+
  have "\<forall>d \<in> set (changelog g). into_diff (change_from_diff d) (rl_max_bytes limits) = Inr d"
    using log ids bytes(2) by (simp add: into_diff_ok)
  from restore_changes_complete [OF fol(1) this b' _ fol(2), of 0] bytes(1)
  have ch: "restore_changes limits (version g) (map change_from_diff (changelog g)) (floor_version g)
      None b 0 = Inr (version g, None, bytes_of (changelog g), changelog g)"
    by simp
  have "length (entities g) \<le> 100000" using len(1) lim by (simp add: limits_validate_ok)
  then have "\<exists>h. restore_rows now (map snd (entities g)) (restore_base rand catalog) = Inr h"
    using ke restore_base_ok by (intro restore_rows_complete) (simp_all add: U64_MAX_def U32_MAX_def)
  then obtain h where h: "restore_rows now (map snd (entities g)) (restore_base rand catalog) = Inr h" ..
  have "\<exists>g'. restore rand now img catalog limits = Inr g' \<and> changelog g' = changelog g"
    using lim len st b ch h retained_versions [of "floor_version g" "changelog g" "version g"] parts(1)
    by (auto simp: restore_def im graph_state_def feed_inv_def)
  then obtain g' where g': "restore rand now img catalog limits = Inr g'" "changelog g' = changelog g"
    by blast
  have wf: "image_wf img" using ke(3) fol(2) by (simp add: image_wf_def im graph_state_def)
  have snd: "graph_inv g'" "restored_from img catalog limits g'"
    using restore_sound [OF g'(1) wf] by blast+
  have "map_of (entities g') = map_of (entities g)"
    using snd(2) ke(1) by (simp add: restored_from_def im)
  then have "entities g' = entities g"
    using snd(1) parts(2) by (intro bt_ext) (simp_all add: graph_inv_def ents_ok_def)
  with g' snd show ?thesis by (simp add: restored_from_def im)
qed

lemma restore_changes_ids:
  "restore_changes limits final cs p s b y = Inr r \<Longrightarrow>
   \<forall>c \<in> set cs. rc_id c \<noteq> [] \<and> length (rc_id c) \<le> 4096"
proof (induction cs arbitrary: p s b y r)
  case (Cons c cs)
  from Cons.prems obtain d p1 s1 b1 y1 r1 where "into_diff c (rl_max_bytes limits) = Inr d"
      "restore_changes limits final cs p1 s1 b1 y1 = Inr r1"
    by (auto simp: Let_def split: if_splits)
  then show ?case using Cons.IH by (auto simp: into_diff_def split: if_splits)
qed simp

lemma restore_ids:
  "restore rand now img catalog limits = Inr g \<Longrightarrow>
   \<forall>c \<in> set (img_changes img). rc_id c \<noteq> [] \<and> length (rc_id c) \<le> 4096"
  by (auto simp: restore_def dest!: restore_changes_ids split: if_splits)

end
