(* ===== verification/Index_Plans.thy ===== *)
theory Index_Plans
  imports Tag_Bitmap Ref_Adjacency Value_Index Value_Size "HOL-Library.Product_Lexorder"
begin

text \<open>
  Index plans: \<open>prepare_changes\<close>, \<open>reserve_prepared\<close> and \<open>apply_prepared\<close> of
  \<open>graph/bitmap.rs\<close>, \<open>graph/adjacency.rs\<close> and \<open>graph/value_index.rs\<close>.

  A plan holds a private copy of every bucket the batch touches, with the batch's effect on it;
  publishing a plan moves the copies into the index.  What the code asks of its allocator and of
  the \<open>roaring\<close> crate is the argument \<open>platform\<close>: the free capacity of the containers, the sizes
  of the element types, the serialized size of a bitmap, and whether a reservation succeeds.
  \<open>None\<close> is \<open>Err(())\<close>.
\<close>

declare map_of_eq_Some_iff [simp del] Some_eq_map_of_iff [simp del]

record platform =
  cap_id_map :: nat
  cap_reverse_id :: nat
  cap_changelog :: nat
  cap_free_ids :: nat
  cap_bitmaps :: nat
  cap_forward :: nat
  cap_reverse :: nat
  size_prepared_change :: nat
  size_graph_diff :: nat
  size_index_change :: nat
  serialized_size :: "bitmap \<Rightarrow> nat"
  try_reserve :: "string \<Rightarrow> nat \<Rightarrow> bool"

definition ISIZE_MAX :: nat where
  "ISIZE_MAX = 9223372036854775807"

text \<open>\<open>Layout::array\<close> for the element types used, all of alignment eight.\<close>

definition layout_array :: "nat \<Rightarrow> nat \<Rightarrow> nat option" where
  "layout_array elem n = (if elem * n \<le> ISIZE_MAX - 7 then Some (elem * n) else None)"

record index_change =
  ic_id :: nat
  ic_before :: "hdict option"
  ic_after :: "hdict option"

section \<open>Overlays\<close>

text \<open>A loop with \<open>?\<close> in its body.\<close>

fun try_each :: "('c \<Rightarrow> 's \<Rightarrow> 's option) \<Rightarrow> 'c list \<Rightarrow> 's \<Rightarrow> 's option" where
  "try_each f [] s = Some s"
| "try_each f (c # cs) s = Option.bind (f c s) (try_each f cs)"

text \<open>The loops of \<open>apply_prepared\<close>: a bucket that became empty is removed, any other replaces
  the old one.\<close>

fun store_entries :: "('x \<Rightarrow> bool) \<Rightarrow> ('k \<times> 'x) list \<Rightarrow> ('k \<times> 'x) list \<Rightarrow> ('k \<times> 'x) list" where
  "store_entries emp [] m = m"
| "store_entries emp ((k, x) # es) m =
     store_entries emp es (if emp x then AList.delete k m else AList.update k x m)"

definition over :: "('k \<Rightarrow> 'x) \<Rightarrow> ('k \<times> 'x) list \<Rightarrow> 'k \<Rightarrow> 'x" where
  "over base es k = (case map_of es k of Some x \<Rightarrow> x | None \<Rightarrow> base k)"

lemma over_Nil [simp]: "over base [] = base"
  by (simp add: over_def fun_eq_iff)

lemma over_update [simp]:
  "over base (AList.update k x es) k' = (if k' = k then x else over base es k')"
  by (auto simp: over_def)

lemma over_bt_insert [simp]:
  "over base (bt_insert k x es) k' = (if k' = k then x else over base es k')"
  by (auto simp: over_def)

lemma over_Cons: "over base ((k, x) # es) k' = (if k' = k then x else over base es k')"
  by (auto simp: over_def)

lemma hm_wf_store_entries: "hm_wf m \<Longrightarrow> hm_wf (store_entries emp es m)"
  by (induction emp es m rule: store_entries.induct) auto

lemma map_of_store_entries:
  "hm_wf es \<Longrightarrow> map_of (store_entries emp es m) k =
     (case map_of es k of Some x \<Rightarrow> if emp x then None else Some x | None \<Rightarrow> map_of m k)"
proof (induction emp es m rule: store_entries.induct)
  case (2 emp k' x es m)
  then have "map_of es k' = None" by (simp add: map_of_eq_None_iff)
  with 2 show ?case by (cases "k = k'"; cases "map_of es k") simp_all
qed simp

lemma vec_at_store_entries:
  "hm_wf es \<Longrightarrow> vec_at (store_entries (\<lambda>x. x = []) es m) k = over (vec_at m) es k"
  by (simp add: vec_at_def over_def map_of_store_entries split: option.split)

lemma no_empty_store_entries:
  "hm_wf es \<Longrightarrow> no_empty_vec m \<Longrightarrow> no_empty_vec (store_entries (\<lambda>x. x = []) es m)"
  by (auto simp: no_empty_vec_def map_of_store_entries split: option.splits)

section \<open>Tag bitmaps\<close>

type_synonym prepared_tags = "(string \<times> bitmap) list"

text \<open>The first time a tag is touched its bitmap is copied into the plan.\<close>

definition touch_tag ::
  "platform \<Rightarrow> tag_index \<Rightarrow> string \<Rightarrow> prepared_tags \<Rightarrow> value_budget \<Rightarrow>
   (prepared_tags \<times> value_budget) option" where
  "touch_tag al i t es b =
     (if map_of es t \<noteq> None then Some (es, b)
      else
        Option.bind
          (case map_of (bitmaps i) t of
             Some current \<Rightarrow>
               charge (card current)
                 (saturating_add (saturating_mul (serialized_size al current) 4) 256) b
           | None \<Rightarrow> Some b)
          (\<lambda>b. Some (AList.update t (bitmap_at (bitmaps i) t) es, b)))"

definition set_bit_to :: "bool \<Rightarrow> nat \<Rightarrow> bitmap \<Rightarrow> bitmap" where
  "set_bit_to adding n bm = (if adding then insert n bm else bm - {n})"

fun plan_tag ::
  "platform \<Rightarrow> tag_index \<Rightarrow> nat \<Rightarrow> bool \<Rightarrow> string \<Rightarrow> prepared_tags \<times> value_budget \<Rightarrow>
   (prepared_tags \<times> value_budget) option" where
  "plan_tag al i eid adding t (es, b) =
     Option.bind (charge (saturating_add (length t) 1) (saturating_add (length t) 64) b) (\<lambda>b.
     Option.bind (touch_tag al i t es b) (\<lambda>(es, b).
     Option.bind (map_of es t) (\<lambda>bm. Some (AList.update t (set_bit_to adding eid bm) es, b))))"

definition plan_tag_row ::
  "platform \<Rightarrow> tag_index \<Rightarrow> nat \<Rightarrow> bool \<Rightarrow> hdict option \<Rightarrow> prepared_tags \<times> value_budget \<Rightarrow>
   (prepared_tags \<times> value_budget) option" where
  "plan_tag_row al i eid adding row s =
     (case row of None \<Rightarrow> Some s | Some r \<Rightarrow> try_each (plan_tag al i eid adding) (tag_names r) s)"

definition plan_tag_change ::
  "platform \<Rightarrow> tag_index \<Rightarrow> index_change \<Rightarrow> prepared_tags \<times> value_budget \<Rightarrow>
   (prepared_tags \<times> value_budget) option" where
  "plan_tag_change al i c s =
     Option.bind (u32_try_from (ic_id c)) (\<lambda>eid.
     Option.bind (plan_tag_row al i eid False (ic_before c) s)
       (plan_tag_row al i eid True (ic_after c)))"

definition tags_prepare ::
  "platform \<Rightarrow> tag_index \<Rightarrow> index_change list \<Rightarrow> value_budget \<Rightarrow> (prepared_tags \<times> value_budget) option" where
  "tags_prepare al i cs b =
     Option.bind (try_each (plan_tag_change al i) cs ([], b)) (\<lambda>(es, b).
     if cap_bitmaps al - length (bitmaps i) < length es
     then Option.bind (charge (length (bitmaps i))
            (saturating_mul (saturating_add (length (bitmaps i)) (length es)) 256) b)
            (\<lambda>b. Some (es, b))
     else Some (es, b))"

definition tags_apply :: "prepared_tags \<Rightarrow> tag_index \<Rightarrow> tag_index" where
  "tags_apply es i = i\<lparr>bitmaps := store_entries (\<lambda>bm. bm = {}) es (bitmaps i)\<rparr>"

section \<open>Reference adjacency\<close>

type_synonym prepared_adjacency =
  "(nat \<times> (string \<times> string) list) list \<times> (string \<times> (string \<times> nat) list) list"

type_synonym adj_row =
  "(string \<times> string) list \<times> (string \<times> (string \<times> nat) list) list \<times> value_budget"

fun charge_edges :: "(string \<times> nat) list \<Rightarrow> value_budget \<Rightarrow> value_budget option" where
  "charge_edges [] b = Some b"
| "charge_edges ((name, _) # es) b =
     Option.bind (charge 1 (saturating_add (length name) 64) b) (charge_edges es)"

definition touch_target ::
  "ref_adjacency \<Rightarrow> string \<Rightarrow> (string \<times> (string \<times> nat) list) list \<Rightarrow> value_budget \<Rightarrow>
   ((string \<times> (string \<times> nat) list) list \<times> value_budget) option" where
  "touch_target a v bk b =
     (if map_of bk v \<noteq> None then Some (bk, b)
      else
        Option.bind
          (case map_of (adj_reverse a) v of Some current \<Rightarrow> charge_edges current b | None \<Rightarrow> Some b)
          (\<lambda>b. Some (AList.update v (vec_at (adj_reverse a) v) bk, b)))"

definition plan_target :: "ref_adjacency \<Rightarrow> nat \<Rightarrow> bool \<Rightarrow> string \<Rightarrow> string \<Rightarrow> adj_row \<Rightarrow> adj_row option" where
  "plan_target a eid adding tag v s =
     (case s of (outgoing, bk, b) \<Rightarrow>
        Option.bind (charge (saturating_add (length v) 1)
          (saturating_add (saturating_add (length tag) (length v)) 128) b) (\<lambda>b.
        Option.bind (touch_target a v bk b) (\<lambda>(bk, b).
        Option.bind (map_of bk v) (\<lambda>incoming.
        if adding
        then Some (outgoing @ [(tag, v)], AList.update v (incoming @ [(tag, eid)]) bk, b)
        else
          Option.bind (charge (saturating_mul (length incoming) (saturating_add (length tag) 1)) 0 b)
            (\<lambda>b. Some (outgoing,
               AList.update v (filter (\<lambda>(name, n). name \<noteq> tag \<or> n \<noteq> eid) incoming) bk, b))))))"

fun plan_edge :: "ref_adjacency \<Rightarrow> nat \<Rightarrow> bool \<Rightarrow> string \<times> kind \<Rightarrow> adj_row \<Rightarrow> adj_row option" where
  "plan_edge a eid adding (tag, value) (outgoing, bk, b) =
     Option.bind (charge (saturating_add (length tag) 1) 0 b) (\<lambda>b.
     case value of
       KRef target \<Rightarrow>
         (if tag = ''id'' then Some (outgoing, bk, b)
          else plan_target a eid adding tag (ref_val target) (outgoing, bk, b))
     | _ \<Rightarrow> Some (outgoing, bk, b))"

definition plan_edge_row ::
  "ref_adjacency \<Rightarrow> nat \<Rightarrow> bool \<Rightarrow> hdict option \<Rightarrow> adj_row \<Rightarrow> adj_row option" where
  "plan_edge_row a eid adding row s =
     (case row of None \<Rightarrow> Some s | Some r \<Rightarrow> try_each (plan_edge a eid adding) (tags r) s)"

definition plan_adj_change ::
  "ref_adjacency \<Rightarrow> index_change \<Rightarrow> prepared_adjacency \<times> value_budget \<Rightarrow>
   (prepared_adjacency \<times> value_budget) option" where
  "plan_adj_change a c s =
     (case s of ((fwd, bk), b) \<Rightarrow>
        Option.bind (plan_edge_row a (ic_id c) False (ic_before c) ([], bk, b)) (\<lambda>s.
        Option.bind (plan_edge_row a (ic_id c) True (ic_after c) s) (\<lambda>(outgoing, bk, b).
        Some ((AList.update (ic_id c) outgoing fwd, bk), b))))"

definition charge_growth :: "nat \<Rightarrow> nat \<Rightarrow> nat \<Rightarrow> value_budget \<Rightarrow> value_budget option" where
  "charge_growth len capacity additional b =
     (if capacity - len < additional
      then charge len (saturating_mul (saturating_add len additional) 512) b else Some b)"

definition adj_prepare ::
  "platform \<Rightarrow> ref_adjacency \<Rightarrow> index_change list \<Rightarrow> value_budget \<Rightarrow>
   (prepared_adjacency \<times> value_budget) option" where
  "adj_prepare al a cs b =
     Option.bind (try_each (plan_adj_change a) cs (([], []), b)) (\<lambda>((fwd, bk), b).
     Option.bind (charge_growth (length (adj_forward a)) (cap_forward al) (length fwd) b) (\<lambda>b.
     Option.bind (charge_growth (length (adj_reverse a)) (cap_reverse al) (length bk) b) (\<lambda>b.
     Some ((fwd, bk), b))))"

definition adj_apply :: "prepared_adjacency \<Rightarrow> ref_adjacency \<Rightarrow> ref_adjacency" where
  "adj_apply p a =
     \<lparr>adj_forward = store_entries (\<lambda>es. es = []) (fst p) (adj_forward a),
      adj_reverse = store_entries (\<lambda>es. es = []) (snd p) (adj_reverse a)\<rparr>"

section \<open>Field values\<close>

type_synonym prepared_values = "((string \<times> orderable_kind) \<times> nat list) list"

fun ilog2 :: "nat \<Rightarrow> nat" where
  "ilog2 n = (if n < 2 then 0 else Suc (ilog2 (n div 2)))"

declare ilog2.simps [simp del]

definition value_key_bytes :: "kind \<Rightarrow> nat" where
  "value_key_bytes v = (case v of KStr text \<Rightarrow> length text | _ \<Rightarrow> 8)"

definition touch_slot ::
  "nat \<Rightarrow> value_tree \<Rightarrow> string \<times> orderable_kind \<Rightarrow> prepared_values \<Rightarrow> value_budget \<Rightarrow>
   (prepared_values \<times> value_budget) option" where
  "touch_slot additions tree slot es b =
     (if map_of es slot \<noteq> None then Some (es, b)
      else
        (let len = length (vec_at tree (snd slot)) in
         Option.bind (checked_add_usize len additions) (\<lambda>capacity.
         Option.bind (layout_array 8 capacity) (\<lambda>size.
         Option.bind (checked_add_usize size 64) (\<lambda>bytes.
         Option.bind (charge len bytes b) (\<lambda>b.
         Some (bt_insert slot (vec_at tree (snd slot)) es, b)))))))"

definition plan_slot ::
  "nat \<Rightarrow> value_tree \<Rightarrow> nat \<Rightarrow> bool \<Rightarrow> string \<times> orderable_kind \<Rightarrow> nat \<Rightarrow>
   prepared_values \<times> value_budget \<Rightarrow> (prepared_values \<times> value_budget) option" where
  "plan_slot additions tree eid adding slot key_bytes s =
     (case s of (es, b) \<Rightarrow>
        (let comparisons = ilog2 (length tree) + 1 in
         Option.bind (charge (saturating_mul (saturating_mul
           (saturating_add key_bytes (length (fst slot))) comparisons) 4) 0 b) (\<lambda>b.
         Option.bind (touch_slot additions tree slot es b) (\<lambda>(es, b).
         Option.bind (map_of es slot) (\<lambda>ids.
         if adding then Some (bt_insert slot (ids @ [eid]) es, b)
         else
           Option.bind (charge (length ids) 0 b)
             (\<lambda>b. Some (bt_insert slot (filter (\<lambda>n. n \<noteq> eid) ids) es, b)))))))"

fun plan_value ::
  "value_index \<Rightarrow> nat \<Rightarrow> nat \<Rightarrow> bool \<Rightarrow> string \<times> kind \<Rightarrow> prepared_values \<times> value_budget \<Rightarrow>
   (prepared_values \<times> value_budget) option" where
  "plan_value i additions eid adding (field, value) (es, b) =
     Option.bind (charge (saturating_add (length field) 1) 0 b) (\<lambda>b.
     case map_of (indexes i) field of
       None \<Rightarrow> Some (es, b)
     | Some tree \<Rightarrow>
         Option.bind (charge 1 (saturating_add
           (saturating_mul (saturating_add (length field) (value_key_bytes value)) 2) 256) b) (\<lambda>b.
         case orderable_from_kind value of
           None \<Rightarrow> Some (es, b)
         | Some key \<Rightarrow>
             plan_slot additions tree eid adding (field, key) (value_key_bytes value) (es, b)))"

definition plan_value_row ::
  "value_index \<Rightarrow> nat \<Rightarrow> nat \<Rightarrow> bool \<Rightarrow> hdict option \<Rightarrow> prepared_values \<times> value_budget \<Rightarrow>
   (prepared_values \<times> value_budget) option" where
  "plan_value_row i additions eid adding row s =
     (case row of None \<Rightarrow> Some s | Some r \<Rightarrow> try_each (plan_value i additions eid adding) (tags r) s)"

definition plan_value_change ::
  "value_index \<Rightarrow> nat \<Rightarrow> index_change \<Rightarrow> prepared_values \<times> value_budget \<Rightarrow>
   (prepared_values \<times> value_budget) option" where
  "plan_value_change i additions c s =
     Option.bind (plan_value_row i additions (ic_id c) False (ic_before c) s)
       (plan_value_row i additions (ic_id c) True (ic_after c))"

definition values_prepare ::
  "value_index \<Rightarrow> index_change list \<Rightarrow> value_budget \<Rightarrow> (prepared_values \<times> value_budget) option" where
  "values_prepare i cs b =
     Option.bind (charge (length cs) 0 b) (\<lambda>b.
     let additions = length (filter (\<lambda>c. ic_after c \<noteq> None) cs) in
     try_each (plan_value_change i additions) cs ([], b))"

text \<open>A plan whose field is not indexed panics (\<open>None\<close>).\<close>

fun values_apply :: "prepared_values \<Rightarrow> value_index \<Rightarrow> value_index option" where
  "values_apply [] i = Some i"
| "values_apply (((field, key), ids) # es) i =
     (case map_of (indexes i) field of
        None \<Rightarrow> None
      | Some tree \<Rightarrow>
          values_apply es
            (i\<lparr>indexes := AList.update field
                (if ids = [] then AList.delete key tree else bt_insert key ids tree) (indexes i)\<rparr>))"

section \<open>The contract of a plan\<close>

definition row_keys :: "(hdict \<Rightarrow> 'k set) \<Rightarrow> hdict option \<Rightarrow> 'k set" where
  "row_keys keys row = (case row of None \<Rightarrow> {} | Some e \<Rightarrow> keys e)"

definition change_wf :: "index_change \<Rightarrow> bool" where
  "change_wf c \<longleftrightarrow> pred_option dict_wf (ic_before c) \<and> pred_option dict_wf (ic_after c)"

text \<open>A sequence of changes that starts from the given rows, each reading what the ones before it
  left, and the rows it ends with.\<close>

fun consistent :: "index_change list \<Rightarrow> (nat \<Rightarrow> hdict option) \<Rightarrow> bool" where
  "consistent [] r \<longleftrightarrow> True"
| "consistent (c # cs) r \<longleftrightarrow>
     change_wf c \<and> r (ic_id c) = ic_before c \<and> consistent cs (r(ic_id c := ic_after c))"

fun rows_after :: "index_change list \<Rightarrow> (nat \<Rightarrow> hdict option) \<Rightarrow> nat \<Rightarrow> hdict option" where
  "rows_after [] r = r"
| "rows_after (c # cs) r = rows_after cs (r(ic_id c := ic_after c))"

lemma consistent_append:
  "consistent (cs @ ds) r \<longleftrightarrow> consistent cs r \<and> consistent ds (rows_after cs r)"
  by (induction cs arbitrary: r) auto

lemma rows_after_append: "rows_after (cs @ ds) r = rows_after ds (rows_after cs r)"
  by (induction cs arbitrary: r) auto

definition row_entries :: "(hdict \<Rightarrow> 'k set) \<Rightarrow> (nat \<Rightarrow> hdict option) \<Rightarrow> (nat \<times> 'k) set" where
  "row_entries keys r = {(n, k). k \<in> row_keys keys (r n)}"

locale index_plan =
  fixes plan :: "index_change \<Rightarrow> 'p \<times> value_budget \<Rightarrow> ('p \<times> value_budget) option"
    and view :: "'p \<Rightarrow> (nat \<times> 'k) set"
    and keys :: "hdict \<Rightarrow> 'k set"
    and ok :: "'p \<Rightarrow> bool"
  assumes plan_ok:
    "\<lbrakk>ok p; change_wf c; {k. (ic_id c, k) \<in> view p} = row_keys keys (ic_before c);
      plan c (p, b) = Some (p', b')\<rbrakk> \<Longrightarrow>
     ok p' \<and> view p' = view p - {ic_id c} \<times> UNIV \<union> {ic_id c} \<times> row_keys keys (ic_after c)"
begin

lemma plan_all:
  assumes "consistent cs r" and "ok p" and "view p = row_entries keys r"
    and "try_each plan cs (p, b) = Some (p', b')"
  shows "ok p' \<and> view p' = row_entries keys (rows_after cs r)"
  using assms
proof (induction cs arbitrary: r p b)
  case (Cons c cs)
  from Cons.prems(4) obtain p1 b1 where p1: "plan c (p, b) = Some (p1, b1)"
      "try_each plan cs (p1, b1) = Some (p', b')"
    by (auto simp: bind_eq_Some_conv)
  have "{k. (ic_id c, k) \<in> view p} = row_keys keys (ic_before c)"
    using Cons.prems(1,3) by (simp add: row_entries_def)
  with plan_ok [OF Cons.prems(2) _ _ p1(1)] Cons.prems(1)
  have v: "ok p1" "view p1 = view p - {ic_id c} \<times> UNIV \<union> {ic_id c} \<times> row_keys keys (ic_after c)"
    by simp_all
  have v': "view p1 = row_entries keys (r(ic_id c := ic_after c))"
    using v(2) Cons.prems(3) by (auto simp: row_entries_def split: if_splits)
  have "consistent cs (r(ic_id c := ic_after c))" using Cons.prems(1) by simp
  from Cons.IH [OF this v(1) v' p1(2)] show ?case by (simp only: rows_after.simps)
qed simp

end

subsection \<open>Tag bitmaps\<close>

abbreviation tag_over :: "tag_index \<Rightarrow> prepared_tags \<Rightarrow> string \<Rightarrow> bitmap" where
  "tag_over i \<equiv> over (bitmap_at (bitmaps i))"

definition tag_plan_view :: "tag_index \<Rightarrow> prepared_tags \<Rightarrow> (nat \<times> string) set" where
  "tag_plan_view i es = {(n, t). n \<in> tag_over i es t}"

definition tag_plan_ok :: "tag_index \<Rightarrow> prepared_tags \<Rightarrow> bool" where
  "tag_plan_ok i es \<longleftrightarrow> hm_wf es \<and> (\<forall>t. finite (tag_over i es t))"

lemma touch_tag_ok:
  assumes "touch_tag al i t es b = Some (es', b')" and "hm_wf es"
  shows "hm_wf es' \<and> tag_over i es' = tag_over i es \<and> map_of es' t = Some (tag_over i es t)"
  using assms
  by (auto simp: touch_tag_def bind_eq_Some_conv over_def fun_eq_iff split: if_splits)

lemma plan_tag_ok:
  assumes "plan_tag al i n adding t (es, b) = Some (es', b')" and "hm_wf es"
  shows "hm_wf es' \<and> tag_over i es' = (tag_over i es)(t := set_bit_to adding n (tag_over i es t))"
proof -
  from assms(1) obtain b1 es2 b2 where s: "touch_tag al i t es b1 = Some (es2, b2)"
      "es' = AList.update t (set_bit_to adding n (the (map_of es2 t))) es2"
    by (auto simp: bind_eq_Some_conv)
  from touch_tag_ok [OF s(1) assms(2)] show ?thesis by (simp add: s(2) fun_eq_iff)
qed

lemma plan_tags_ok:
  assumes "try_each (plan_tag al i n adding) ts (es, b) = Some (es', b')" and "hm_wf es"
  shows "hm_wf es' \<and> tag_over i es' =
    (\<lambda>t. if t \<in> set ts then set_bit_to adding n (tag_over i es t) else tag_over i es t)"
  using assms
proof (induction ts arbitrary: es b)
  case (Cons t ts)
  from Cons.prems obtain es1 b1 where p1: "plan_tag al i n adding t (es, b) = Some (es1, b1)"
      "try_each (plan_tag al i n adding) ts (es1, b1) = Some (es', b')"
    by (auto simp: bind_eq_Some_conv)
  note s = plan_tag_ok [OF p1(1) Cons.prems(2)]
  from Cons.IH [OF p1(2)] s show ?case
    by (auto simp: fun_eq_iff set_bit_to_def)
qed simp

lemma plan_tag_row_ok:
  assumes "plan_tag_row al i n adding row (es, b) = Some (es', b')" and "tag_plan_ok i es"
  shows "tag_plan_ok i es' \<and> tag_plan_view i es' =
    (if adding then tag_plan_view i es \<union> {n} \<times> row_keys (tag_keys i) row
     else tag_plan_view i es - {n} \<times> row_keys (tag_keys i) row)"
proof (cases row)
  case None
  with assms show ?thesis by (auto simp: plan_tag_row_def row_keys_def)
next
  case (Some e)
  have keys: "row_keys (tag_keys i) row = set (tag_names e)"
    by (simp add: Some row_keys_def tag_keys_def set_tag_names)
  have "hm_wf es' \<and> tag_over i es' =
      (\<lambda>t. if t \<in> set (tag_names e) then set_bit_to adding n (tag_over i es t) else tag_over i es t)"
    using assms by (intro plan_tags_ok) (simp_all add: plan_tag_row_def Some tag_plan_ok_def)
  with assms(2) show ?thesis
    by (auto simp: tag_plan_ok_def tag_plan_view_def keys set_bit_to_def split: if_splits)
qed

lemma plan_tag_change_ok:
  assumes "tag_plan_ok i p" and "{k. (ic_id c, k) \<in> tag_plan_view i p} = row_keys (tag_keys i) (ic_before c)"
    and "plan_tag_change al i c (p, b) = Some (p', b')"
  shows "tag_plan_ok i p' \<and> tag_plan_view i p' =
    tag_plan_view i p - {ic_id c} \<times> UNIV \<union> {ic_id c} \<times> row_keys (tag_keys i) (ic_after c)"
proof -
  from assms(3) obtain p1 b1 where
    p1: "plan_tag_row al i (ic_id c) False (ic_before c) (p, b) = Some (p1, b1)"
    and p': "plan_tag_row al i (ic_id c) True (ic_after c) (p1, b1) = Some (p', b')"
    by (auto simp: plan_tag_change_def bind_eq_Some_conv u32_try_from_eq_Some)
  note s1 = plan_tag_row_ok [OF p1 assms(1)]
  then have "tag_plan_ok i p1" by blast
  note s2 = plan_tag_row_ok [OF p' this]
  from s1 s2 assms(2) show ?thesis by auto
qed

interpretation tplan: index_plan "plan_tag_change al i" "tag_plan_view i" "tag_keys i" "tag_plan_ok i" for al i
  by unfold_locales (rule plan_tag_change_ok)

lemma tags_apply_ok:
  assumes "tag_inv i" and "tag_plan_ok i es"
  shows "tag_inv (tags_apply es i) \<and> tag_entries (tags_apply es i) = tag_plan_view i es"
proof -
  have es: "hm_wf es" "\<And>t. finite (tag_over i es t)" using assms(2) by (simp_all add: tag_plan_ok_def)
  define m where "m = store_entries (\<lambda>bm. bm = {}) es (bitmaps i)"
  have look: "map_of m t = (case map_of es t of Some x \<Rightarrow> if x = {} then None else Some x
      | None \<Rightarrow> map_of (bitmaps i) t)" for t
    using es(1) by (simp add: m_def map_of_store_entries)
  have at: "bitmap_at m t = tag_over i es t" for t
    by (simp add: bitmap_at_def look over_def split: option.split)
  have wf: "hm_wf m" using assms(1) by (simp add: m_def tag_inv_def hm_wf_store_entries)
  have ne: "b \<noteq> {} \<and> finite b" if "map_of m t = Some b" for t b
  proof (cases "map_of es t")
    case None
    with that look [of t] have "map_of (bitmaps i) t = Some b" by simp
    then show ?thesis using assms(1) unfolding tag_inv_def by blast
  next
    case (Some x)
    with that look [of t] have "b = x" "x \<noteq> {}" by (simp_all split: if_splits)
    then show ?thesis using Some es(2) [of t] by (simp add: over_def)
  qed
  have "bitmaps (tags_apply es i) = m" by (simp add: tags_apply_def m_def)
  then show ?thesis
    unfolding tag_inv_def tag_entries_def tag_plan_view_def using at wf ne by simp
qed

lemma tags_plan_exact:
  assumes "index_exact tag_inv tag_entries tag_keys i r" and "consistent cs r"
    and "tags_prepare al i cs b = Some (es, b')"
  shows "index_exact tag_inv tag_entries tag_keys (tags_apply es i) (rows_after cs r)"
proof -
  have i: "tag_inv i" "tag_entries i = row_entries (tag_keys i) r"
    using assms(1) by (auto simp: index_exact_def row_entries_def row_keys_def split: option.splits)
  have start: "tag_plan_ok i []" "tag_plan_view i [] = row_entries (tag_keys i) r"
    using i by (simp_all add: tag_plan_ok_def tag_inv_bitmap_at tag_plan_view_def tag_entries_def)
  obtain b1 where "try_each (plan_tag_change al i) cs ([], b) = Some (es, b1)"
    using assms(3) by (auto simp: tags_prepare_def bind_eq_Some_conv split: if_splits)
  from tplan.plan_all [OF assms(2) start this]
  have "tag_plan_ok i es" "tag_plan_view i es = row_entries (tag_keys i) (rows_after cs r)"
    by simp_all
  with tags_apply_ok [OF i(1)] show ?thesis
    by (auto simp: index_exact_def row_entries_def row_keys_def tag_keys_def split: option.splits)
qed

subsection \<open>Reference adjacency\<close>

abbreviation back_over :: "ref_adjacency \<Rightarrow> (string \<times> (string \<times> nat) list) list \<Rightarrow> string \<Rightarrow>
    (string \<times> nat) list" where
  "back_over a \<equiv> over (vec_at (adj_reverse a))"

abbreviation fwd_over :: "ref_adjacency \<Rightarrow> (nat \<times> (string \<times> string) list) list \<Rightarrow> nat \<Rightarrow>
    (string \<times> string) list" where
  "fwd_over a \<equiv> over (vec_at (adj_forward a))"

definition adj_plan_view :: "ref_adjacency \<Rightarrow> prepared_adjacency \<Rightarrow> (nat \<times> string \<times> string) set" where
  "adj_plan_view a p = {(n, t, v). (t, n) \<in> set (back_over a (snd p) v)}"

definition adj_plan_ok :: "ref_adjacency \<Rightarrow> prepared_adjacency \<Rightarrow> bool" where
  "adj_plan_ok a p \<longleftrightarrow>
     hm_wf (fst p) \<and> hm_wf (snd p) \<and>
     (\<forall>n. distinct (fwd_over a (fst p) n)) \<and> (\<forall>v. distinct (back_over a (snd p) v)) \<and>
     (\<forall>n t v. (t, v) \<in> set (fwd_over a (fst p) n) \<longleftrightarrow> (t, n) \<in> set (back_over a (snd p) v))"

text \<open>The edges of a row in the order of its tags.\<close>

fun edge_list :: "(string \<times> kind) list \<Rightarrow> (string \<times> string) list" where
  "edge_list [] = []"
| "edge_list ((t, val) # ts) =
     (case val of KRef r \<Rightarrow> if t = ''id'' then [] else [(t, ref_val r)] | _ \<Rightarrow> []) @ edge_list ts"

lemma set_edge_list: "set (edge_list ts) = tag_edges ts"
proof (induction ts rule: edge_list.induct)
  case (2 t val ts)
  then show ?case by (cases val) (auto simp: tag_edges_Cons)
qed (simp add: tag_edges_def)

lemma distinct_edge_list: "hm_wf ts \<Longrightarrow> distinct (edge_list ts)"
proof (induction ts rule: edge_list.induct)
  case (2 t val ts)
  then show ?case
    by (cases val) (force simp: set_edge_list tag_edges_def)+
qed simp

definition unlinked :: "nat \<Rightarrow> (string \<times> kind) list \<Rightarrow> (string \<Rightarrow> (string \<times> nat) list) \<Rightarrow> string \<Rightarrow>
    (string \<times> nat) list" where
  "unlinked n ts f v = filter (\<lambda>(t, m). \<not> (m = n \<and> (t, v) \<in> set (edge_list ts))) (f v)"

definition linked :: "nat \<Rightarrow> (string \<times> kind) list \<Rightarrow> (string \<Rightarrow> (string \<times> nat) list) \<Rightarrow> string \<Rightarrow>
    (string \<times> nat) list" where
  "linked n ts f v = f v @ map (\<lambda>(t, _). (t, n)) (filter (\<lambda>(_, w). w = v) (edge_list ts))"

lemma touch_target_ok:
  assumes "touch_target a v bk b = Some (bk', b')" and "hm_wf bk"
  shows "hm_wf bk' \<and> back_over a bk' = back_over a bk \<and> map_of bk' v = Some (back_over a bk v)"
  using assms
  by (auto simp: touch_target_def bind_eq_Some_conv over_def fun_eq_iff split: if_splits)

lemma plan_target_ok:
  assumes "plan_target a n adding t v (outgoing, bk, b) = Some (outgoing', bk', b')" and "hm_wf bk"
  shows "hm_wf bk' \<and> outgoing' = outgoing @ (if adding then [(t, v)] else []) \<and>
    back_over a bk' = (back_over a bk)
      (v := if adding then back_over a bk v @ [(t, n)]
            else filter (\<lambda>(name, m). name \<noteq> t \<or> m \<noteq> n) (back_over a bk v))"
proof -
  from assms(1) obtain b1 back1 b2 where s: "touch_target a v bk b1 = Some (back1, b2)"
      "outgoing' = outgoing @ (if adding then [(t, v)] else [])"
      "bk' = AList.update v (if adding then the (map_of back1 v) @ [(t, n)]
            else filter (\<lambda>(name, m). name \<noteq> t \<or> m \<noteq> n) (the (map_of back1 v))) back1"
    by (auto simp: plan_target_def bind_eq_Some_conv split: if_splits)
  from touch_target_ok [OF s(1) assms(2)] show ?thesis by (simp add: s(2,3) fun_eq_iff)
qed

lemma linked_single:
  "t \<noteq> ''id'' \<Longrightarrow> linked n [(t, KRef r)] f = f(ref_val r := f (ref_val r) @ [(t, n)])"
  by (simp add: linked_def fun_eq_iff)

lemma unlinked_single:
  assumes "t \<noteq> ''id''"
  shows "unlinked n [(t, KRef r)] f =
    f(ref_val r := filter (\<lambda>(name, m). name \<noteq> t \<or> m \<noteq> n) (f (ref_val r)))"
proof (rule ext)
  fix v
  show "unlinked n [(t, KRef r)] f v =
      (f(ref_val r := filter (\<lambda>(name, m). name \<noteq> t \<or> m \<noteq> n) (f (ref_val r)))) v"
  proof (cases "v = ref_val r")
    case True
    with assms show ?thesis by (simp add: unlinked_def) (rule filter_cong; auto)
  next
    case False
    with assms show ?thesis by (simp add: unlinked_def)
  qed
qed

lemma plan_edge_ok:
  assumes "plan_edge a n adding (t, val) (outgoing, bk, b) = Some (outgoing', bk', b')" and "hm_wf bk"
  shows "hm_wf bk' \<and> outgoing' = outgoing @ (if adding then edge_list [(t, val)] else []) \<and>
    back_over a bk' = (if adding then linked n [(t, val)] (back_over a bk)
      else unlinked n [(t, val)] (back_over a bk))"
proof (cases "\<exists>r. val = KRef r \<and> t \<noteq> ''id''")
  case True
  then obtain r where r: "val = KRef r" "t \<noteq> ''id''" by blast
  then obtain b1 where "plan_target a n adding t (ref_val r) (outgoing, bk, b1) = Some (outgoing', bk', b')"
    using assms(1) by (auto simp: bind_eq_Some_conv)
  from plan_target_ok [OF this assms(2)] r show ?thesis
    by (cases adding) (simp_all add: linked_single unlinked_single)
next
  case False
  then have "edge_list [(t, val)] = []" by (cases val) simp_all
  moreover have "outgoing' = outgoing \<and> bk' = bk"
    using assms(1) False by (cases val) (auto simp: bind_eq_Some_conv)
  ultimately show ?thesis using assms(2) by (simp add: linked_def unlinked_def fun_eq_iff)
qed

lemma edge_list_Cons: "edge_list (x # ts) = edge_list [x] @ edge_list ts"
  by (cases x) simp

lemma linked_Cons: "linked n (x # ts) f = linked n ts (linked n [x] f)"
  unfolding linked_def edge_list_Cons [of x ts] by (simp add: fun_eq_iff)

lemma unlinked_Cons: "unlinked n (x # ts) f = unlinked n ts (unlinked n [x] f)"
  unfolding unlinked_def edge_list_Cons [of x ts]
  by (auto simp: fun_eq_iff intro!: filter_cong)

lemma plan_edges_ok:
  assumes "try_each (plan_edge a n adding) ts (outgoing, bk, b) = Some (outgoing', bk', b')"
    and "hm_wf bk"
  shows "hm_wf bk' \<and> outgoing' = outgoing @ (if adding then edge_list ts else []) \<and>
    back_over a bk' = (if adding then linked n ts (back_over a bk)
      else unlinked n ts (back_over a bk))"
  using assms
proof (induction ts arbitrary: outgoing bk b)
  case Nil
  then show ?case by (auto simp: linked_def unlinked_def fun_eq_iff)
next
  case (Cons x ts)
  obtain t val where x: "x = (t, val)" by force
  from Cons.prems(1) obtain o1 k1 b1 where
    p1: "plan_edge a n adding (t, val) (outgoing, bk, b) = Some (o1, k1, b1)"
    and p2: "try_each (plan_edge a n adding) ts (o1, k1, b1) = Some (outgoing', bk', b')"
    by (auto simp: x bind_eq_Some_conv simp del: plan_edge.simps)
  note s = plan_edge_ok [OF p1 Cons.prems(2)]
  then have "hm_wf k1" by blast
  from Cons.IH [OF p2 this] s show ?case
    unfolding x linked_Cons [of n "(t, val)" ts] unlinked_Cons [of n "(t, val)" ts]
      edge_list_Cons [of "(t, val)" ts]
    by (cases adding) simp_all
qed

definition row_tags :: "hdict option \<Rightarrow> (string \<times> kind) list" where
  "row_tags row = (case row of None \<Rightarrow> [] | Some e \<Rightarrow> tags e)"

lemma plan_edge_row_eq:
  "plan_edge_row a n adding row s = try_each (plan_edge a n adding) (row_tags row) s"
  by (simp add: plan_edge_row_def row_tags_def split: option.split)

lemma set_edge_list_row:
  "pred_option dict_wf row \<Longrightarrow> set (edge_list (row_tags row)) = row_keys (adj_keys a) row"
  by (cases row) (simp_all add: row_tags_def row_keys_def set_edge_list adj_keys_def tag_edges_dict)

lemma plan_adj_change_ok:
  assumes ok: "adj_plan_ok a p" and wf: "change_wf c"
    and at: "{k. (ic_id c, k) \<in> adj_plan_view a p} = row_keys (adj_keys a) (ic_before c)"
    and res: "plan_adj_change a c (p, b) = Some (p', b')"
  shows "adj_plan_ok a p' \<and> adj_plan_view a p' =
    adj_plan_view a p - {ic_id c} \<times> UNIV \<union> {ic_id c} \<times> row_keys (adj_keys a) (ic_after c)"
proof -
  define n where "n = ic_id c"
  define ts where "ts = row_tags (ic_before c)"
  define us where "us = row_tags (ic_after c)"
  obtain fwd bk where p: "p = (fwd, bk)" by force
  from res obtain o1 k1 b1 o2 k2 where
    p1: "try_each (plan_edge a n False) ts ([], bk, b) = Some (o1, k1, b1)" and
    p2: "try_each (plan_edge a n True) us (o1, k1, b1) = Some (o2, k2, b')" and
    p': "p' = (AList.update n o2 fwd, k2)"
    by (auto simp: p plan_adj_change_def bind_eq_Some_conv plan_edge_row_eq n_def ts_def us_def)
  have wfs: "hm_wf fwd" "hm_wf bk" using ok by (simp_all add: adj_plan_ok_def p)
  note s1 = plan_edges_ok [OF p1 wfs(2)]
  then have "hm_wf k1" by blast
  note s2 = plan_edges_ok [OF p2 this]
  have o2: "o2 = edge_list us" using s1 s2 by simp
  have back1: "back_over a k1 v = filter (\<lambda>(t, m). m \<noteq> n) (back_over a bk v)" for v
  proof -
    have "(t, n) \<in> set (back_over a bk v) \<longleftrightarrow> (t, v) \<in> set (edge_list ts)" for t
      using at set_edge_list_row [of "ic_before c" a] wf
      by (auto simp: adj_plan_view_def p n_def ts_def change_wf_def set_eq_iff)
    then show ?thesis using s1 by (auto simp: unlinked_def intro!: filter_cong)
  qed
  have back2: "back_over a k2 v = filter (\<lambda>(t, m). m \<noteq> n) (back_over a bk v) @
      map (\<lambda>(t, _). (t, n)) (filter (\<lambda>(_, w). w = v) (edge_list us))" for v
    using s2 back1 by (simp add: linked_def)
  have us: "hm_wf us" using wf by (auto simp: us_def change_wf_def row_tags_def dict_wf_def split: option.splits)
  have "inj_on (\<lambda>(t, _). (t, n)) (set (filter (\<lambda>(_, w). w = v) (edge_list us)))" for v
    by (auto simp: inj_on_def)
  then have dist: "distinct (back_over a k2 v)" for v
    using ok distinct_edge_list [OF us] unfolding back2
    by (auto simp: adj_plan_ok_def p distinct_map)
  have mem: "(t, m) \<in> set (back_over a k2 v) \<longleftrightarrow>
      (if m = n then (t, v) \<in> set (edge_list us) else (t, m) \<in> set (back_over a bk v))" for t m v
    unfolding back2 by auto
  have "adj_plan_ok a p'"
    using ok s2 dist distinct_edge_list [OF us] mem by (auto simp: adj_plan_ok_def p p' o2)
  moreover have "adj_plan_view a p' = adj_plan_view a p - {n} \<times> UNIV \<union> {n} \<times> set (edge_list us)"
    by (auto simp: adj_plan_view_def p p' mem split: if_splits)
  ultimately show ?thesis
    using set_edge_list_row [of "ic_after c" a] wf by (simp add: n_def us_def change_wf_def)
qed

interpretation aplan: index_plan "plan_adj_change a" "adj_plan_view a" "adj_keys a" "adj_plan_ok a" for a
  by unfold_locales (rule plan_adj_change_ok)

lemma adj_apply_ok:
  assumes "adj_inv a" and "adj_plan_ok a p"
  shows "adj_inv (adj_apply p a) \<and> adj_entries (adj_apply p a) = adj_plan_view a p"
proof -
  have wf: "hm_wf (fst p)" "hm_wf (snd p)" using assms(2) by (simp_all add: adj_plan_ok_def)
  have f: "vec_at (adj_forward (adj_apply p a)) = fwd_over a (fst p)"
      "vec_at (adj_reverse (adj_apply p a)) = back_over a (snd p)"
    using wf by (simp_all add: adj_apply_def vec_at_store_entries fun_eq_iff)
  have "adj_inv (adj_apply p a)"
    using assms wf unfolding adj_inv_def f adj_plan_ok_def
    by (simp add: adj_apply_def hm_wf_store_entries no_empty_store_entries)
  moreover have "adj_entries (adj_apply p a) = adj_plan_view a p"
    using assms(2) unfolding adj_entries_def f adj_plan_view_def adj_plan_ok_def by auto
  ultimately show ?thesis ..
qed

lemma adj_plan_exact:
  assumes "index_exact adj_inv adj_entries adj_keys a r" and "consistent cs r"
    and "adj_prepare al a cs b = Some (p, b')"
  shows "index_exact adj_inv adj_entries adj_keys (adj_apply p a) (rows_after cs r)"
proof -
  have a: "adj_inv a" "adj_entries a = row_entries (adj_keys a) r"
    using assms(1) by (auto simp: index_exact_def row_entries_def row_keys_def split: option.splits)
  have "adj_plan_view a ([], []) = adj_entries a"
    using adj_entries_reverse [OF a(1)] by (auto simp: adj_plan_view_def)
  with a have start: "adj_plan_ok a ([], [])" "adj_plan_view a ([], []) = row_entries (adj_keys a) r"
    by (simp_all add: adj_plan_ok_def adj_inv_def)
  obtain b1 where "try_each (plan_adj_change a) cs (([], []), b) = Some (p, b1)"
    using assms(3) by (auto simp: adj_prepare_def bind_eq_Some_conv)
  from aplan.plan_all [OF assms(2) start this]
  have "adj_plan_ok a p" "adj_plan_view a p = row_entries (adj_keys a) (rows_after cs r)"
    by simp_all
  with adj_apply_ok [OF a(1)] show ?thesis
    by (auto simp: index_exact_def row_entries_def row_keys_def adj_keys_def split: option.splits)
qed

subsection \<open>Field values\<close>

definition slot_base :: "value_index \<Rightarrow> string \<times> orderable_kind \<Rightarrow> nat list" where
  "slot_base i s = vec_at (tree_at i (fst s)) (snd s)"

abbreviation slot_over :: "value_index \<Rightarrow> prepared_values \<Rightarrow> string \<times> orderable_kind \<Rightarrow> nat list" where
  "slot_over i \<equiv> over (slot_base i)"

definition val_plan_view :: "value_index \<Rightarrow> prepared_values \<Rightarrow> (nat \<times> string \<times> orderable_kind) set" where
  "val_plan_view i es = {(n, s). n \<in> set (slot_over i es s)}"

definition val_plan_wf :: "value_index \<Rightarrow> prepared_values \<Rightarrow> bool" where
  "val_plan_wf i es \<longleftrightarrow> bt_wf es \<and> (\<forall>s \<in> fst ` set es. has_index i (fst s))"

definition val_plan_ok :: "value_index \<Rightarrow> prepared_values \<Rightarrow> bool" where
  "val_plan_ok i es \<longleftrightarrow> val_plan_wf i es \<and> (\<forall>s. distinct (slot_over i es s))"

lemma val_plan_wf_insert:
  "val_plan_wf i es \<Longrightarrow> has_index i (fst s) \<Longrightarrow> val_plan_wf i (bt_insert s x es)"
  unfolding val_plan_wf_def bt_keys_insert by (auto simp only: bt_wf_insert ball_simps)

lemma touch_slot_ok:
  assumes "touch_slot additions (tree_at i (fst s)) s es b = Some (es', b')"
    and "val_plan_wf i es" and "has_index i (fst s)"
  shows "val_plan_wf i es' \<and> slot_over i es' = slot_over i es \<and> map_of es' s = Some (slot_over i es s)"
proof (cases "map_of es s")
  case None
  then have "es' = bt_insert s (slot_base i s) es"
    using assms(1) by (auto simp: touch_slot_def bind_eq_Some_conv slot_base_def Let_def)
  with None assms(2,3) show ?thesis
    by (simp add: val_plan_wf_insert fun_eq_iff) (simp add: over_def)
next
  case (Some ids)
  with assms show ?thesis by (auto simp: touch_slot_def over_def)
qed

lemma plan_slot_ok:
  assumes "plan_slot additions (tree_at i (fst s)) n adding s kb (es, b) = Some (es', b')"
    and "val_plan_wf i es" and "has_index i (fst s)"
  shows "val_plan_wf i es' \<and> slot_over i es' = (slot_over i es)
    (s := if adding then slot_over i es s @ [n] else filter (\<lambda>m. m \<noteq> n) (slot_over i es s))"
proof -
  from assms(1) obtain b1 es1 b2 where s: "touch_slot additions (tree_at i (fst s)) s es b1 = Some (es1, b2)"
      "es' = bt_insert s (if adding then the (map_of es1 s) @ [n]
            else filter (\<lambda>m. m \<noteq> n) (the (map_of es1 s))) es1"
    by (auto simp: plan_slot_def bind_eq_Some_conv Let_def split: if_splits)
  from touch_slot_ok [OF s(1) assms(2,3)] assms(3) show ?thesis
    by (simp add: s(2) fun_eq_iff val_plan_wf_insert)
qed

text \<open>The effect of one row on the buckets.\<close>

definition slots_set :: "bool \<Rightarrow> nat \<Rightarrow> (string \<times> orderable_kind) set \<Rightarrow>
    (string \<times> orderable_kind \<Rightarrow> nat list) \<Rightarrow> string \<times> orderable_kind \<Rightarrow> nat list" where
  "slots_set adding n S f s =
     (if s \<in> S then (if adding then f s @ [n] else filter (\<lambda>m. m \<noteq> n) (f s)) else f s)"

lemma plan_value_ok:
  assumes "plan_value i additions n adding (f, x) (es, b) = Some (es', b')" and "val_plan_wf i es"
  shows "val_plan_wf i es' \<and> slot_over i es' = slots_set adding n (tag_values i [(f, x)]) (slot_over i es)"
proof (cases "\<exists>k. has_index i f \<and> orderable_from_kind x = Some k")
  case True
  then obtain k where k: "has_index i f" "orderable_from_kind x = Some k" by blast
  then have tr: "map_of (indexes i) f = Some (tree_at i f)" by (auto simp: has_index_def tree_at_def)
  with k assms(1) obtain b1 where
    "plan_slot additions (tree_at i (fst (f, k))) n adding (f, k) (value_key_bytes x) (es, b1) = Some (es', b')"
    by (auto simp: bind_eq_Some_conv)
  from plan_slot_ok [OF this assms(2)] k(1)
  have "val_plan_wf i es' \<and> slot_over i es' = (slot_over i es)
    ((f, k) := if adding then slot_over i es (f, k) @ [n]
               else filter (\<lambda>m. m \<noteq> n) (slot_over i es (f, k)))" by simp
  moreover have "tag_values i [(f, x)] = {(f, k)}" using k by (auto simp: tag_values_def)
  ultimately show ?thesis by (simp add: slots_set_def fun_eq_iff)
next
  case False
  then have "tag_values i [(f, x)] = {}" by (auto simp: tag_values_def)
  moreover have "es' = es"
    using assms(1) False by (cases "map_of (indexes i) f") (auto simp: bind_eq_Some_conv has_index_def)
  ultimately show ?thesis using assms(2) by (simp add: slots_set_def fun_eq_iff)
qed

lemma plan_values_ok:
  assumes "try_each (plan_value i additions n adding) ts (es, b) = Some (es', b')"
    and "val_plan_wf i es" and "hm_wf ts"
  shows "val_plan_wf i es' \<and> slot_over i es' = slots_set adding n (tag_values i ts) (slot_over i es)"
  using assms
proof (induction ts arbitrary: es b)
  case Nil
  then show ?case by (auto simp: slots_set_def tag_values_def fun_eq_iff)
next
  case (Cons fx ts)
  obtain f x where fx: "fx = (f, x)" by force
  from Cons.prems(1) obtain es1 b1 where
    p1: "plan_value i additions n adding (f, x) (es, b) = Some (es1, b1)"
    and p2: "try_each (plan_value i additions n adding) ts (es1, b1) = Some (es', b')"
    by (auto simp: fx bind_eq_Some_conv simp del: plan_value.simps)
  note s = plan_value_ok [OF p1 Cons.prems(2)]
  then have w: "val_plan_wf i es1" by blast
  have "hm_wf ts" using Cons.prems(3) by simp
  note IH = Cons.IH [OF p2 w this]
  have "tag_values i (fx # ts) = tag_values i [(f, x)] \<union> tag_values i ts"
      "tag_values i [(f, x)] \<inter> tag_values i ts = {}"
    using Cons.prems(3) by (force simp: fx tag_values_def)+
  then have "slots_set adding n (tag_values i (fx # ts)) g =
      slots_set adding n (tag_values i ts) (slots_set adding n (tag_values i [(f, x)]) g)" for g
    by (auto simp: slots_set_def fun_eq_iff)
  with IH s show ?case by simp
qed

lemma plan_value_row_eq:
  "plan_value_row i additions n adding row s = try_each (plan_value i additions n adding) (row_tags row) s"
  by (simp add: plan_value_row_def row_tags_def split: option.split)

lemma tag_values_row: "pred_option dict_wf row \<Longrightarrow> tag_values i (row_tags row) = row_keys (vidx_keys i) row"
  by (cases row) (simp_all add: row_tags_def row_keys_def tag_values_dict, simp add: tag_values_def)

lemma hm_wf_row_tags: "pred_option dict_wf row \<Longrightarrow> hm_wf (row_tags row)"
  by (cases row) (simp_all add: row_tags_def dict_wf_def)

lemma plan_value_change_ok:
  assumes ok: "val_plan_ok i p" and wf: "change_wf c"
    and at: "{k. (ic_id c, k) \<in> val_plan_view i p} = row_keys (vidx_keys i) (ic_before c)"
    and res: "plan_value_change i additions c (p, b) = Some (p', b')"
  shows "val_plan_ok i p' \<and> val_plan_view i p' =
    val_plan_view i p - {ic_id c} \<times> UNIV \<union> {ic_id c} \<times> row_keys (vidx_keys i) (ic_after c)"
proof -
  define n where "n = ic_id c"
  have w: "pred_option dict_wf (ic_before c)" "pred_option dict_wf (ic_after c)"
    using wf by (simp_all add: change_wf_def)
  from res obtain p1 b1 where
    p1: "try_each (plan_value i additions n False) (row_tags (ic_before c)) (p, b) = Some (p1, b1)" and
    p2: "try_each (plan_value i additions n True) (row_tags (ic_after c)) (p1, b1) = Some (p', b')"
    by (auto simp: plan_value_change_def bind_eq_Some_conv plan_value_row_eq n_def)
  have "val_plan_wf i p" using ok by (simp add: val_plan_ok_def)
  note s1 = plan_values_ok [OF p1 this hm_wf_row_tags [OF w(1)]]
  then have "val_plan_wf i p1" by blast
  note s2 = plan_values_ok [OF p2 this hm_wf_row_tags [OF w(2)]]
  have mem: "n \<in> set (slot_over i p s) \<longleftrightarrow> s \<in> row_keys (vidx_keys i) (ic_before c)" for s
  proof -
    have "(n, s) \<in> val_plan_view i p \<longleftrightarrow> s \<in> row_keys (vidx_keys i) (ic_before c)"
      using at unfolding n_def by blast
    then show ?thesis by (simp add: val_plan_view_def)
  qed
  have "slot_over i p1 s = filter (\<lambda>m. m \<noteq> n) (slot_over i p s)" for s
    using s1 mem [of s]
    by (auto simp: slots_set_def tag_values_row [OF w(1)] intro!: filter_True [symmetric])
  then have over2: "slot_over i p' s = filter (\<lambda>m. m \<noteq> n) (slot_over i p s) @
      (if s \<in> row_keys (vidx_keys i) (ic_after c) then [n] else [])" for s
    using s2 by (simp add: slots_set_def tag_values_row [OF w(2)])
  have "distinct (slot_over i p' s)" for s
    using ok unfolding over2 val_plan_ok_def by (cases s) simp
  then have "val_plan_ok i p'" using s2 unfolding val_plan_ok_def by blast
  moreover have "val_plan_view i p' =
      val_plan_view i p - {n} \<times> UNIV \<union> {n} \<times> row_keys (vidx_keys i) (ic_after c)"
    by (auto simp: val_plan_view_def over2 split: if_splits)
  ultimately show ?thesis by (simp add: n_def)
qed

interpretation vplan: index_plan "plan_value_change i additions" "val_plan_view i" "vidx_keys i" "val_plan_ok i"
  for i additions
  by unfold_locales (rule plan_value_change_ok)

lemma values_apply_ok:
  assumes "hm_wf es" and "\<forall>s \<in> fst ` set es. has_index i (fst s)" and "hm_wf (indexes i)"
    and "\<forall>f. bt_wf (tree_at i f) \<and> no_empty_vec (tree_at i f)"
  shows "\<exists>i'. values_apply es i = Some i' \<and> has_index i' = has_index i \<and> hm_wf (indexes i') \<and>
    (\<forall>f. bt_wf (tree_at i' f) \<and> no_empty_vec (tree_at i' f)) \<and> slot_base i' = slot_over i es"
  using assms
proof (induction es i rule: values_apply.induct)
  case (2 f k ids es i)
  from "2.prems"(2) obtain tree where tree: "map_of (indexes i) f = Some tree"
    by (auto simp: has_index_def)
  define tree' where "tree' = (if ids = [] then AList.delete k tree else bt_insert k ids tree)"
  define i1 where "i1 = i\<lparr>indexes := AList.update f tree' (indexes i)\<rparr>"
  have at: "tree_at i1 g = (if g = f then tree' else tree_at i g)" for g
    by (simp add: tree_at_def i1_def)
  have t: "tree_at i f = tree" using tree by (simp add: tree_at_def)
  have ix: "has_index i1 = has_index i" using tree by (auto simp: has_index_def i1_def fun_eq_iff)
  have "bt_wf tree' \<and> no_empty_vec tree'"
    using "2.prems"(4) t by (auto simp: tree'_def no_empty_vec_def)
  then have ok1: "\<forall>f. bt_wf (tree_at i1 f) \<and> no_empty_vec (tree_at i1 f)"
    using "2.prems"(4) by (simp add: at)
  have b1: "slot_base i1 = (slot_base i)((f, k) := ids)"
    by (auto simp: slot_base_def at tree'_def t fun_eq_iff)
  have "map_of es (f, k) = None" using "2.prems"(1) by (simp add: map_of_eq_None_iff)
  then have "over (slot_base i1) es = slot_over i (((f, k), ids) # es)"
    by (auto simp: b1 over_def fun_eq_iff split: option.splits)
  moreover have "\<exists>i'. values_apply es i1 = Some i' \<and> has_index i' = has_index i1 \<and> hm_wf (indexes i') \<and>
    (\<forall>f. bt_wf (tree_at i' f) \<and> no_empty_vec (tree_at i' f)) \<and> slot_base i' = over (slot_base i1) es"
    unfolding i1_def tree'_def
    using "2.prems"(1,2,3) ok1 ix
    by (intro "2.IH" [OF tree]) (simp_all add: i1_def tree'_def)
  moreover have "values_apply (((f, k), ids) # es) i = values_apply es i1"
    using tree by (simp add: i1_def tree'_def)
  ultimately show ?case by (simp only: ix)
qed (simp add: fun_eq_iff)

lemma values_plan_view:
  assumes "index_exact vidx_inv vidx_entries vidx_keys i r" and "consistent cs r"
    and "values_prepare i cs b = Some (es, b')"
  shows "val_plan_ok i es \<and> val_plan_view i es = row_entries (vidx_keys i) (rows_after cs r)"
proof -
  have i: "vidx_inv i" "vidx_entries i = row_entries (vidx_keys i) r"
    using assms(1) by (auto simp: index_exact_def row_entries_def row_keys_def split: option.splits)
  have "val_plan_view i [] = vidx_entries i"
    by (auto simp: val_plan_view_def vidx_entries_def slot_base_def)
  with i have start: "val_plan_ok i []" "val_plan_view i [] = row_entries (vidx_keys i) r"
    by (simp_all add: val_plan_ok_def val_plan_wf_def slot_base_def vidx_inv_def tree_ok_def)
  obtain b1 additions where "try_each (plan_value_change i additions) cs ([], b1) = Some (es, b')"
    using assms(3) by (auto simp: values_prepare_def bind_eq_Some_conv Let_def)
  from vplan.plan_all [OF assms(2) start this] show ?thesis .
qed

text \<open>A plan carries over to an index with the same fields and entries, in any order.\<close>

lemma val_plan_transfer:
  assumes "val_plan_ok i es" and "vidx_inv j" and "has_index j = has_index i"
    and "vidx_entries j = vidx_entries i"
  shows "val_plan_ok j es \<and> val_plan_view j es = val_plan_view i es"
proof -
  have "set (slot_base j s) = set (slot_base i s)" for s
    using assms(4) by (cases s) (auto simp: vidx_entries_def slot_base_def set_eq_iff)
  then have sets: "set (slot_over j es s) = set (slot_over i es s)" for s
    by (cases "map_of es s") (simp_all add: over_def)
  have "distinct (slot_over j es s)" for s
  proof (cases "map_of es s")
    case None
    then show ?thesis using assms(2) by (simp add: over_def slot_base_def vidx_inv_def tree_ok_def)
  next
    case (Some x)
    moreover have "distinct (slot_over i es s)" using assms(1) unfolding val_plan_ok_def by blast
    ultimately show ?thesis by (simp add: over_def)
  qed
  moreover have "val_plan_wf j es" using assms(1,3) by (simp add: val_plan_ok_def val_plan_wf_def)
  ultimately have "val_plan_ok j es" unfolding val_plan_ok_def by blast
  moreover have "val_plan_view j es = val_plan_view i es" by (simp add: val_plan_view_def sets)
  ultimately show ?thesis by blast
qed

lemma values_plan_exact:
  assumes "index_exact vidx_inv vidx_entries vidx_keys i r" and "consistent cs r"
    and "values_prepare i cs b = Some (es, b')"
    and "vidx_inv j" and "has_index j = has_index i" and "vidx_entries j = vidx_entries i"
  shows "\<exists>i'. values_apply es j = Some i' \<and> has_index i' = has_index j \<and>
    index_exact vidx_inv vidx_entries vidx_keys i' (rows_after cs r)"
proof -
  note plan = values_plan_view [OF assms(1-3)]
  have ok: "val_plan_ok j es" and view: "val_plan_view j es = row_entries (vidx_keys j) (rows_after cs r)"
    using plan val_plan_transfer [OF _ assms(4-6)] vidx_keys_cong [OF assms(5)] by simp_all
  have "hm_wf es" using ok bt_wf_distinct [of es] by (simp add: val_plan_ok_def val_plan_wf_def)
  moreover have "\<forall>s \<in> fst ` set es. has_index j (fst s)"
    using ok by (simp add: val_plan_ok_def val_plan_wf_def)
  moreover have "hm_wf (indexes j)" "\<forall>f. bt_wf (tree_at j f) \<and> no_empty_vec (tree_at j f)"
    using assms(4) by (simp_all add: vidx_inv_def tree_ok_def)
  ultimately obtain i' where i': "values_apply es j = Some i'" "has_index i' = has_index j"
      "hm_wf (indexes i')" "\<forall>f. bt_wf (tree_at i' f) \<and> no_empty_vec (tree_at i' f)"
      "slot_base i' = slot_over j es"
    using values_apply_ok by blast
  have vec: "vec_at (tree_at i' f) k = slot_over j es (f, k)" for f k
    using fun_cong [OF i'(5), of "(f, k)"] by (simp add: slot_base_def)
  have "vidx_inv i'" using i'(3,4) ok by (simp add: vidx_inv_def tree_ok_def vec val_plan_ok_def)
  moreover have "vidx_entries i' = val_plan_view j es"
    by (auto simp: vidx_entries_def vec val_plan_view_def)
  ultimately have "index_exact vidx_inv vidx_entries vidx_keys i' (rows_after cs r)"
    using view vidx_keys_cong [OF i'(2)]
    by (auto simp: index_exact_def row_entries_def row_keys_def split: option.splits)
  with i' show ?thesis by blast
qed

end
