(* ===== verification/Prepared_Batch.thy ===== *)
theory Prepared_Batch
  imports Recovery Index_Plans
begin

text \<open>
  Atomic entity batches: \<open>graph/prepared.rs\<close>.

  \<open>prepare_batch\<close> reads the graph and builds a plan: the rows before and after, the diffs of
  one commit unit, the numbers taken and freed, and a plan for each index.  \<open>apply_prepared\<close>
  checks that the graph has not moved and publishes the plan.  Every allocation is charged to one
  budget; the allocator is the argument \<open>platform\<close>.
\<close>

section \<open>Operations, limits and errors\<close>

datatype entity_operation =
    OpAdd hdict
  | OpPatch string hdict
  | OpRemove string

fun target :: "entity_operation \<Rightarrow> (graph_error, string) res" where
  "target (OpAdd row) =
     (case dict_get row ''id'' of
        Some (KRef r) \<Rightarrow> Inr (ref_val r)
      | Some _ \<Rightarrow> Inl (Err InvalidId)
      | None \<Rightarrow> Inl (Err MissingId))"
| "target (OpPatch ident changes) = Inr ident"
| "target (OpRemove ident) = Inr ident"

record batch_limits =
  bl_max_operations :: nat
  bl_max_work :: nat
  bl_max_retained_bytes :: nat
  bl_max_value_depth :: nat

definition batch_limits_default :: batch_limits where
  "batch_limits_default =
     \<lparr>bl_max_operations = 128, bl_max_work = 1000000,
      bl_max_retained_bytes = 16 * 1024 * 1024, bl_max_value_depth = 32\<rparr>"

datatype batch_error =
    BatchEmpty
  | DuplicateTarget
  | BatchLimit
  | BatchConflict
  | BatchEntity graph_error

definition entity_err :: "(graph_error, 'a) res \<Rightarrow> (batch_error, 'a) res" where
  "entity_err r =
     (case r of Inl (Err e) \<Rightarrow> Inl (Err (BatchEntity e)) | Inl Panic \<Rightarrow> Inl Panic | Inr a \<Rightarrow> Inr a)"

definition limit_err :: "'a option \<Rightarrow> (batch_error, 'a) res" where
  "limit_err x = ok_or (Err BatchLimit) x"

section \<open>Plans\<close>

record prepared_change =
  pc_id :: string
  pc_op :: diff_op
  pc_before :: "hdict option"
  pc_after :: "hdict option"
  pc_changed :: bool
  pc_numeric_id :: nat
  pc_map_keys :: "(string \<times> string) option"

record prepared_batch =
  pb_state :: graph_state
  pb_index_generation :: nat
  pb_after_revision :: nat
  pb_retained_bytes :: nat
  pb_changes :: "prepared_change list"
  pb_diffs :: "graph_diff list"
  pb_tags :: prepared_tags
  pb_adjacency :: prepared_adjacency
  pb_values :: prepared_values
  pb_free_ids_consumed :: nat
  pb_freed_ids :: "nat list"
  pb_next_id :: nat

definition batch_span :: "prepared_batch \<Rightarrow> commit_span option" where
  "batch_span p = (case pb_diffs p of [] \<Rightarrow> None | d # _ \<Rightarrow> Some (gd_span d))"

definition plan_buffer_bytes :: "platform \<Rightarrow> nat \<Rightarrow> (batch_error, nat) res" where
  "plan_buffer_bytes al operations =
     limit_err (try_each
       (\<lambda>elem total. Option.bind (layout_array elem operations) (checked_add_usize total))
       [size_prepared_change al, size_graph_diff al, 8, size_index_change al] 0)"

section \<open>Preparing one operation\<close>

record batch_state =
  bs_budget :: value_budget
  bs_seen :: "string list"
  bs_changes :: "prepared_change list"
  bs_diffs :: "graph_diff list"
  bs_consumed :: nat
  bs_freed :: "nat list"
  bs_next_id :: nat
  bs_revision :: nat

text \<open>The number of a new entity: the one freed last in this batch, then the graph's free list
  from its end, then the next unused one.\<close>

definition plan_id :: "entity_graph \<Rightarrow> batch_state \<Rightarrow> (batch_error, nat \<times> batch_state) res" where
  "plan_id g st =
     (if bs_freed st \<noteq> [] then Inr (last (bs_freed st), st\<lparr>bs_freed := butlast (bs_freed st)\<rparr>)
      else if bs_consumed st < length (free_ids g) then
        (let consumed = bs_consumed st + 1
         in Inr (free_ids g ! (length (free_ids g) - consumed), st\<lparr>bs_consumed := consumed\<rparr>))
      else if MAX_ENTITY_ID < bs_next_id st then Inl (Err (BatchEntity IdExhausted))
      else
        rbind (ok_or (Err (BatchEntity IdExhausted)) (checked_add_usize (bs_next_id st) 1))
          (\<lambda>next. Inr (bs_next_id st, st\<lparr>bs_next_id := next\<rparr>)))"

record effect =
  ef_op :: diff_op
  ef_after :: "hdict option"
  ef_numeric :: nat
  ef_changed :: bool
  ef_delta :: "(hdict \<times> hdict) option"

fun plan_effect ::
  "entity_graph \<Rightarrow> string \<Rightarrow> hdict option \<Rightarrow> entity_operation \<Rightarrow> batch_state \<Rightarrow>
   (batch_error, effect \<times> batch_state) res" where
  "plan_effect g ident before (OpAdd row) st =
     (if before \<noteq> None then Inl (Err (BatchEntity (DuplicateRef ident)))
      else
        rbind (limit_err (budget_dict row 1 (bs_budget st))) (\<lambda>b.
        rbind (plan_id g (st\<lparr>bs_budget := b\<rparr>)) (\<lambda>(numeric, st).
        Inr (\<lparr>ef_op = DiffAdd, ef_after = Some row, ef_numeric = numeric, ef_changed = True,
              ef_delta = None\<rparr>, st))))"
| "plan_effect g ident before (OpPatch _ changes) st =
     rbind (ok_or (Err (BatchEntity (NotFound ident))) before) (\<lambda>old.
     if (case dict_get changes ''id'' of
           None \<Rightarrow> False
         | Some (KRef r) \<Rightarrow> ref_val r \<noteq> ident
         | Some _ \<Rightarrow> True)
     then Inl (Err (BatchEntity ImmutableId))
     else
     rbind (limit_err (budget_dict changes 1 (bs_budget st))) (\<lambda>b.
     rbind (limit_err (budget_dict old 1 b)) (\<lambda>b.
     let after = dict_merge old changes in
     rbind (limit_err (budget_dict after 1 b)) (\<lambda>b.
     rbind (limit_err (charge_previous old (tags changes) b)) (\<lambda>b.
     let previous = previous_values old (tags changes) dict_new in
     rbind (limit_err (budget_dict changes 1 b)) (\<lambda>b.
     rbind (expect (map_of (id_map g) ident)) (\<lambda>numeric.
     Inr (\<lparr>ef_op = DiffUpdate, ef_after = Some after, ef_numeric = numeric,
           ef_changed = (\<not> dict_is_empty changes), ef_delta = Some (changes, previous)\<rparr>,
          st\<lparr>bs_budget := b\<rparr>))))))))"
| "plan_effect g ident before (OpRemove _) st =
     (if before = None then Inl (Err (BatchEntity (NotFound ident)))
      else
        rbind (expect (map_of (id_map g) ident)) (\<lambda>numeric.
        Inr (\<lparr>ef_op = DiffRemove, ef_after = None, ef_numeric = numeric, ef_changed = True,
              ef_delta = None\<rparr>, st\<lparr>bs_freed := bs_freed st @ [numeric]\<rparr>)))"

definition effect_bytes ::
  "entity_graph \<Rightarrow> string \<Rightarrow> hdict option \<Rightarrow> entity_operation \<Rightarrow> effect \<Rightarrow> (batch_error, nat) res" where
  "effect_bytes g ident before oper ef =
     (case ef_op ef of
        DiffAdd \<Rightarrow>
          limit_err (diff_bytes ident (case ef_after ef of Some e \<Rightarrow> [e] | None \<Rightarrow> [])
            (changelog_byte_capacity g))
      | DiffRemove \<Rightarrow>
          limit_err (diff_bytes ident (case before of Some e \<Rightarrow> [e] | None \<Rightarrow> [])
            (changelog_byte_capacity g))
      | DiffUpdate \<Rightarrow>
          rbind (expect before) (\<lambda>old.
          case oper of
            OpPatch _ changes \<Rightarrow>
              limit_err (patch_diff_bytes ident old changes (changelog_byte_capacity g))
          | _ \<Rightarrow> Inl Panic))"

definition effect_diff :: "string \<Rightarrow> hdict option \<Rightarrow> effect \<Rightarrow> nat \<Rightarrow> nat \<Rightarrow> graph_diff" where
  "effect_diff ident before ef ver bytes =
     \<lparr>gd_version = ver, gd_span = singleton ver, gd_retained_bytes = bytes, gd_timestamp = 0,
      gd_op = ef_op ef, gd_ref_val = ident,
      gd_old = (if ef_op ef = DiffRemove then before else None),
      gd_new = (if ef_op ef = DiffAdd then ef_after ef else None),
      gd_changed_tags = map_option fst (ef_delta ef),
      gd_previous_tags = map_option snd (ef_delta ef)\<rparr>"

definition plan_diff ::
  "entity_graph \<Rightarrow> string \<Rightarrow> hdict option \<Rightarrow> entity_operation \<Rightarrow> effect \<Rightarrow> batch_state \<Rightarrow>
   (batch_error, batch_state) res" where
  "plan_diff g ident before oper ef st =
     (if ef_changed ef then
        rbind (ok_or (Err (BatchEntity RevisionExhausted)) (checked_add_u64 (bs_revision st) 1)) (\<lambda>ver.
        rbind (effect_bytes g ident before oper ef) (\<lambda>bytes.
        rbind (limit_err (charge 1 bytes (bs_budget st))) (\<lambda>b.
        Inr (st\<lparr>bs_budget := b, bs_revision := ver,
                bs_diffs := bs_diffs st @ [effect_diff ident before ef ver bytes]\<rparr>))))
      else Inr st)"

definition effect_change :: "string \<Rightarrow> hdict option \<Rightarrow> effect \<Rightarrow> prepared_change" where
  "effect_change ident before ef =
     \<lparr>pc_id = ident, pc_op = ef_op ef, pc_before = before, pc_after = ef_after ef,
      pc_changed = ef_changed ef, pc_numeric_id = ef_numeric ef,
      pc_map_keys = (if ef_op ef = DiffAdd then Some (ident, ident) else None)\<rparr>"

definition plan_operation ::
  "entity_graph \<Rightarrow> entity_operation \<Rightarrow> batch_state \<Rightarrow> (batch_error, batch_state) res" where
  "plan_operation g oper st =
     rbind (entity_err (target oper)) (\<lambda>ident.
     rbind (limit_err (charge (saturating_add (length ident) 1)
       (saturating_add (saturating_mul (length ident) 4) 1024) (bs_budget st))) (\<lambda>b.
     if ident \<in> set (bs_seen st) then Inl (Err DuplicateTarget)
     else
     let before = map_of (entities g) ident in
     rbind (limit_err (case before of Some row \<Rightarrow> budget_dict row 1 b | None \<Rightarrow> Some b)) (\<lambda>b.
     rbind (plan_effect g ident before oper (st\<lparr>bs_budget := b, bs_seen := ident # bs_seen st\<rparr>))
       (\<lambda>(ef, st).
     rbind (plan_diff g ident before oper ef st) (\<lambda>st.
     Inr (st\<lparr>bs_changes := bs_changes st @ [effect_change ident before ef]\<rparr>))))))"

fun plan_operations ::
  "entity_graph \<Rightarrow> entity_operation list \<Rightarrow> batch_state \<Rightarrow> (batch_error, batch_state) res" where
  "plan_operations g [] st = Inr st"
| "plan_operations g (oper # opers) st = rbind (plan_operation g oper st) (plan_operations g opers)"

section \<open>Preparing the batch\<close>

fun charge_eviction ::
  "nat \<Rightarrow> nat \<Rightarrow> graph_diff list \<Rightarrow> nat \<Rightarrow> nat \<Rightarrow> value_budget \<Rightarrow> value_budget option" where
  "charge_eviction cap byte_cap [] kept retained_total b = Some b"
| "charge_eviction cap byte_cap (d # ds) kept retained_total b =
     (if kept \<le> cap \<and> retained_total \<le> byte_cap \<and> gd_version d = span_first (gd_span d) then Some b
      else
        Option.bind (charge 1 0 b) (\<lambda>b.
        charge_eviction cap byte_cap ds (kept - 1) (retained_total - gd_retained_bytes d) b))"

definition charge_map_growth :: "nat \<Rightarrow> nat \<Rightarrow> nat \<Rightarrow> value_budget \<Rightarrow> value_budget option" where
  "charge_map_growth additions len capacity b =
     (if capacity - len < additions
      then charge (saturating_add len additions)
             (saturating_mul (saturating_add len additions) 256) b
      else Some b)"

definition charge_vec_growth :: "nat \<Rightarrow> nat \<Rightarrow> nat \<Rightarrow> nat \<Rightarrow> value_budget \<Rightarrow> value_budget option" where
  "charge_vec_growth additions len capacity elem b =
     (if capacity - len < additions
      then charge len
             (saturating_mul (saturating_mul (saturating_add len additions) elem) 2) b
      else Some b)"

definition unit_diffs_of :: "graph_diff list \<Rightarrow> nat \<Rightarrow> graph_diff list" where
  "unit_diffs_of diffs final =
     (case diffs of
        [] \<Rightarrow> []
      | d # _ \<Rightarrow> map (\<lambda>x. x\<lparr>gd_span := \<lparr>span_first = gd_version d, span_last = final\<rparr>\<rparr>) diffs)"

definition count_adds :: "prepared_change list \<Rightarrow> nat" where
  "count_adds cs = length (filter (\<lambda>c. pc_op c = DiffAdd) cs)"

definition indexed_changes :: "prepared_change list \<Rightarrow> index_change list" where
  "indexed_changes cs =
     map (\<lambda>c. \<lparr>ic_id = pc_numeric_id c, ic_before = pc_before c, ic_after = pc_after c\<rparr>)
       (filter pc_changed cs)"

definition finish_batch ::
  "platform \<Rightarrow> entity_graph \<Rightarrow> batch_state \<Rightarrow> (batch_error, prepared_batch) res" where
  "finish_batch al g st =
     rbind (limit_err (sum_retained (bs_diffs st) 0)) (\<lambda>bytes.
     if changelog_capacity g < length (bs_diffs st) \<or> changelog_byte_capacity g < bytes
     then Inl (Err BatchLimit)
     else
     let diffs = unit_diffs_of (bs_diffs st) (bs_revision st);
         additions = count_adds (bs_changes st) in
     rbind (limit_err (charge_map_growth additions (length (id_map g)) (cap_id_map al) (bs_budget st))) (\<lambda>b.
     rbind (limit_err (charge_map_growth additions (length (reverse_id g)) (cap_reverse_id al) b)) (\<lambda>b.
     rbind (limit_err (charge_vec_growth (length diffs) (length (changelog g)) (cap_changelog al)
       (size_graph_diff al) b)) (\<lambda>b.
     rbind (limit_err (charge_vec_growth (length (bs_freed st)) (length (free_ids g)) (cap_free_ids al)
       8 b)) (\<lambda>b.
     let indexed = indexed_changes (bs_changes st) in
     rbind (limit_err (tags_prepare al (g_tags g) indexed b)) (\<lambda>(ptags, b).
     rbind (limit_err (adj_prepare al (adjacency g) indexed b)) (\<lambda>(padj, b).
     rbind (limit_err (values_prepare (g_values g) indexed b)) (\<lambda>(pvals, b).
     rbind (limit_err (charge_eviction (changelog_capacity g) (changelog_byte_capacity g) (changelog g)
       (saturating_add (length (changelog g)) (length diffs))
       (saturating_add (changelog_bytes g) bytes) b)) (\<lambda>b.
     Inr \<lparr>pb_state = graph_state g, pb_index_generation = index_generation g,
          pb_after_revision = bs_revision st, pb_retained_bytes = used_bytes b,
          pb_changes = bs_changes st, pb_diffs = diffs, pb_tags = ptags, pb_adjacency = padj,
          pb_values = pvals, pb_free_ids_consumed = bs_consumed st, pb_freed_ids = bs_freed st,
          pb_next_id = bs_next_id st\<rparr>)))))))))"

definition batch_start :: "entity_graph \<Rightarrow> value_budget \<Rightarrow> batch_state" where
  "batch_start g b =
     \<lparr>bs_budget = b, bs_seen = [], bs_changes = [], bs_diffs = [], bs_consumed = 0,
      bs_freed = [], bs_next_id = next_id g, bs_revision = version g\<rparr>"

definition prepare_batch ::
  "platform \<Rightarrow> entity_graph \<Rightarrow> nat \<Rightarrow> entity_operation list \<Rightarrow> batch_limits \<Rightarrow>
   (batch_error, prepared_batch) res" where
  "prepare_batch al g expected_revision opers limits =
     (if expected_revision \<noteq> version g then Inl (Err BatchConflict)
      else if opers = [] then Inl (Err BatchEmpty)
      else if bl_max_operations limits < length opers \<or> bl_max_value_depth limits = 0 \<or>
              64 < bl_max_value_depth limits
      then Inl (Err BatchLimit)
      else
        rbind (plan_buffer_bytes al (length opers)) (\<lambda>buffers.
        rbind (limit_err (charge (length opers) buffers
          (budget_new (bl_max_work limits) (bl_max_retained_bytes limits) (bl_max_value_depth limits))))
          (\<lambda>b.
        rbind (plan_operations g opers (batch_start g b)) (finish_batch al g))))"

section \<open>Publishing\<close>

fun apply_change :: "prepared_change \<Rightarrow> entity_graph \<Rightarrow> entity_graph option" where
  "apply_change c g =
     (if \<not> pc_changed c then Some g
      else
        (case pc_op c of
           DiffAdd \<Rightarrow>
             (case (pc_map_keys c, pc_after c) of
                (Some (fk, rk), Some row) \<Rightarrow>
                  Some (g\<lparr>id_map := AList.update fk (pc_numeric_id c) (id_map g),
                           reverse_id := AList.update (pc_numeric_id c) rk (reverse_id g),
                           entities := bt_insert (pc_id c) row (entities g)\<rparr>)
              | _ \<Rightarrow> None)
         | DiffUpdate \<Rightarrow>
             map_option (\<lambda>row. g\<lparr>entities := bt_insert (pc_id c) row (entities g)\<rparr>) (pc_after c)
         | DiffRemove \<Rightarrow>
             Some (g\<lparr>entities := AList.delete (pc_id c) (entities g),
                      id_map := AList.delete (pc_id c) (id_map g),
                      reverse_id := AList.delete (pc_numeric_id c) (reverse_id g)\<rparr>)))"

definition reserves :: "platform \<Rightarrow> prepared_batch \<Rightarrow> bool" where
  "reserves al p \<longleftrightarrow>
     try_reserve al ''id_map'' (count_adds (pb_changes p)) \<and>
     try_reserve al ''reverse_id'' (count_adds (pb_changes p)) \<and>
     try_reserve al ''free_ids'' (length (pb_freed_ids p)) \<and>
     try_reserve al ''changelog'' (length (pb_diffs p)) \<and>
     try_reserve al ''bitmaps'' (length (pb_tags p)) \<and>
     try_reserve al ''forward'' (length (fst (pb_adjacency p))) \<and>
     try_reserve al ''reverse'' (length (snd (pb_adjacency p)))"

definition apply_prepared ::
  "platform \<Rightarrow> int \<Rightarrow> prepared_batch \<Rightarrow> entity_graph \<Rightarrow>
   (batch_error, commit_span option \<times> entity_graph) res" where
  "apply_prepared al now p g =
     (if graph_state g \<noteq> pb_state p \<or> index_generation g \<noteq> pb_index_generation p
      then Inl (Err BatchConflict)
      else if \<not> reserves al p then Inl (Err BatchLimit)
      else
        rbind (expect (try_each apply_change (pb_changes p) g)) (\<lambda>g.
        let g = g\<lparr>free_ids := take (length (free_ids g) - pb_free_ids_consumed p) (free_ids g) @
                                pb_freed_ids p,
                  next_id := pb_next_id p, g_tags := tags_apply (pb_tags p) (g_tags g),
                  adjacency := adj_apply (pb_adjacency p) (adjacency g)\<rparr> in
        rbind (expect (values_apply (pb_values p) (g_values g))) (\<lambda>v.
        let g = g\<lparr>g_values := v, version := pb_after_revision p\<rparr> in
        rbind (expect (if pb_diffs p = [] then Some g else append_committed_unit now (pb_diffs p) g)) (\<lambda>g.
        Inr (batch_span p,
          g\<lparr>g_query_cache := (g_query_cache g)\<lparr>qc_capacity :=
              max (qc_capacity (g_query_cache g)) (query_cache_capacity_for (length (entities g)))\<rparr>\<rparr>)))))"

end
