(* ===== verification/Batch_Correct.thy ===== *)
theory Batch_Correct
  imports Prepared_Batch
begin

text \<open>
  Atomic batches do what their operations do one after the other.

  \<open>batch_inv\<close> relates the planner's state to the graph the plan would publish: its rows, its
  numbering, the index changes and the diffs all describe the same result.  Planning an
  operation keeps it and follows the abstract store; publishing a plan then installs that result
  under one commit unit.
\<close>

declare apply_change.simps [simp del]

section \<open>The operations of a batch on the abstract store\<close>

fun spec_operation :: "entity_operation \<Rightarrow> spec_store \<Rightarrow> (graph_error, spec_store) res" where
  "spec_operation (OpAdd row) s = map_sum (\<lambda>e. e) snd (spec_add row s)"
| "spec_operation (OpPatch ident changes) s = spec_update ident changes s"
| "spec_operation (OpRemove ident) s = map_sum (\<lambda>e. e) snd (spec_remove ident s)"

fun spec_operations :: "entity_operation list \<Rightarrow> spec_store \<Rightarrow> (graph_error, spec_store) res" where
  "spec_operations [] s = Inr s"
| "spec_operations (oper # opers) s = rbind (spec_operation oper s) (spec_operations opers)"

fun op_wf :: "entity_operation \<Rightarrow> bool" where
  "op_wf (OpAdd row) = dict_wf row"
| "op_wf (OpPatch ident changes) = dict_wf changes"
| "op_wf (OpRemove ident) = True"

section \<open>The planner's invariant\<close>

definition plan_free :: "entity_graph \<Rightarrow> batch_state \<Rightarrow> nat list" where
  "plan_free g st = take (length (free_ids g) - bs_consumed st) (free_ids g) @ bs_freed st"

definition plan_rows :: "entity_graph \<Rightarrow> batch_state \<Rightarrow> entity_graph \<Rightarrow> bool" where
  "plan_rows g st h \<longleftrightarrow>
     try_each apply_change (bs_changes st) g = Some h \<and>
     consistent (indexed_changes (bs_changes st)) (rows g) \<and>
     rows_after (indexed_changes (bs_changes st)) (rows g) = rows h \<and>
     (\<forall>rv. rv \<notin> set (bs_seen st) \<longrightarrow>
        map_of (entities h) rv = map_of (entities g) rv \<and> map_of (id_map h) rv = map_of (id_map g) rv)"

definition plan_ids :: "entity_graph \<Rightarrow> batch_state \<Rightarrow> entity_graph \<Rightarrow> bool" where
  "plan_ids g st h \<longleftrightarrow>
     ids_ok (id_map h) (reverse_id h) (bs_next_id st) (plan_free g st) \<and>
     ents_ok (entities h) (id_map h) \<and> bs_consumed st \<le> length (free_ids g)"

definition plan_log :: "entity_graph \<Rightarrow> batch_state \<Rightarrow> entity_graph \<Rightarrow> bool" where
  "plan_log g st h \<longleftrightarrow>
     map gd_version (bs_diffs st) = [Suc (version g)..<Suc (bs_revision st)] \<and>
     version g \<le> bs_revision st \<and> bs_revision st \<le> U64_MAX \<and>
     (\<forall>d \<in> set (bs_diffs st). diff_ok d) \<and>
     map_of (entities h) = fold apply_diff (bs_diffs st) (map_of (entities g))"

text \<open>One diff per effective change; without one nothing was taken from the free list.\<close>

definition plan_idle :: "entity_graph \<Rightarrow> batch_state \<Rightarrow> bool" where
  "plan_idle g st \<longleftrightarrow>
     length (bs_diffs st) = length (filter pc_changed (bs_changes st)) \<and>
     (bs_diffs st = [] \<longrightarrow> bs_consumed st = 0 \<and> bs_freed st = [] \<and> bs_next_id st = next_id g)"

definition batch_inv :: "entity_graph \<Rightarrow> batch_state \<Rightarrow> entity_graph \<Rightarrow> bool" where
  "batch_inv g st h \<longleftrightarrow> plan_rows g st h \<and> plan_ids g st h \<and> plan_log g st h \<and> plan_idle g st"

definition batch_abs :: "batch_state \<Rightarrow> entity_graph \<Rightarrow> spec_store" where
  "batch_abs st h = \<lparr>contents = map_of (entities h), revision = bs_revision st\<rparr>"

lemma batch_inv_budget [simp]: "batch_inv g (st\<lparr>bs_budget := b\<rparr>) h = batch_inv g st h"
  by (simp add: batch_inv_def plan_rows_def plan_ids_def plan_log_def plan_idle_def plan_free_def)

lemma batch_abs_budget [simp]:
  "batch_abs (st\<lparr>bs_budget := b\<rparr>) h = batch_abs st h"
  "batch_abs (st\<lparr>bs_changes := cs\<rparr>) h = batch_abs st h"
  by (simp_all add: batch_abs_def)

lemma batch_inv_seen: "batch_inv g st h \<Longrightarrow> batch_inv g (st\<lparr>bs_seen := i # bs_seen st\<rparr>) h"
  unfolding batch_inv_def plan_rows_def plan_ids_def plan_log_def plan_idle_def plan_free_def by fastforce

lemma batch_inv_start:
  assumes "graph_inv g"
  shows "batch_inv g (batch_start g b) g"
  using assms
  by (simp add: batch_inv_def plan_rows_def plan_ids_def plan_log_def plan_idle_def plan_free_def batch_start_def
      indexed_changes_def graph_inv_def feed_inv_def)

section \<open>Applying the planned rows\<close>

lemma try_each_append: "try_each f (xs @ ys) s = Option.bind (try_each f xs s) (try_each f ys)"
  by (induction xs arbitrary: s) (auto simp: Option.bind_assoc cong: Option.bind_cong)

definition same_rows :: "entity_graph \<Rightarrow> entity_graph \<Rightarrow> bool" where
  "same_rows g g' \<longleftrightarrow>
     entities g' = entities g \<and> id_map g' = id_map g \<and> reverse_id g' = reverse_id g"

definition with_rows :: "entity_graph \<Rightarrow> entity_graph \<Rightarrow> entity_graph" where
  "with_rows g h = g\<lparr>entities := entities h, id_map := id_map h, reverse_id := reverse_id h\<rparr>"

lemma apply_change_rows:
  assumes "apply_change c g = Some h" and "same_rows g g'"
  shows "apply_change c g' = Some (with_rows g' h)"
  using assms
  by (auto simp: apply_change.simps same_rows_def with_rows_def split: if_splits diff_op.splits option.splits)

lemma apply_changes_rows:
  "try_each apply_change cs g = Some h \<Longrightarrow> same_rows g g' \<Longrightarrow>
   try_each apply_change cs g' = Some (with_rows g' h)"
proof (induction cs arbitrary: g g')
  case Nil
  then show ?case by (simp add: same_rows_def with_rows_def)
next
  case (Cons c cs)
  then obtain k where k: "apply_change c g = Some k" "try_each apply_change cs k = Some h"
    by (auto simp: bind_eq_Some_conv)
  from apply_change_rows [OF k(1) Cons.prems(2)]
  have "apply_change c g' = Some (with_rows g' k)" .
  moreover have "same_rows k (with_rows g' k)" by (simp add: same_rows_def with_rows_def)
  from Cons.IH [OF k(2) this] have "try_each apply_change cs (with_rows g' k) = Some (with_rows g' h)"
    by (simp add: with_rows_def)
  ultimately show ?case by simp
qed

section \<open>Extending a plan\<close>

lemma plan_rows_snoc:
  assumes "plan_rows g st h" and "apply_change c h = Some h'"
    and "pc_changed c \<Longrightarrow> pred_option dict_wf (pc_before c) \<and> pred_option dict_wf (pc_after c) \<and>
      rows h (pc_numeric_id c) = pc_before c \<and> rows h' = (rows h)(pc_numeric_id c := pc_after c)"
    and "\<And>rv. rv \<noteq> i \<Longrightarrow> map_of (entities h') rv = map_of (entities h) rv \<and>
      map_of (id_map h') rv = map_of (id_map h) rv"
    and "bs_changes st' = bs_changes st @ [c]" and "i \<in> set (bs_seen st')"
    and "set (bs_seen st) \<subseteq> set (bs_seen st')"
  shows "plan_rows g st' h'"
proof (cases "pc_changed c")
  case True
  have "map_of (entities h') rv = map_of (entities g) rv \<and> map_of (id_map h') rv = map_of (id_map g) rv"
    if "rv \<notin> set (bs_seen st')" for rv
  proof -
    have "rv \<noteq> i" "rv \<notin> set (bs_seen st)" using that assms(6,7) by auto
    with assms(1) assms(4) [OF this(1)] show ?thesis by (simp add: plan_rows_def)
  qed
  with True assms(1,2,5) assms(3) [OF True] show ?thesis
    by (simp add: plan_rows_def try_each_append indexed_changes_def consistent_append rows_after_append
        change_wf_def)
next
  case False
  then have "h' = h" using assms(2) by (simp add: apply_change.simps)
  with False assms show ?thesis
    by (auto simp: plan_rows_def try_each_append indexed_changes_def)
qed

lemma plan_log_snoc:
  assumes "plan_log g st h" and "map_of (entities h') = apply_diff d (map_of (entities h))"
    and "diff_ok d" and "gd_version d = Suc (bs_revision st)" and "Suc (bs_revision st) \<le> U64_MAX"
    and "bs_diffs st' = bs_diffs st @ [d]" and "bs_revision st' = Suc (bs_revision st)"
  shows "plan_log g st' h'"
  using assms by (auto simp: plan_log_def)

lemma plan_log_same:
  "plan_log g st h \<Longrightarrow> bs_diffs st' = bs_diffs st \<Longrightarrow> bs_revision st' = bs_revision st \<Longrightarrow>
   map_of (entities h') = map_of (entities h) \<Longrightarrow> plan_log g st' h'"
  by (simp add: plan_log_def)

lemma plan_diff_changed:
  assumes "plan_diff g ident before oper ef st = Inr st'" and "ef_changed ef"
  obtains bytes b where "effect_bytes g ident before oper ef = Inr bytes" "Suc (bs_revision st) \<le> U64_MAX"
    "st' = st\<lparr>bs_budget := b, bs_revision := Suc (bs_revision st),
       bs_diffs := bs_diffs st @ [effect_diff ident before ef (Suc (bs_revision st)) bytes]\<rparr>"
  using assms by (auto simp: plan_diff_def limit_err_def checked_add_u64_eq_Some)

text \<open>The numbers come from the planned free list as in \<open>alloc_id\<close>.\<close>

definition plan_graph :: "entity_graph \<Rightarrow> batch_state \<Rightarrow> entity_graph \<Rightarrow> entity_graph" where
  "plan_graph g st h = h\<lparr>next_id := bs_next_id st, free_ids := plan_free g st\<rparr>"

lemma plan_id_alloc:
  assumes "bs_consumed st \<le> length (free_ids g)"
  shows "alloc_id (plan_graph g st h) = Inr (n, k) \<longrightarrow>
      (\<exists>consumed freed. plan_id g st = Inr (n, st\<lparr>bs_consumed := consumed, bs_freed := freed, bs_next_id := next_id k\<rparr>) \<and>
        consumed \<le> length (free_ids g) \<and>
        take (length (free_ids g) - consumed) (free_ids g) @ freed = free_ids k)"
    and "alloc_id (plan_graph g st h) = Inl (Err IdExhausted) \<longrightarrow>
      plan_id g st = Inl (Err (BatchEntity IdExhausted))"
proof -
  let ?k = "plan_graph g st h"
  show "alloc_id ?k = Inl (Err IdExhausted) \<longrightarrow> plan_id g st = Inl (Err (BatchEntity IdExhausted))"
    using assms
    by (cases "checked_add_usize (bs_next_id st) 1")
      (auto simp: alloc_id_def plan_id_def plan_graph_def plan_free_def split: if_splits)
  show "alloc_id ?k = Inr (n, k) \<longrightarrow>
      (\<exists>consumed freed. plan_id g st = Inr (n, st\<lparr>bs_consumed := consumed, bs_freed := freed, bs_next_id := next_id k\<rparr>) \<and>
        consumed \<le> length (free_ids g) \<and>
        take (length (free_ids g) - consumed) (free_ids g) @ freed = free_ids k)"
  proof
    assume a: "alloc_id ?k = Inr (n, k)"
    consider "bs_freed st \<noteq> []" | "bs_freed st = []" "bs_consumed st < length (free_ids g)"
      | "bs_freed st = []" "bs_consumed st = length (free_ids g)"
      using assms by fastforce
    then show "\<exists>consumed freed. plan_id g st =
        Inr (n, st\<lparr>bs_consumed := consumed, bs_freed := freed, bs_next_id := next_id k\<rparr>) \<and>
        consumed \<le> length (free_ids g) \<and>
        take (length (free_ids g) - consumed) (free_ids g) @ freed = free_ids k"
    proof cases
      case 1
      then have "n = last (bs_freed st)" "next_id k = bs_next_id st"
          "free_ids k = take (length (free_ids g) - bs_consumed st) (free_ids g) @ butlast (bs_freed st)"
        using a by (auto simp: alloc_id_def plan_graph_def plan_free_def butlast_append)
      with 1 assms show ?thesis
        by (intro exI [of _ "bs_consumed st"] exI [of _ "butlast (bs_freed st)"]) (simp add: plan_id_def)
    next
      case 2
      define m where "m = length (free_ids g) - Suc (bs_consumed st)"
      have m: "length (free_ids g) - bs_consumed st = Suc m" "m < length (free_ids g)"
        using 2 by (simp_all add: m_def)
      have "plan_free g st = take m (free_ids g) @ [free_ids g ! m]"
        using 2 m by (simp add: plan_free_def take_Suc_conv_app_nth)
      then have "n = free_ids g ! m" "next_id k = bs_next_id st" "free_ids k = take m (free_ids g)"
        using a by (auto simp: alloc_id_def plan_graph_def)
      with 2 show ?thesis
        by (intro exI [of _ "Suc (bs_consumed st)"] exI [of _ "[]"]) (simp add: plan_id_def m_def Let_def)
    next
      case 3
      then show ?thesis
        using a by (intro exI [of _ "bs_consumed st"] exI [of _ "[]"])
          (auto simp: alloc_id_def plan_id_def plan_graph_def plan_free_def split: if_splits)
    qed
  qed
qed

section \<open>Numbers for new entities\<close>

lemma plan_id_ok:
  assumes "plan_ids g st h" and "map_of (id_map h) ident = None"
  shows "plan_id g st = Inl (Err (BatchEntity IdExhausted)) \<and> card (dom (map_of (entities h))) = Suc U32_MAX \<or>
    (\<exists>n consumed freed nxt.
       plan_id g st = Inr (n, st\<lparr>bs_consumed := consumed, bs_freed := freed, bs_next_id := nxt\<rparr>) \<and>
       consumed \<le> length (free_ids g) \<and> map_of (reverse_id h) n = None \<and>
       card (dom (map_of (entities h))) \<noteq> Suc U32_MAX \<and>
       ids_ok (AList.update ident n (id_map h)) (AList.update n ident (reverse_id h)) nxt
         (take (length (free_ids g) - consumed) (free_ids g) @ freed))"
proof -
  let ?k = "plan_graph g st h"
  have ids: "ids_ok (id_map h) (reverse_id ?k) (next_id ?k) (free_ids ?k)"
    and cons: "bs_consumed st \<le> length (free_ids g)"
    and dom: "dom (map_of (id_map h)) = dom (map_of (entities h))"
    using assms(1) by (simp_all add: plan_ids_def plan_graph_def ents_ok_def)
  have card: "card (dom (map_of (entities h))) + length (plan_free g st) = bs_next_id st"
    using card_ids [OF ids] dom by (simp add: plan_graph_def)
  from alloc_id_ok [OF ids] show ?thesis
  proof
    assume a: "alloc_id ?k = Inl (Err IdExhausted) \<and> free_ids ?k = [] \<and> next_id ?k = Suc U32_MAX"
    then have "plan_id g st = Inl (Err (BatchEntity IdExhausted))"
      using plan_id_alloc(2) [OF cons, of h] by blast
    with a card show ?thesis by (simp add: plan_graph_def)
  next
    assume "\<exists>eid next free. alloc_id ?k = Inr (eid, ?k\<lparr>next_id := next, free_ids := free\<rparr>) \<and>
       map_of (reverse_id ?k) eid = None \<and> eid \<le> U32_MAX \<and>
       (\<forall>rv. map_of (id_map h) rv = None \<longrightarrow>
          ids_ok (AList.update rv eid (id_map h)) (AList.update eid rv (reverse_id ?k)) next free)"
    then obtain n nxt free where n: "alloc_id ?k = Inr (n, ?k\<lparr>next_id := nxt, free_ids := free\<rparr>)"
        "map_of (reverse_id h) n = None"
        "ids_ok (AList.update ident n (id_map h)) (AList.update n ident (reverse_id h)) nxt free"
      using assms(2) by (auto simp: plan_graph_def)
    have "ident \<notin> dom (map_of (entities h))" using assms(2) dom by auto
    then have "card (dom (map_of (AList.update ident n (id_map h)))) = Suc (card (dom (map_of (entities h))))"
      by (simp add: dom [symmetric] finite_dom_map_of)
    with card_ids [OF n(3)] n(3) have "card (dom (map_of (entities h))) \<noteq> Suc U32_MAX"
      by (simp add: ids_ok_def)
    with n plan_id_alloc(1) [OF cons, of h n] show ?thesis by fastforce
  qed
qed

section \<open>Logged changes are valid\<close>

lemma row_named_has_id: "row_named (Some row) ident \<longleftrightarrow> has_id row ident"
  by (auto simp: row_named_def has_id_dict_id split: option.splits)

lemma diff_ok_add:
  "has_id row ident \<Longrightarrow> diff_bytes ident [row] limit = Some n \<Longrightarrow> diff_ok (add_diff v ident row n)"
  by (auto simp: diff_ok_def add_diff_def change_valid_def change_from_diff_def row_named_has_id
      diff_rows_def List.map_filter_def)

lemma diff_ok_remove:
  "has_id row ident \<Longrightarrow> diff_bytes ident [row] limit = Some n \<Longrightarrow> diff_ok (remove_diff v ident row n)"
  by (auto simp: diff_ok_def remove_diff_def change_valid_def change_from_diff_def row_named_has_id
      diff_rows_def List.map_filter_def)

lemma diff_ok_update:
  assumes "patch_diff_bytes ident old changes limit = Some n" and "dict_wf changes" and "limit < USIZE_MAX"
  shows "diff_ok (update_diff v ident old changes n)"
proof -
  have "diff_bytes ident [changes, previous_values old (tags changes) dict_new] limit = Some n"
    by (rule patch_as_diff [OF assms])
  then show ?thesis
    by (auto simp: diff_ok_def update_diff_def change_valid_def change_from_diff_def
        diff_rows_def List.map_filter_def)
qed

lemma diff_ok_stamp [simp]:
  "diff_ok (d\<lparr>gd_span := s\<rparr>) = diff_ok d" "diff_ok (d\<lparr>gd_timestamp := t\<rparr>) = diff_ok d"
  by (simp_all add: diff_ok_def change_valid_def change_from_diff_def diff_rows_def cong: diff_op.case_cong)

section \<open>Planning one operation\<close>

lemma plan_step_ok:
  assumes inv: "batch_inv g st h" and seen: "ident \<in> set (bs_seen st)"
    and same: "bs_changes st2 = bs_changes st" "bs_diffs st2 = bs_diffs st" "bs_seen st2 = bs_seen st"
      "bs_revision st2 = bs_revision st"
    and app: "apply_change (effect_change ident before ef) h = Some h'"
    and other: "\<And>rv. rv \<noteq> ident \<Longrightarrow> map_of (entities h') rv = map_of (entities h) rv \<and>
      map_of (id_map h') rv = map_of (id_map h) rv"
    and ids: "plan_ids g st2 h'"
    and diff: "plan_diff g ident before oper ef st2 = Inr st3"
    and chg: "ef_changed ef \<Longrightarrow>
      pred_option dict_wf before \<and> pred_option dict_wf (ef_after ef) \<and>
      rows h (ef_numeric ef) = before \<and> rows h' = (rows h)(ef_numeric ef := ef_after ef)"
    and dif: "\<And>v bytes. ef_changed ef \<Longrightarrow> effect_bytes g ident before oper ef = Inr bytes \<Longrightarrow>
      diff_ok (effect_diff ident before ef v bytes) \<and>
      map_of (entities h') = apply_diff (effect_diff ident before ef v bytes) (map_of (entities h))"
    and idle: "\<not> ef_changed ef \<Longrightarrow> bs_consumed st2 = bs_consumed st \<and> bs_freed st2 = bs_freed st \<and>
      bs_next_id st2 = bs_next_id st"
  shows "batch_inv g (st3\<lparr>bs_changes := bs_changes st3 @ [effect_change ident before ef]\<rparr>) h' \<and>
    bs_revision st3 = (if ef_changed ef then Suc (bs_revision st) else bs_revision st) \<and>
    (ef_changed ef \<longrightarrow> bs_revision st < U64_MAX)"
proof -
  define st' where "st' = st3\<lparr>bs_changes := bs_changes st3 @ [effect_change ident before ef]\<rparr>"
  have parts: "plan_rows g st h" "plan_log g st h" "plan_idle g st"
    using inv by (simp_all add: batch_inv_def)
  have st3: "bs_changes st3 = bs_changes st" "bs_seen st3 = bs_seen st" "plan_ids g st3 h'"
    using diff same ids
    by (auto simp: plan_diff_def limit_err_def plan_ids_def plan_free_def split: if_splits)
  have "plan_rows g st' h'"
    using chg st3 seen
    by (intro plan_rows_snoc [OF parts(1) app _ other]) (simp_all add: st'_def effect_change_def)
  moreover have "plan_log g st' h' \<and> plan_idle g st' \<and>
      bs_revision st3 = (if ef_changed ef then Suc (bs_revision st) else bs_revision st) \<and>
      (ef_changed ef \<longrightarrow> bs_revision st < U64_MAX)"
  proof (cases "ef_changed ef")
    case True
    obtain bytes b where b: "effect_bytes g ident before oper ef = Inr bytes"
        "Suc (bs_revision st2) \<le> U64_MAX"
        "st3 = st2\<lparr>bs_budget := b, bs_revision := Suc (bs_revision st2),
           bs_diffs := bs_diffs st2 @ [effect_diff ident before ef (Suc (bs_revision st2)) bytes]\<rparr>"
      by (rule plan_diff_changed [OF diff True])
    with dif [OF True b(1)] same have "plan_log g st' h'"
      by (intro plan_log_snoc [OF parts(2), where d = "effect_diff ident before ef (Suc (bs_revision st)) bytes"])
        (simp_all add: st'_def effect_diff_def)
    with True b same parts(3) show ?thesis by (simp add: st'_def plan_idle_def effect_change_def)
  next
    case False
    with app have "h' = h" by (simp add: effect_change_def apply_change.simps)
    moreover have "st3 = st2" using False diff by (simp add: plan_diff_def)
    ultimately show ?thesis
      using False same parts(2,3) idle by (simp add: st'_def plan_log_def plan_idle_def effect_change_def)
  qed
  moreover have "plan_ids g st' h'" using st3(3) by (simp add: st'_def plan_ids_def plan_free_def)
  ultimately show ?thesis by (simp add: batch_inv_def st'_def)
qed

lemma plan_add_ok:
  assumes inv: "batch_inv g st h" and seen: "ident \<in> set (bs_seen st)"
    and none: "map_of (entities h) ident = None"
    and wf: "dict_wf row" and ident: "has_id row ident"
    and eff: "plan_effect g ident None (OpAdd row) st = Inr (ef, st2)"
    and diff: "plan_diff g ident None (OpAdd row) ef st2 = Inr st3"
  shows "\<exists>h'. batch_inv g (st3\<lparr>bs_changes := bs_changes st3 @ [effect_change ident None ef]\<rparr>) h' \<and>
    spec_operation (OpAdd row) (batch_abs st h) = Inr (batch_abs st3 h')"
proof -
  have ids: "plan_ids g st h" using inv by (simp_all add: batch_inv_def)
  then have ents: "ents_ok (entities h) (id_map h)"
    and idh: "ids_ok (id_map h) (reverse_id h) (bs_next_id st) (plan_free g st)"
    by (simp_all add: plan_ids_def)
  have fresh: "map_of (id_map h) ident = None" using ents_ok_None [OF ents, of ident] none by simp
  obtain b n where pid: "plan_id g (st\<lparr>bs_budget := b\<rparr>) = Inr (n, st2)"
      "ef = \<lparr>ef_op = DiffAdd, ef_after = Some row, ef_numeric = n, ef_changed = True, ef_delta = None\<rparr>"
    using eff by (auto simp: limit_err_def split: if_splits)
  have "plan_ids g (st\<lparr>bs_budget := b\<rparr>) h" using ids by (simp add: plan_ids_def plan_free_def)
  from plan_id_ok [OF this fresh] pid(1) obtain consumed freed nxt where
    st2: "st2 = st\<lparr>bs_budget := b, bs_consumed := consumed, bs_freed := freed, bs_next_id := nxt\<rparr>" and
    n: "consumed \<le> length (free_ids g)" "map_of (reverse_id h) n = None"
      "card (dom (map_of (entities h))) \<noteq> Suc U32_MAX"
      "ids_ok (AList.update ident n (id_map h)) (AList.update n ident (reverse_id h)) nxt
         (take (length (free_ids g) - consumed) (free_ids g) @ freed)"
    by auto
  define h' where "h' = h\<lparr>id_map := AList.update ident n (id_map h),
    reverse_id := AList.update n ident (reverse_id h), entities := bt_insert ident row (entities h)\<rparr>"
  have "plan_ids g st2 h'"
    using n(1,4) ents_ok_insert [OF ents wf ident, of "AList.update ident n (id_map h)"]
    by (simp add: plan_ids_def plan_free_def st2 h'_def)
  moreover have ed: "effect_diff ident None ef v bytes = add_diff v ident row bytes" for v bytes
    by (simp add: pid(2) effect_diff_def add_diff_def)
  moreover have "diff_ok (add_diff v ident row bytes)"
    if "effect_bytes g ident None (OpAdd row) ef = Inr bytes" for v bytes
    using that by (intro diff_ok_add [OF ident, where limit = "changelog_byte_capacity g"])
      (simp add: pid(2) effect_bytes_def limit_err_def)
  ultimately have "batch_inv g (st3\<lparr>bs_changes := bs_changes st3 @ [effect_change ident None ef]\<rparr>) h' \<and>
      bs_revision st3 = (if ef_changed ef then Suc (bs_revision st) else bs_revision st) \<and>
      (ef_changed ef \<longrightarrow> bs_revision st < U64_MAX)"
    using wf n(2) rows_insert [OF idh fresh, of n row "entities h"]
    by (intro plan_step_ok [OF inv seen _ _ _ _ _ _ _ diff])
      (auto simp: st2 pid(2) effect_change_def apply_change.simps h'_def rows_of_def add_diff_def
        apply_diff_def)
  moreover from this have "spec_operation (OpAdd row) (batch_abs st h) = Inr (batch_abs st3 h')"
    using ident none n(3) by (auto simp: has_id_def batch_abs_def spec_add_def h'_def pid(2))
  ultimately show ?thesis by blast
qed

lemma plan_patch_ok:
  assumes inv: "batch_inv g st h" and seen: "ident \<in> set (bs_seen st)"
    and before: "before = map_of (entities h) ident" and num: "map_of (id_map g) ident = map_of (id_map h) ident"
    and wf: "dict_wf changes" and cap: "changelog_byte_capacity g < USIZE_MAX"
    and eff: "plan_effect g ident before (OpPatch ident changes) st = Inr (ef, st2)"
    and diff: "plan_diff g ident before (OpPatch ident changes) ef st2 = Inr st3"
  shows "\<exists>h'. batch_inv g (st3\<lparr>bs_changes := bs_changes st3 @ [effect_change ident before ef]\<rparr>) h' \<and>
    spec_operation (OpPatch ident changes) (batch_abs st h) = Inr (batch_abs st3 h')"
proof -
  have ids: "plan_ids g st h" using inv by (simp_all add: batch_inv_def)
  then have ents: "ents_ok (entities h) (id_map h)"
    and idh: "ids_ok (id_map h) (reverse_id h) (bs_next_id st) (plan_free g st)"
    by (simp_all add: plan_ids_def)
  obtain b n old where old: "before = Some old" and
    same_id: "dict_get changes ''id'' = None \<or> has_id changes ident" and
    n: "map_of (id_map h) ident = Some n" and st2: "st2 = st\<lparr>bs_budget := b\<rparr>" and
    ef: "ef = \<lparr>ef_op = DiffUpdate, ef_after = Some (dict_merge old changes), ef_numeric = n,
      ef_changed = (\<not> dict_is_empty changes),
      ef_delta = Some (changes, previous_values old (tags changes) dict_new)\<rparr>"
    using eff num by (auto simp: limit_err_def Let_def has_id_def split: if_splits option.splits kind.splits)
  define after where "after = dict_merge old changes"
  have get: "map_of (entities h) ident = Some old" using old before by simp
  have o: "dict_wf old" "has_id old ident" using ents_ok_get [OF ents get] by simp_all
  have a: "dict_wf after" "has_id after ident"
    using o same_id dict_get_merge [OF wf, of old "''id''"]
    by (auto simp: after_def has_id_def patched_def)
  have rev: "map_of (reverse_id h) n = Some ident" using ids_ok_inverse [OF idh] n by simp
  define h' where "h' = (if dict_is_empty changes then h
    else h\<lparr>entities := bt_insert ident after (entities h)\<rparr>)"
  have "plan_ids g st2 h'"
    using ids ents_ok_insert [OF ents a, of "id_map h"] n
    by (auto simp: plan_ids_def plan_free_def st2 h'_def)
  moreover have ed: "effect_diff ident before ef v bytes = update_diff v ident old changes bytes" for v bytes
    by (simp add: ef effect_diff_def update_diff_def)
  moreover have "diff_ok (update_diff v ident old changes bytes)"
    if "effect_bytes g ident before (OpPatch ident changes) ef = Inr bytes" for v bytes
    using that by (intro diff_ok_update [OF _ wf cap]) (simp add: ef effect_bytes_def limit_err_def old)
  ultimately have "batch_inv g (st3\<lparr>bs_changes := bs_changes st3 @ [effect_change ident before ef]\<rparr>) h' \<and>
      bs_revision st3 = (if ef_changed ef then Suc (bs_revision st) else bs_revision st) \<and>
      (ef_changed ef \<longrightarrow> bs_revision st < U64_MAX)"
    using o(1) a(1) rev get rows_replace [OF idh n, of after "entities h"]
    by (intro plan_step_ok [OF inv seen _ _ _ _ _ _ _ diff])
      (auto simp: st2 ef old effect_change_def apply_change.simps h'_def rows_of_def update_diff_def
        apply_diff_def after_def)
  moreover from this have "spec_operation (OpPatch ident changes) (batch_abs st h) = Inr (batch_abs st3 h')"
    using get same_id by (auto simp: batch_abs_def spec_update_def h'_def ef after_def)
  ultimately show ?thesis by blast
qed

lemma plan_remove_ok:
  assumes inv: "batch_inv g st h" and seen: "ident \<in> set (bs_seen st)"
    and before: "before = map_of (entities h) ident" and num: "map_of (id_map g) ident = map_of (id_map h) ident"
    and eff: "plan_effect g ident before (OpRemove ident) st = Inr (ef, st2)"
    and diff: "plan_diff g ident before (OpRemove ident) ef st2 = Inr st3"
  shows "\<exists>h'. batch_inv g (st3\<lparr>bs_changes := bs_changes st3 @ [effect_change ident before ef]\<rparr>) h' \<and>
    spec_operation (OpRemove ident) (batch_abs st h) = Inr (batch_abs st3 h')"
proof -
  have ids: "plan_ids g st h" using inv by (simp_all add: batch_inv_def)
  then have ents: "ents_ok (entities h) (id_map h)"
    and idh: "ids_ok (id_map h) (reverse_id h) (bs_next_id st) (plan_free g st)"
    by (simp_all add: plan_ids_def)
  obtain n old where old: "before = Some old" and
    n: "map_of (id_map h) ident = Some n" and st2: "st2 = st\<lparr>bs_freed := bs_freed st @ [n]\<rparr>" and
    ef: "ef = \<lparr>ef_op = DiffRemove, ef_after = None, ef_numeric = n, ef_changed = True, ef_delta = None\<rparr>"
    using eff num by (auto split: if_splits)
  have get: "map_of (entities h) ident = Some old" using old before by simp
  have o: "dict_wf old" "has_id old ident" using ents_ok_get [OF ents get] by simp_all
  have rev: "map_of (reverse_id h) n = Some ident" using ids_ok_inverse [OF idh] n by simp
  define h' where "h' = h\<lparr>entities := AList.delete ident (entities h),
    id_map := AList.delete ident (id_map h), reverse_id := AList.delete n (reverse_id h)\<rparr>"
  have "plan_ids g st2 h'"
    using ids ents_ok_delete [OF ents] ids_ok_delete [OF idh n]
    by (simp add: plan_ids_def plan_free_def st2 h'_def)
  moreover have ed: "effect_diff ident before ef v bytes = remove_diff v ident old bytes" for v bytes
    by (simp add: ef effect_diff_def remove_diff_def old)
  moreover have "diff_ok (remove_diff v ident old bytes)"
    if "effect_bytes g ident before (OpRemove ident) ef = Inr bytes" for v bytes
    using that by (intro diff_ok_remove [OF o(2), where limit = "changelog_byte_capacity g"])
      (simp add: ef effect_bytes_def limit_err_def old)
  ultimately have "batch_inv g (st3\<lparr>bs_changes := bs_changes st3 @ [effect_change ident before ef]\<rparr>) h' \<and>
      bs_revision st3 = (if ef_changed ef then Suc (bs_revision st) else bs_revision st) \<and>
      (ef_changed ef \<longrightarrow> bs_revision st < U64_MAX)"
    using o(1) rev get rows_delete [OF idh n, of "entities h"]
    by (intro plan_step_ok [OF inv seen _ _ _ _ _ _ _ diff])
      (auto simp: st2 ef old effect_change_def apply_change.simps h'_def rows_of_def remove_diff_def
        apply_diff_def)
  moreover from this have "spec_operation (OpRemove ident) (batch_abs st h) = Inr (batch_abs st3 h')"
    using get by (auto simp: batch_abs_def spec_remove_def h'_def ef)
  ultimately show ?thesis by blast
qed

lemma unseen:
  assumes "batch_inv g st h" and "ident \<notin> set (bs_seen st)"
  shows "map_of (entities g) ident = map_of (entities h) ident" "map_of (id_map g) ident = map_of (id_map h) ident"
  using assms unfolding batch_inv_def plan_rows_def by simp_all

lemma target_add: "target (OpAdd row) = Inr ident \<Longrightarrow> has_id row ident"
  by (auto simp: has_id_def split: option.splits kind.splits)

lemma plan_operation_ok:
  assumes inv: "batch_inv g st h" and wf: "op_wf oper" and cap: "changelog_byte_capacity g < USIZE_MAX"
    and plan: "plan_operation g oper st = Inr st'"
  shows "\<exists>h'. batch_inv g st' h' \<and> spec_operation oper (batch_abs st h) = Inr (batch_abs st' h')"
proof -
  from plan obtain ident b ef st2 st3 where
    tgt: "target oper = Inr ident" and new: "ident \<notin> set (bs_seen st)" and
    eff: "plan_effect g ident (map_of (entities g) ident) oper
      (st\<lparr>bs_budget := b, bs_seen := ident # bs_seen st\<rparr>) = Inr (ef, st2)" and
    diff: "plan_diff g ident (map_of (entities g) ident) oper ef st2 = Inr st3" and
    st': "st' = st3\<lparr>bs_changes := bs_changes st3 @ [effect_change ident (map_of (entities g) ident) ef]\<rparr>"
    by (auto simp: plan_operation_def limit_err_def entity_err_def Let_def
        split: if_splits sum.splits fault.splits)
  define st1 where "st1 = st\<lparr>bs_budget := b, bs_seen := ident # bs_seen st\<rparr>"
  note u = unseen [OF inv new]
  have inv1: "batch_inv g st1 h" "ident \<in> set (bs_seen st1)"
    using batch_inv_seen [of g "st\<lparr>bs_budget := b\<rparr>" h ident] inv by (simp_all add: st1_def)
  have abs: "batch_abs st1 h = batch_abs st h" "batch_abs st' = batch_abs st3"
    by (simp_all add: st1_def st' batch_abs_def fun_eq_iff)
  note e = eff [folded st1_def]
  show ?thesis
  proof (cases oper)
    case (OpAdd row)
    have none: "map_of (entities g) ident = None" using e OpAdd by (auto split: if_splits)
    then have "map_of (entities h) ident = None" using u by simp
    from plan_add_ok [OF inv1 this _ target_add, of row ef st2 st3] wf tgt e diff
    show ?thesis by (simp only: OpAdd none st' op_wf.simps abs) (simp add: abs)
  next
    case (OpPatch i changes)
    then have "i = ident" using tgt by simp
    with plan_patch_ok [OF inv1 u(1,2) _ cap, of changes ef st2 st3] wf e diff OpPatch
    show ?thesis by (simp only: st' op_wf.simps abs batch_abs_budget)
  next
    case (OpRemove i)
    then have "i = ident" using tgt by simp
    with plan_remove_ok [OF inv1 u(1,2), of ef st2 st3] e diff OpRemove
    show ?thesis by (simp only: st' abs batch_abs_budget)
  qed
qed

section \<open>Errors\<close>

lemma rbind_eq_Inl: "rbind r f = Inl e \<longleftrightarrow> r = Inl e \<or> (\<exists>a. r = Inr a \<and> f a = Inl e)"
  by (cases r) auto

lemma limit_err_Inl [simp]: "limit_err x = Inl e \<longleftrightarrow> x = None \<and> e = Err BatchLimit"
  by (cases x) (auto simp: limit_err_def)

lemma expect_Inl: "expect x = Inl e \<longleftrightarrow> x = None \<and> e = Panic"
  by (cases x) auto

text \<open>The abstract operation fails too, with the same error; only when the numbers run out
  together with the revisions the planner names the numbers first.\<close>

definition same_error :: "batch_error fault \<Rightarrow> (graph_error, 'a) res \<Rightarrow> bool" where
  "same_error x r \<longleftrightarrow>
     x \<noteq> Panic \<and> x \<noteq> Err BatchEmpty \<and> x \<noteq> Err BatchConflict \<and>
     (\<forall>e. x = Err (BatchEntity e) \<longrightarrow>
        (\<exists>e'. r = Inl (Err e') \<and> (e' = e \<or> e = IdExhausted \<and> e' = RevisionExhausted)))"

lemma same_error_limit [simp]: "same_error (Err BatchLimit) r" "same_error (Err DuplicateTarget) r"
  by (simp_all add: same_error_def)

lemma same_error_map [simp]: "same_error x (map_sum (\<lambda>e. e) f r) = same_error x r"
  by (cases r) (simp_all add: same_error_def)

lemma plan_diff_error:
  assumes "plan_diff g ident before oper ef st = Inl x"
  shows "ef_changed ef \<and> (x = Err (BatchEntity RevisionExhausted) \<and> U64_MAX \<le> bs_revision st \<or>
    x = Err BatchLimit \<or> effect_bytes g ident before oper ef = Inl x)"
  using assms
  by (cases "checked_add_u64 (bs_revision st) 1")
    (auto simp: plan_diff_def rbind_eq_Inl checked_add_u64_def split: if_splits)

lemma plan_error_add:
  assumes inv: "batch_inv g st h" and before: "before = map_of (entities h) ident" and "id": "has_id row ident"
    and eff: "plan_effect g ident before (OpAdd row) st = Inl x \<or>
      (\<exists>ef st2. plan_effect g ident before (OpAdd row) st = Inr (ef, st2) \<and>
         plan_diff g ident before (OpAdd row) ef st2 = Inl x)"
  shows "same_error x (spec_add row (batch_abs st h))"
proof (cases before)
  case (Some old)
  then have "map_of (entities h) ident = Some old" "x = Err (BatchEntity (DuplicateRef ident))"
    using eff before by auto
  with "id" show ?thesis by (auto simp: same_error_def spec_add_def has_id_def batch_abs_def)
next
  case None
  have ids: "plan_ids g st h" and rv: "bs_revision st \<le> U64_MAX"
    using inv by (simp_all add: batch_inv_def plan_log_def)
  have fresh: "map_of (id_map h) ident = None"
    using ids None before ents_ok_None [of "entities h" "id_map h" ident] by (simp add: plan_ids_def)
  have p: "plan_id g (st\<lparr>bs_budget := b\<rparr>) = Inl (Err (BatchEntity IdExhausted)) \<and>
        card (dom (map_of (entities h))) = Suc U32_MAX \<or>
      (\<exists>n s. plan_id g (st\<lparr>bs_budget := b\<rparr>) = Inr (n, s) \<and> bs_revision s = bs_revision st)" for b
    using plan_id_ok [of g "st\<lparr>bs_budget := b\<rparr>" h ident] ids fresh
    by (auto simp: plan_ids_def plan_free_def)
  from eff show ?thesis
  proof (elim disjE exE conjE)
    assume "plan_effect g ident before (OpAdd row) st = Inl x"
    with None obtain b where "x = Err BatchLimit \<or> plan_id g (st\<lparr>bs_budget := b\<rparr>) = Inl x"
      by (auto simp: rbind_eq_Inl)
    with p [of b] "id" None before show ?thesis
      by (auto simp: same_error_def spec_add_def has_id_def batch_abs_def)
  next
    fix ef st2
    assume e: "plan_effect g ident before (OpAdd row) st = Inr (ef, st2)"
      "plan_diff g ident before (OpAdd row) ef st2 = Inl x"
    from e(1) None obtain b n where "plan_id g (st\<lparr>bs_budget := b\<rparr>) = Inr (n, st2)"
        and op: "ef_op ef = DiffAdd" by (auto split: if_splits)
    with p [of b] have "bs_revision st2 = bs_revision st" by auto
    moreover have "effect_bytes g ident before (OpAdd row) ef = Inl x \<Longrightarrow> x = Err BatchLimit"
      by (simp add: effect_bytes_def op)
    ultimately show ?thesis
      using plan_diff_error [OF e(2)] rv "id" None before
      by (auto simp: same_error_def spec_add_def has_id_def batch_abs_def)
  qed
qed

lemma plan_error_patch:
  assumes inv: "batch_inv g st h" and before: "before = map_of (entities h) ident"
    and num: "map_of (id_map g) ident = map_of (id_map h) ident"
    and eff: "plan_effect g ident before (OpPatch ident changes) st = Inl x \<or>
      (\<exists>ef st2. plan_effect g ident before (OpPatch ident changes) st = Inr (ef, st2) \<and>
         plan_diff g ident before (OpPatch ident changes) ef st2 = Inl x)"
  shows "same_error x (spec_update ident changes (batch_abs st h))"
proof (cases before)
  case None
  with eff before show ?thesis by (auto simp: same_error_def spec_update_def batch_abs_def)
next
  case (Some old)
  have ids: "plan_ids g st h" and rv: "bs_revision st \<le> U64_MAX"
    using inv by (simp_all add: batch_inv_def plan_log_def)
  obtain n where n: "map_of (id_map g) ident = Some n"
    using ids Some before num ents_ok_None [of "entities h" "id_map h" ident] by (auto simp: plan_ids_def)
  from eff show ?thesis
  proof (elim disjE exE conjE)
    assume "plan_effect g ident before (OpPatch ident changes) st = Inl x"
    with Some n have "x = Err BatchLimit \<or>
        x = Err (BatchEntity ImmutableId) \<and> dict_get changes ''id'' \<noteq> None \<and> \<not> has_id changes ident"
      by (auto simp: rbind_eq_Inl Let_def has_id_def split: if_splits option.splits kind.splits)
    with Some before show ?thesis
      by (auto simp: same_error_def spec_update_def batch_abs_def)
  next
    fix ef st2
    assume e: "plan_effect g ident before (OpPatch ident changes) st = Inr (ef, st2)"
      "plan_diff g ident before (OpPatch ident changes) ef st2 = Inl x"
    from e(1) Some n have op: "ef_op ef = DiffUpdate" "bs_revision st2 = bs_revision st"
        "ef_changed ef = (\<not> dict_is_empty changes)" "dict_get changes ''id'' = None \<or> has_id changes ident"
      by (auto simp: Let_def has_id_def split: if_splits option.splits kind.splits)
    have "effect_bytes g ident before (OpPatch ident changes) ef = Inl x \<Longrightarrow> x = Err BatchLimit"
      by (simp add: effect_bytes_def op Some)
    with plan_diff_error [OF e(2)] rv op Some before show ?thesis
      by (auto simp: same_error_def spec_update_def batch_abs_def)
  qed
qed

lemma plan_error_remove:
  assumes inv: "batch_inv g st h" and before: "before = map_of (entities h) ident"
    and num: "map_of (id_map g) ident = map_of (id_map h) ident"
    and eff: "plan_effect g ident before (OpRemove ident) st = Inl x \<or>
      (\<exists>ef st2. plan_effect g ident before (OpRemove ident) st = Inr (ef, st2) \<and>
         plan_diff g ident before (OpRemove ident) ef st2 = Inl x)"
  shows "same_error x (spec_remove ident (batch_abs st h))"
proof (cases before)
  case None
  with eff before show ?thesis by (auto simp: same_error_def spec_remove_def batch_abs_def)
next
  case (Some old)
  have ids: "plan_ids g st h" and rv: "bs_revision st \<le> U64_MAX"
    using inv by (simp_all add: batch_inv_def plan_log_def)
  obtain n where n: "map_of (id_map g) ident = Some n"
    using ids Some before num ents_ok_None [of "entities h" "id_map h" ident] by (auto simp: plan_ids_def)
  define ef where
    "ef = \<lparr>ef_op = DiffRemove, ef_after = None, ef_numeric = n, ef_changed = True, ef_delta = None\<rparr>"
  have op: "ef_op ef = DiffRemove" by (simp add: ef_def)
  have e: "plan_diff g ident before (OpRemove ident) ef (st\<lparr>bs_freed := bs_freed st @ [n]\<rparr>) = Inl x"
    using eff Some n by (auto simp: ef_def)
  have "effect_bytes g ident before (OpRemove ident) ef = Inl x \<Longrightarrow> x = Err BatchLimit"
    by (simp add: effect_bytes_def op)
  with plan_diff_error [OF e] rv op Some before show ?thesis
    by (auto simp: same_error_def spec_remove_def batch_abs_def)
qed

lemma plan_operation_error:
  assumes inv: "batch_inv g st h" and plan: "plan_operation g oper st = Inl x"
  shows "same_error x (spec_operation oper (batch_abs st h))"
proof (cases "target oper")
  case (Inl y)
  then obtain row where "oper = OpAdd row" by (cases oper) auto
  with Inl plan show ?thesis
    by (auto simp: plan_operation_def entity_err_def same_error_def spec_add_def
        split: option.splits kind.splits)
next
  case (Inr ident)
  show ?thesis
  proof (cases "x = Err BatchLimit \<or> x = Err DuplicateTarget")
    case False
    define before where "before = map_of (entities g) ident"
    from plan Inr False obtain b where new: "ident \<notin> set (bs_seen st)" and
      eff: "plan_effect g ident before oper (st\<lparr>bs_budget := b, bs_seen := ident # bs_seen st\<rparr>) = Inl x \<or>
        (\<exists>ef st2. plan_effect g ident before oper (st\<lparr>bs_budget := b, bs_seen := ident # bs_seen st\<rparr>) =
           Inr (ef, st2) \<and> plan_diff g ident before oper ef st2 = Inl x)"
      by (auto simp: plan_operation_def entity_err_def rbind_eq_Inl Let_def before_def split: if_splits)
    define st1 where "st1 = st\<lparr>bs_budget := b, bs_seen := ident # bs_seen st\<rparr>"
    note u = unseen [OF inv new]
    have inv1: "batch_inv g st1 h"
      using batch_inv_seen [of g "st\<lparr>bs_budget := b\<rparr>" h ident] inv by (simp_all add: st1_def)
    have abs: "batch_abs st1 h = batch_abs st h" by (simp add: st1_def batch_abs_def)
    have bf: "before = map_of (entities h) ident" using u by (simp add: before_def)
    note e = eff [folded st1_def]
    show ?thesis
    proof (cases oper)
      case (OpAdd row)
      have "has_id row ident" using Inr OpAdd target_add by blast
      from plan_error_add [OF inv1 bf this e [unfolded OpAdd]] show ?thesis by (simp add: OpAdd abs)
    next
      case (OpPatch i changes)
      with Inr have i: "oper = OpPatch ident changes" by simp
      from plan_error_patch [OF inv1 bf u(2) e [unfolded i]] show ?thesis by (simp add: i abs)
    next
      case (OpRemove i)
      with Inr have i: "oper = OpRemove ident" by simp
      from plan_error_remove [OF inv1 bf u(2) e [unfolded i]] show ?thesis by (simp add: i abs)
    qed
  qed auto
qed

lemma plan_operations_ok:
  assumes "batch_inv g st h" and "list_all op_wf opers" and "changelog_byte_capacity g < USIZE_MAX"
  shows "case plan_operations g opers st of
      Inr st' \<Rightarrow> \<exists>h'. batch_inv g st' h' \<and> spec_operations opers (batch_abs st h) = Inr (batch_abs st' h')
    | Inl x \<Rightarrow> same_error x (spec_operations opers (batch_abs st h))"
  using assms(1,2)
proof (induction opers arbitrary: st h)
  case (Cons oper opers)
  show ?case
  proof (cases "plan_operation g oper st")
    case (Inl x)
    with plan_operation_error [OF Cons.prems(1) Inl] show ?thesis
      by (auto simp: same_error_def)
  next
    case (Inr st1)
    from plan_operation_ok [OF Cons.prems(1) _ assms(3) Inr] Cons.prems(2) obtain h1 where
      h1: "batch_inv g st1 h1" "spec_operation oper (batch_abs st h) = Inr (batch_abs st1 h1)" by auto
    have "spec_operations (oper # opers) (batch_abs st h) = spec_operations opers (batch_abs st1 h1)"
        "plan_operations g (oper # opers) st = plan_operations g opers st1"
      using h1(2) Inr by simp_all
    with Cons.IH [OF h1(1)] Cons.prems(2) show ?thesis by (simp only: list.pred_inject)
  qed
qed auto

section \<open>Publishing\<close>

text \<open>What a plan relies on: the store it was prepared for, up to the order of the value index.\<close>

definition same_store :: "entity_graph \<Rightarrow> entity_graph \<Rightarrow> bool" where
  "same_store g k \<longleftrightarrow>
     same_rows g k \<and> next_id k = next_id g \<and> free_ids k = free_ids g \<and>
     g_tags k = g_tags g \<and> adjacency k = adjacency g \<and>
     has_index (g_values k) = has_index (g_values g) \<and>
     vidx_entries (g_values k) = vidx_entries (g_values g) \<and>
     version k = version g \<and> changelog k = changelog g \<and> floor_version k = floor_version g \<and>
     changelog_capacity k = changelog_capacity g \<and>
     changelog_byte_capacity k = changelog_byte_capacity g"

lemma same_store_refl [simp]: "same_store g g"
  by (simp add: same_store_def same_rows_def)

lemma bytes_of_unit [simp]: "bytes_of (unit_diffs_of ds r) = bytes_of ds"
  by (cases ds) (simp_all add: unit_diffs_of_def bytes_of_def comp_def)

lemma unit_of_batch:
  assumes "map gd_version ds = [Suc v..<Suc r]" and "ds \<noteq> []"
  shows "unit_ok v (unit_diffs_of ds r) r"
proof -
  have lt: "v < r" using assms by (cases "v < r") auto
  then have "gd_version (hd ds) = Suc v" using assms by (metis hd_map hd_upt Suc_less_eq)
  then have "unit_diffs_of ds r = map (gd_span_update (\<lambda>_. \<lparr>span_first = Suc v, span_last = r\<rparr>)) ds"
    using assms(2) by (cases ds) (simp_all add: unit_diffs_of_def)
  with lt assms(1) show ?thesis by (auto simp: unit_ok_def comp_def)
qed

lemma unit_diffs_valid:
  "\<forall>d \<in> set ds. diff_ok d \<Longrightarrow> \<forall>d \<in> set (unit_diffs_of ds r). diff_ok d"
  by (cases ds) (auto simp: unit_diffs_of_def)

lemma fold_unit_diffs: "fold apply_diff (unit_diffs_of ds r) m = fold apply_diff ds m"
proof -
  have "fold apply_diff (map (\<lambda>x. x\<lparr>gd_span := s\<rparr>) ds) m = fold apply_diff ds m" for s
    by (induction ds arbitrary: m) simp_all
  then show ?thesis by (cases ds) (simp_all add: unit_diffs_of_def)
qed

lemma sum_retained_Some: "sum_retained ds acc = Some n \<Longrightarrow> n = acc + bytes_of ds"
proof (induction ds arbitrary: acc)
  case (Cons d ds)
  from Cons.prems have "sum_retained ds (acc + gd_retained_bytes d) = Some n"
    by (auto simp: checked_add_usize_eq_Some bind_eq_Some_conv)
  from Cons.IH [OF this] show ?case by simp
qed simp

lemma finish_batch_ok:
  assumes "finish_batch al g st = Inr p"
  shows "bytes_of (bs_diffs st) \<le> changelog_byte_capacity g \<and>
    length (bs_diffs st) \<le> changelog_capacity g \<and>
    pb_state p = graph_state g \<and> pb_index_generation p = index_generation g \<and>
    pb_after_revision p = bs_revision st \<and> pb_changes p = bs_changes st \<and>
    pb_diffs p = unit_diffs_of (bs_diffs st) (bs_revision st) \<and>
    pb_free_ids_consumed p = bs_consumed st \<and> pb_freed_ids p = bs_freed st \<and>
    pb_next_id p = bs_next_id st \<and>
    (\<exists>b b'. tags_prepare al (g_tags g) (indexed_changes (bs_changes st)) b = Some (pb_tags p, b')) \<and>
    (\<exists>b b'. adj_prepare al (adjacency g) (indexed_changes (bs_changes st)) b = Some (pb_adjacency p, b')) \<and>
    (\<exists>b b'. values_prepare (g_values g) (indexed_changes (bs_changes st)) b = Some (pb_values p, b'))"
  using assms
  by (auto simp: finish_batch_def limit_err_def Let_def dest!: sum_retained_Some split: if_splits) blast+

lemma finish_batch_error: "finish_batch al g st = Inl x \<Longrightarrow> x = Err BatchLimit"
  by (auto simp: finish_batch_def rbind_eq_Inl Let_def split: if_splits)

lemma publish_feed:
  fixes m :: entity_graph
  assumes log: "map gd_version ds = [Suc v..<Suc r]" "v \<le> r" "r \<le> U64_MAX"
    and m: "feed_inv (m\<lparr>version := v\<rparr>)" "version m = r"
    and fits: "bytes_of ds \<le> changelog_byte_capacity m" "length ds \<le> changelog_capacity m"
  defines "u \<equiv> unit_diffs_of ds r"
  shows "\<exists>log b low.
    (if u = [] then Some m else append_committed_unit now u m) =
      Some (m\<lparr>changelog := log, changelog_bytes := b, floor_version := low\<rparr>) \<and>
    feed_inv (m\<lparr>changelog := log, changelog_bytes := b, floor_version := low\<rparr>) \<and>
    (if u = [] then log = changelog m \<and> low = floor_version m
     else suffix (stamp now u) log \<and> suffix log (changelog m @ stamp now u))"
proof (cases "ds = []")
  case True
  then have "u = []" "r = v" using log by (auto simp: u_def unit_diffs_of_def split: if_splits)
  with m show ?thesis
    by (rule_tac x = "changelog m" in exI, rule_tac x = "changelog_bytes m" in exI,
        rule_tac x = "floor_version m" in exI) (simp add: feed_inv_def)
next
  case False
  note unit = unit_of_batch [OF log(1) False, folded u_def]
  have ne: "u \<noteq> []" using unit unit_ok_not_Nil by blast
  have len: "length u = length ds" by (cases ds) (simp_all add: u_def unit_diffs_of_def)
  have f: "retained (floor_version m) (changelog m) v" "changelog_bytes m = bytes_of (changelog m)"
      "changelog_bytes m \<le> changelog_byte_capacity m" "2 * changelog_byte_capacity m \<le> USIZE_MAX"
      "0 < changelog_capacity m"
    using m(1) by (simp_all add: feed_inv_def)
  have b: "bytes_of u \<le> changelog_byte_capacity m" using fits(1) by (simp add: u_def)
  from append_committed_unit_ok [OF f(1) unit [folded m(2)] f(2,3) b f(4), of now]
  obtain log low where app:
      "append_committed_unit now u m = Some (m\<lparr>changelog := log, changelog_bytes := bytes_of log, floor_version := low\<rparr>)"
    and a: "retained low log (version m)" "suffix log (changelog m @ stamp now u)"
      "length log \<le> changelog_capacity m" "bytes_of log \<le> changelog_byte_capacity m"
    and longest: "\<forall>k suf. retained k suf (version m) \<and> suffix suf (changelog m @ stamp now u) \<and>
       length suf \<le> changelog_capacity m \<and> bytes_of suf \<le> changelog_byte_capacity m \<longrightarrow> suffix suf log"
    by blast
  have "suffix (stamp now u) log"
    using fits(2) len b by (intro suffix_stamp_unit [OF unit longest [unfolded m(2)]]) simp_all
  moreover have "feed_inv (m\<lparr>changelog := log, changelog_bytes := bytes_of log, floor_version := low\<rparr>)"
    using a f log(3) m(2) by (simp add: feed_inv_def)
  ultimately show ?thesis using app a(2) ne by auto
qed

lemma publish_indexes:
  assumes inv: "graph_inv g" and binv: "plan_rows g st h" and fin: "finish_batch al g st = Inr p"
    and k: "graph_inv k" "same_store g k"
  shows "\<exists>v. values_apply (pb_values p) (g_values k) = Some v \<and> has_index v = has_index (g_values k) \<and>
    indexes_ok (tags_apply (pb_tags p) (g_tags k)) (adj_apply (pb_adjacency p) (adjacency k)) v (rows h)"
proof -
  note f = finish_batch_ok [OF fin]
  have cons: "consistent (indexed_changes (bs_changes st)) (rows g)"
      "rows_after (indexed_changes (bs_changes st)) (rows g) = rows h"
    using binv by (simp_all add: plan_rows_def)
  have ix: "index_exact tag_inv tag_entries tag_keys (g_tags g) (rows g)"
      "index_exact adj_inv adj_entries adj_keys (adjacency g) (rows g)"
      "index_exact vidx_inv vidx_entries vidx_keys (g_values g) (rows g)" "vidx_inv (g_values k)"
    using inv k(1) by (simp_all add: graph_inv_def indexes_ok_def index_exact_def)
  have same: "g_tags k = g_tags g" "adjacency k = adjacency g"
      "has_index (g_values k) = has_index (g_values g)"
      "vidx_entries (g_values k) = vidx_entries (g_values g)"
    using k(2) by (simp_all add: same_store_def)
  obtain b b' where "tags_prepare al (g_tags g) (indexed_changes (bs_changes st)) b = Some (pb_tags p, b')"
    using f by blast
  note t = tags_plan_exact [OF ix(1) cons(1) this, unfolded cons(2)]
  obtain b b' where "adj_prepare al (adjacency g) (indexed_changes (bs_changes st)) b = Some (pb_adjacency p, b')"
    using f by blast
  note a = adj_plan_exact [OF ix(2) cons(1) this, unfolded cons(2)]
  obtain b b' where "values_prepare (g_values g) (indexed_changes (bs_changes st)) b = Some (pb_values p, b')"
    using f by blast
  note v = values_plan_exact [OF ix(3) cons(1) this ix(4) same(3,4), unfolded cons(2)]
  from t a v show ?thesis by (auto simp: indexes_ok_def same)
qed

lemma unit_diffs_of_eq_Nil [simp]: "unit_diffs_of ds r = [] \<longleftrightarrow> ds = []"
  by (cases ds) (simp_all add: unit_diffs_of_def)

lemma apply_changes_idle: "filter pc_changed cs = [] \<Longrightarrow> try_each apply_change cs g = Some g"
  by (induction cs) (auto simp: apply_change.simps split: if_splits)

lemma publish_idle:
  assumes inv: "graph_inv g" and binv: "batch_inv g st h" and fin: "finish_batch al g st = Inr p"
    and none: "bs_diffs st = []"
  shows "h = g \<and> bs_revision st = version g \<and> plan_free g st = free_ids g \<and> bs_next_id st = next_id g \<and>
    pb_values p = [] \<and> tags_apply (pb_tags p) i = i \<and> adj_apply (pb_adjacency p) a = a"
proof -
  have idle: "plan_idle g st" and log: "plan_log g st h" and rws: "plan_rows g st h"
    using binv by (simp_all add: batch_inv_def)
  then have ch: "filter pc_changed (bs_changes st) = []" using none by (simp add: plan_idle_def)
  then have ix: "indexed_changes (bs_changes st) = []" by (simp add: indexed_changes_def)
  have "h = g" using apply_changes_idle [OF ch, of g] rws by (simp add: plan_rows_def)
  moreover have "bs_revision st = version g" using log none by (auto simp: plan_log_def split: if_splits)
  moreover have "plan_free g st = free_ids g" "bs_next_id st = next_id g"
    using idle none by (simp_all add: plan_idle_def plan_free_def)
  moreover have "pb_values p = []" "pb_tags p = []" "pb_adjacency p = ([], [])"
    using finish_batch_ok [OF fin]
    by (auto simp: ix values_prepare_def tags_prepare_def adj_prepare_def bind_eq_Some_conv Let_def
        split: if_splits)
  ultimately show ?thesis by (simp add: tags_apply_def adj_apply_def)
qed

lemma publish_ok:
  assumes inv: "graph_inv g" and binv: "batch_inv g st h" and fin: "finish_batch al g st = Inr p"
    and k: "graph_inv k" "same_store g k" and st: "graph_state k = graph_state g"
    and gen: "index_generation k = index_generation g" and res: "reserves al' p"
  shows "\<exists>k'. apply_prepared al' now p k = Inr (batch_span p, k') \<and> graph_inv k' \<and>
    same_config k k' \<and> entities k' = entities h \<and> version k' = bs_revision st \<and>
    (if pb_diffs p = [] then same_store k k'
     else suffix (stamp now (pb_diffs p)) (changelog k') \<and>
       suffix (changelog k') (changelog k @ stamp now (pb_diffs p)))"
proof -
  note f = finish_batch_ok [OF fin]
  have parts: "plan_rows g st h" "plan_ids g st h" "plan_log g st h" using binv by (simp_all add: batch_inv_def)
  have rws: "same_rows g k" and same: "free_ids k = free_ids g" "version k = version g"
      "changelog_capacity k = changelog_capacity g" "changelog_byte_capacity k = changelog_byte_capacity g"
    using k(2) by (simp_all add: same_store_def)
  have each: "try_each apply_change (pb_changes p) k = Some (with_rows k h)"
    using apply_changes_rows [OF _ rws] parts(1) f by (simp add: plan_rows_def)
  obtain v where v: "values_apply (pb_values p) (g_values k) = Some v" "has_index v = has_index (g_values k)"
      "indexes_ok (tags_apply (pb_tags p) (g_tags k)) (adj_apply (pb_adjacency p) (adjacency k)) v (rows h)"
    using publish_indexes [OF inv parts(1) fin k] by blast
  define m where "m = (with_rows k h)\<lparr>free_ids := plan_free g st, next_id := bs_next_id st,
    g_tags := tags_apply (pb_tags p) (g_tags k), adjacency := adj_apply (pb_adjacency p) (adjacency k),
    g_values := v, version := bs_revision st\<rparr>"
  have mf: "feed_inv (m\<lparr>version := version g\<rparr>)" "version m = bs_revision st"
    using k(1) same by (simp_all add: m_def with_rows_def graph_inv_def feed_inv_def)
  have lg: "map gd_version (bs_diffs st) = [Suc (version g)..<Suc (bs_revision st)]"
      "version g \<le> bs_revision st" "bs_revision st \<le> U64_MAX"
    using parts(3) by (simp_all add: plan_log_def del: upt_Suc)
  have fits: "bytes_of (bs_diffs st) \<le> changelog_byte_capacity m" "length (bs_diffs st) \<le> changelog_capacity m"
    using f same by (simp_all add: m_def with_rows_def)
  have pd: "unit_diffs_of (bs_diffs st) (bs_revision st) = pb_diffs p" using f by simp
  from publish_feed [OF lg mf fits, of now, unfolded pd] obtain log b low where app:
      "(if pb_diffs p = [] then Some m else append_committed_unit now (pb_diffs p) m) =
        Some (m\<lparr>changelog := log, changelog_bytes := b, floor_version := low\<rparr>)"
      "feed_inv (m\<lparr>changelog := log, changelog_bytes := b, floor_version := low\<rparr>)"
      "if pb_diffs p = [] then log = changelog m \<and> low = floor_version m
       else suffix (stamp now (pb_diffs p)) log \<and> suffix log (changelog m @ stamp now (pb_diffs p))"
    by blast
  define cache where "cache = (g_query_cache k)\<lparr>qc_capacity :=
    max (qc_capacity (g_query_cache k)) (query_cache_capacity_for (length (entities h)))\<rparr>"
  define k' where "k' = m\<lparr>changelog := log, changelog_bytes := b, floor_version := low, g_query_cache := cache\<rparr>"
  have "pb_state p = graph_state g" "pb_index_generation p = index_generation g"
      "pb_after_revision p = bs_revision st" "pb_free_ids_consumed p = bs_consumed st"
      "pb_freed_ids p = bs_freed st" "pb_next_id p = bs_next_id st"
    using f by simp_all
  then have ap: "apply_prepared al' now p k =
      rbind (expect (if pb_diffs p = [] then Some m else append_committed_unit now (pb_diffs p) m)) (\<lambda>g.
        Inr (batch_span p, g\<lparr>g_query_cache := (g_query_cache g)\<lparr>qc_capacity :=
          max (qc_capacity (g_query_cache g)) (query_cache_capacity_for (length (entities g)))\<rparr>\<rparr>))"
    using st gen res each v(1) same
    by (simp add: apply_prepared_def Let_def m_def with_rows_def plan_free_def)
  have "apply_prepared al' now p k = Inr (batch_span p, k')"
    unfolding ap app(1) by (simp add: k'_def cache_def m_def with_rows_def)
  moreover have "qc_inv (bs_revision st) cache"
    using k(1) lg(2) same(2) qc_capacity_for_bounds [of "length (entities h)"]
    unfolding cache_def graph_inv_def
    by (intro qc_inv_grow qc_inv_later [of "version k" "g_query_cache k" "bs_revision st"])
      (auto simp: qc_inv_def)
  then have "graph_inv k'"
    using app(2) parts(2) v(3) k(1)
    by (simp add: k'_def m_def with_rows_def graph_inv_def plan_ids_def feed_inv_def)
  moreover have "same_config k k'" using v(2) by (simp add: same_config_def k'_def m_def with_rows_def cache_def)
  moreover have "same_store k k'" if "pb_diffs p = []"
  proof -
    have none: "bs_diffs st = []" using that f unit_diffs_of_eq_Nil by simp
    then have "v = g_values k" "tags_apply (pb_tags p) (g_tags k) = g_tags k"
        "adj_apply (pb_adjacency p) (adjacency k) = adjacency k"
      using publish_idle [OF inv binv fin none] v(1) by simp_all
    moreover have "bs_revision st = version k" "h = g" "plan_free g st = free_ids k" "bs_next_id st = next_id k"
      using publish_idle [OF inv binv fin none] k(2) by (simp_all add: same_store_def)
    ultimately show ?thesis
      using app(3) that rws by (simp add: same_store_def same_rows_def k'_def m_def with_rows_def)
  qed
  ultimately show ?thesis using app(3) by (intro exI [of _ k']) (auto simp: k'_def m_def with_rows_def)
qed

section \<open>Batches\<close>

lemma batch_abs_start: "batch_abs (batch_start g b) g = graph_abs g"
  by (simp add: batch_abs_def batch_start_def graph_abs_def)

lemma byte_capacity_small: "graph_inv g \<Longrightarrow> changelog_byte_capacity g < USIZE_MAX"
  by (auto simp: graph_inv_def feed_inv_def USIZE_MAX_def)

lemma prepare_ok:
  assumes "graph_inv g" and "list_all op_wf opers" and "prepare_batch al g v opers limits = Inr p"
  obtains st h where "batch_inv g st h" "finish_batch al g st = Inr p"
    "spec_operations opers (graph_abs g) = Inr (batch_abs st h)"
proof -
  from assms(3) obtain b st where st: "plan_operations g opers (batch_start g b) = Inr st"
      "finish_batch al g st = Inr p"
    by (auto simp: prepare_batch_def split: if_splits)
  from plan_operations_ok [OF batch_inv_start [OF assms(1)] assms(2) byte_capacity_small [OF assms(1)], of b]
  obtain h where "batch_inv g st h" "spec_operations opers (graph_abs g) = Inr (batch_abs st h)"
    by (auto simp: st(1) batch_abs_start)
  with st(2) that show thesis by blast
qed

lemma prepare_error:
  assumes "graph_inv g" and "list_all op_wf opers" and "prepare_batch al g v opers limits = Inl x"
  shows "x = Err BatchConflict \<and> v \<noteq> version g \<or> x = Err BatchEmpty \<and> opers = [] \<or>
    same_error x (spec_operations opers (graph_abs g))"
proof (cases "v \<noteq> version g \<or> opers = [] \<or> x = Err BatchLimit")
  case True
  with assms(3) show ?thesis by (auto simp: prepare_batch_def split: if_splits)
next
  case False
  with assms(3) obtain b where "plan_operations g opers (batch_start g b) = Inl x"
    by (auto simp: prepare_batch_def plan_buffer_bytes_def rbind_eq_Inl dest: finish_batch_error
        split: if_splits)
  with plan_operations_ok [OF batch_inv_start [OF assms(1)] assms(2) byte_capacity_small [OF assms(1)], of b]
  show ?thesis by (simp add: batch_abs_start)
qed

text \<open>What publishing a plan does to the graph and to the log.\<close>

definition published :: "int \<Rightarrow> graph_diff list \<Rightarrow> entity_graph \<Rightarrow> entity_graph \<Rightarrow> bool" where
  "published now ds k k' \<longleftrightarrow>
     graph_inv k' \<and> same_config k k' \<and>
     version k \<le> version k' \<and> map gd_version ds = [Suc (version k)..<Suc (version k')] \<and>
     (\<forall>d \<in> set ds. diff_ok d) \<and>
     map_of (entities k') = fold apply_diff ds (map_of (entities k)) \<and>
     (if ds = [] then same_store k k'
      else suffix (stamp now ds) (changelog k') \<and> suffix (changelog k') (changelog k @ stamp now ds))"

lemma batch_ok:
  assumes inv: "graph_inv g" and wf: "list_all op_wf opers"
    and prep: "prepare_batch al g v opers limits = Inr p"
    and k: "graph_inv k" "same_store g k" and st: "graph_state k = graph_state g"
    and gen: "index_generation k = index_generation g" and res: "reserves al' p"
  shows "\<exists>k'. apply_prepared al' now p k = Inr (batch_span p, k') \<and>
    spec_operations opers (graph_abs g) = Inr (graph_abs k') \<and> published now (pb_diffs p) k k'"
proof -
  obtain bs h where b: "batch_inv g bs h" "finish_batch al g bs = Inr p"
      "spec_operations opers (graph_abs g) = Inr (batch_abs bs h)"
    by (rule prepare_ok [OF inv wf prep])
  from publish_ok [OF inv b(1,2) k st gen res, of now] obtain k' where
    k': "apply_prepared al' now p k = Inr (batch_span p, k')" "graph_inv k'" "same_config k k'"
      "entities k' = entities h" "version k' = bs_revision bs"
      "if pb_diffs p = [] then same_store k k'
       else suffix (stamp now (pb_diffs p)) (changelog k') \<and>
         suffix (changelog k') (changelog k @ stamp now (pb_diffs p))"
    by blast
  have pd: "pb_diffs p = unit_diffs_of (bs_diffs bs) (bs_revision bs)"
    using finish_batch_ok [OF b(2)] by simp
  have log: "plan_log g bs h" using b(1) by (simp add: batch_inv_def)
  have "map gd_version (pb_diffs p) = map gd_version (bs_diffs bs)"
    by (cases "bs_diffs bs") (simp_all add: pd unit_diffs_of_def)
  then have "map gd_version (pb_diffs p) = [Suc (version k)..<Suc (version k')]"
    using log k(2) k'(5) by (simp add: plan_log_def same_store_def del: upt_Suc)
  moreover have "\<forall>d \<in> set (pb_diffs p). diff_ok d"
    unfolding pd using log by (intro unit_diffs_valid) (simp add: plan_log_def)
  moreover have "map_of (entities k') = fold apply_diff (pb_diffs p) (map_of (entities k))"
    using log k(2) k'(4) by (simp add: plan_log_def pd fold_unit_diffs same_store_def same_rows_def)
  moreover have "version k \<le> version k'" using log k(2) k'(5) by (simp add: plan_log_def same_store_def)
  ultimately have "published now (pb_diffs p) k k'"
    using k'(2,3,6) unfolding published_def by blast
  moreover have "batch_abs bs h = graph_abs k'" by (simp add: batch_abs_def graph_abs_def k'(4,5))
  ultimately show ?thesis using k'(1) b(3) by auto
qed

lemma apply_prepared_reserves:
  "apply_prepared al now p k = Inr r \<Longrightarrow>
   reserves al p \<and> graph_state k = pb_state p \<and> index_generation k = pb_index_generation p"
  by (auto simp: apply_prepared_def split: if_splits)

end
