(* ===== verification/Graph_Run.thy ===== *)
theory Graph_Run
  imports Entity_Query_Correct Batch_Correct
begin

text \<open>
  Runs of the entity graph: one step per public operation that changes the graph (queries
  included, since they fill the caches), the states reachable from a new graph, and what the
  change feed says about a run.
\<close>

section \<open>Steps and reachable graphs\<close>

inductive graph_step :: "(string \<Rightarrow> string + filter_node) \<Rightarrow> entity_graph \<Rightarrow> entity_graph \<Rightarrow> bool"
  for parse where
  step_add: "dict_wf e \<Longrightarrow> add now e g = Inr (rv, g') \<Longrightarrow> graph_step parse g g'"
| step_update: "dict_wf changes \<Longrightarrow> update now rv changes g = Inr g' \<Longrightarrow> graph_step parse g g'"
| step_remove: "remove now rv g = Inr (e, g') \<Longrightarrow> graph_step parse g g'"
| step_read: "read_all parse flt limit g = (g', r) \<Longrightarrow> graph_step parse g g'"
| step_index_field: "index_field f g = Some g' \<Longrightarrow> graph_step parse g g'"
| step_rebuild: "graph_step parse g (rebuild_value_index g)"
| step_set_namespace: "set_namespace a a' ns g = Some g' \<Longrightarrow> graph_step parse g g'"
| step_initialize:
    "compare_initialize_catalog expected base c g = Inr (n, g') \<Longrightarrow> graph_step parse g g'"
| step_activate:
    "compare_activate_catalog expected old new g = Inr (n, g') \<Longrightarrow> graph_step parse g g'"
| step_compare_set:
    "compare_set_namespace a a' expected' ns g = Inr (n, g') \<Longrightarrow> graph_step parse g g'"
| step_batch:
    "list_all op_wf opers \<Longrightarrow> prepare_batch al g expected_revision opers limits = Inr p \<Longrightarrow>
     apply_prepared al' now p g = Inr (span, g') \<Longrightarrow> graph_step parse g g'"
| step_renew: "graph_step parse g (renew_incarnation rand g)"

inductive reachable :: "(string \<Rightarrow> string + filter_node) \<Rightarrow> entity_graph \<Rightarrow> bool" for parse where
  reach_limits:
    "2 * max bytes 1 \<le> USIZE_MAX \<Longrightarrow> reachable parse (with_changelog_limits rand capacity bytes)"
| reach_namespace: "reachable parse (with_namespace rand ns)"
| reach_restore:
    "image_wf img \<Longrightarrow> restore rand now img catalog limits = Inr g \<Longrightarrow> reachable parse g"
| reach_step: "reachable parse g \<Longrightarrow> graph_step parse g g' \<Longrightarrow> reachable parse g'"

text \<open>Every step either leaves the entities, the version and the log alone, or commits a list of
  valid changes, which end the log unless they were too large to retain.\<close>

definition quiet :: "entity_graph \<Rightarrow> entity_graph \<Rightarrow> bool" where
  "quiet g g' \<longleftrightarrow> entities g' = entities g \<and> version g' = version g \<and>
     changelog g' = changelog g \<and> floor_version g' = floor_version g"

definition commits :: "int \<Rightarrow> graph_diff list \<Rightarrow> entity_graph \<Rightarrow> entity_graph \<Rightarrow> bool" where
  "commits now ds g g' \<longleftrightarrow>
     ds \<noteq> [] \<and> version g' = version g + length ds \<and>
     map_of (entities g') = fold apply_diff ds (map_of (entities g)) \<and>
     (changelog g' = [] \<or> (\<forall>d \<in> set ds. diff_ok d) \<and> suffix (changelog g') (changelog g @ stamp now ds))"

definition log_ok :: "entity_graph \<Rightarrow> bool" where
  "log_ok g \<longleftrightarrow> (\<forall>d \<in> set (changelog g). diff_ok d)"

lemma log_ok_commits: "log_ok g \<Longrightarrow> commits now ds g g' \<Longrightarrow> log_ok g'"
  by (fastforce simp: log_ok_def commits_def dest!: set_mono_suffix)

lemma commitsI:
  fixes d :: "nat \<Rightarrow> graph_diff"
  assumes "version g' = Suc (version g)"
    and "\<And>b. map_of (entities g') = apply_diff (d b) (map_of (entities g))"
    and "\<And>b. x = Some b \<Longrightarrow> diff_ok (d b)"
    and "logged now (map_option d x) (changelog g) (changelog g')"
  shows "\<exists>ds. commits now ds g g'"
proof (cases x)
  case None
  with assms have "commits now [d 0] g g'" by (simp add: commits_def logged_def)
  then show ?thesis by blast
next
  case (Some b)
  with assms have "commits now [d b] g g'" by (simp add: commits_def logged_def)
  then show ?thesis by blast
qed

lemma caches_ok_mutation:
  assumes "graph_inv g" and "caches_ok parse g" and "same_config g g'" and "version g < version g'"
  shows "caches_ok parse g'"
proof -
  have "map_of (qc_entries (g_query_cache g)) (flt, version g') = None" for flt
    using assms(1,4) by (simp add: graph_inv_def qc_inv_def)
  with assms(2-4) show ?thesis by (simp add: caches_ok_def same_config_def)
qed

lemma caches_ok_same:
  assumes "caches_ok parse g" and "same_data g g'" and "ast_cache g' = ast_cache g"
    and "g_query_cache g' = g_query_cache g"
  shows "caches_ok parse g'"
  using assms same_data_matches [OF assms(2)] by (simp add: caches_ok_def same_data_def)

lemma caches_ok_clear:
  "caches_ok parse g \<Longrightarrow> ast_cache g' = ast_cache g \<Longrightarrow> g_query_cache g' = qc_clear (g_query_cache g) \<Longrightarrow>
   caches_ok parse g'"
  by (simp add: caches_ok_def qc_clear_def)

lemma add_commits:
  assumes "graph_inv g" and "dict_wf e" and "add now e g = Inr (rv, g')"
  shows "\<exists>ds. commits now ds g g'"
proof (rule commitsI [where d = "add_diff (Suc (version g)) rv e"])
  note a = add_success [OF assms]
  show "logged now (map_option (add_diff (Suc (version g)) rv e)
      (diff_bytes rv [e] (changelog_byte_capacity g))) (changelog g) (changelog g')"
    using a by blast
  show "diff_bytes rv [e] (changelog_byte_capacity g) = Some b \<Longrightarrow> diff_ok (add_diff (Suc (version g)) rv e b)" for b
    using a diff_ok_add by blast
qed (use add_success [OF assms] in \<open>simp_all add: add_diff_def apply_diff_def\<close>)

lemma update_commits:
  assumes "graph_inv g" and "dict_wf changes" and "update now rv changes g = Inr g'"
  shows "g' = g \<or> (\<exists>ds. commits now ds g g')"
  using update_success [OF assms]
proof
  assume "\<exists>old. map_of (entities g) rv = Some old \<and> graph_inv g' \<and>
      entities g' = bt_insert rv (dict_merge old changes) (entities g) \<and>
      version g' = Suc (version g) \<and>
      logged now (map_option (update_diff (Suc (version g)) rv old changes)
        (patch_diff_bytes rv old changes (changelog_byte_capacity g))) (changelog g) (changelog g') \<and>
      same_config g g'"
  then obtain old where u: "map_of (entities g) rv = Some old"
      "entities g' = bt_insert rv (dict_merge old changes) (entities g)" "version g' = Suc (version g)"
      "logged now (map_option (update_diff (Suc (version g)) rv old changes)
        (patch_diff_bytes rv old changes (changelog_byte_capacity g))) (changelog g) (changelog g')"
    by blast
  have "\<exists>ds. commits now ds g g'"
    using u diff_ok_update [OF _ assms(2) byte_capacity_small [OF assms(1)]]
    by (intro commitsI [OF _ _ _ u(4)]) (simp_all add: update_diff_def apply_diff_def)
  then show ?thesis ..
qed simp

lemma remove_commits:
  assumes "graph_inv g" and "remove now rv g = Inr (e, g')"
  shows "\<exists>ds. commits now ds g g'"
proof -
  note r = remove_success [OF assms]
  have "has_id e rv" using assms(1) r by (auto simp: graph_inv_def ents_ok_def)
  with r diff_ok_remove show ?thesis
    by (intro commitsI [where d = "remove_diff (Suc (version g)) rv e" and
        x = "diff_bytes rv [e] (changelog_byte_capacity g)"])
      (auto simp: remove_diff_def apply_diff_def)
qed

lemma batch_step:
  assumes "graph_inv g" and "list_all op_wf opers" and "prepare_batch al g v opers limits = Inr p"
    and "apply_prepared al' now p g = Inr (span, g')"
  shows "spec_operations opers (graph_abs g) = Inr (graph_abs g') \<and> span = batch_span p \<and>
    published now (pb_diffs p) g g'"
proof -
  have "reserves al' p" using apply_prepared_reserves [OF assms(4)] by simp
  from batch_ok [OF assms(1-3,1) same_store_refl refl refl this, of now] assms(4) show ?thesis by auto
qed

lemma published_commits:
  assumes "published now ds g g'"
  shows "quiet g g' \<and> same_data g g' \<and> ds = [] \<or> commits now ds g g'"
proof (cases "ds = []")
  case True
  then have "same_store g g'" "g_namespace g' = g_namespace g"
    using assms by (simp_all add: published_def same_config_def)
  then show ?thesis using True by (simp add: same_store_def same_rows_def quiet_def same_data_def)
next
  case False
  have "length ds = version g' - version g" "version g \<le> version g'"
    using assms by (auto simp: published_def simp del: upt_Suc dest: arg_cong [where f = length])
  with False assms show ?thesis by (simp add: published_def commits_def)
qed

section \<open>Preservation\<close>

lemma catalog_step:
  assumes "publish_catalog c g = Inr (n, g')"
  shows "quiet g g' \<and> ast_cache g' = ast_cache g \<and> g_query_cache g' = qc_clear (g_query_cache g)"
  using assms by (auto simp: publish_catalog_def quiet_def)

lemma namespace_step:
  assumes "set_namespace a a' ns g = Some g'"
  shows "quiet g g' \<and> ast_cache g' = ast_cache g \<and> g_query_cache g' = qc_clear (g_query_cache g)"
  using assms
  by (auto simp: set_namespace_def quiet_def Let_def bind_eq_Some_conv split: option.splits)

lemma index_field_step:
  assumes "graph_inv g" and "index_field f g = Some g'"
  shows "graph_inv g' \<and> quiet g g' \<and> same_data g g' \<and> ast_cache g' = ast_cache g \<and>
    g_query_cache g' = g_query_cache g"
proof (cases "has_index (g_values g) f")
  case True
  with assms show ?thesis by (simp add: index_field_def quiet_def)
next
  case False
  with assms(2) have "index_generation g < U64_MAX"
    by (auto simp: index_field_def bind_eq_Some_conv checked_add_u64_def split: if_splits)
  with index_field_ok [OF assms(1), of f] assms(2) have "graph_inv g'" by auto
  with False assms(2) show ?thesis
    by (auto simp: index_field_def bind_eq_Some_conv quiet_def same_data_def)
qed

lemma read_step:
  assumes "graph_inv g" and "caches_ok parse g" and "read_all parse flt limit g = (g', r)"
  shows "graph_inv g' \<and> caches_ok parse g' \<and> quiet g g'"
proof -
  have "changelog g' = changelog g \<and> floor_version g' = floor_version g"
    using assms(3) by (auto simp: read_all_def cached_ast_def Let_def
        split: prod.splits option.splits sum.splits if_splits)
  moreover have "same_data g g'" "graph_inv g'" "caches_ok parse g'"
    using read_all_ok [OF assms(1,2), of flt limit] assms(3) by simp_all
  ultimately show ?thesis by (simp add: quiet_def same_data_def)
qed

definition run_inv :: "(string \<Rightarrow> string + filter_node) \<Rightarrow> entity_graph \<Rightarrow> bool" where
  "run_inv parse g \<longleftrightarrow> graph_inv g \<and> caches_ok parse g \<and> log_ok g"

lemma run_inv_quiet:
  "run_inv parse g \<Longrightarrow> graph_inv g' \<Longrightarrow> caches_ok parse g' \<Longrightarrow> quiet g g' \<Longrightarrow>
   run_inv parse g' \<and> (quiet g g' \<or> (\<exists>now ds. commits now ds g g'))"
  by (simp add: run_inv_def log_ok_def quiet_def)

lemma run_inv_commits:
  assumes "run_inv parse g" and "graph_inv g'" and "same_config g g'" and "commits now ds g g'"
  shows "run_inv parse g' \<and> (quiet g g' \<or> (\<exists>now ds. commits now ds g g'))"
proof -
  have "version g < version g'" using assms(4) by (cases ds) (simp_all add: commits_def)
  with assms caches_ok_mutation [of g parse g'] log_ok_commits show ?thesis
    by (auto simp: run_inv_def)
qed

lemma published_run:
  assumes run: "run_inv parse g" and pub: "published now ds g g'"
  shows "run_inv parse g' \<and> (quiet g g' \<or> (\<exists>now ds. commits now ds g g'))"
proof -
  have ok: "caches_ok parse g" using run by (simp_all add: run_inv_def)
  have g': "graph_inv g'" "same_config g g'" using pub by (simp_all add: published_def)
  from published_commits [OF pub] show ?thesis
  proof
    assume q: "quiet g g' \<and> same_data g g' \<and> ds = []"
    have "caches_ok parse g'"
      using ok g'(2) q same_data_matches [of g g'] by (simp add: caches_ok_def same_config_def same_data_def)
    with run_inv_quiet [OF run g'(1)] q show ?thesis by blast
  qed (rule run_inv_commits [OF run g'])
qed

lemma graph_step_ok:
  assumes "graph_step parse g g'" and run: "run_inv parse g"
  shows "run_inv parse g' \<and> (quiet g g' \<or> (\<exists>now ds. commits now ds g g'))"
proof -
  have inv: "graph_inv g" and ok: "caches_ok parse g" using run by (simp_all add: run_inv_def)
  note quiet = run_inv_quiet [OF run] and commit = run_inv_commits [OF run]
  from assms(1) show ?thesis
  proof cases
    case (step_add e now rv)
    from add_success [OF inv step_add] add_commits [OF inv step_add] show ?thesis using commit by blast
  next
    case (step_update changes now rv)
    from update_success [OF inv step_update] update_commits [OF inv step_update] show ?thesis
      using commit run by (auto simp: quiet_def)
  next
    case (step_remove now rv e)
    from remove_success [OF inv step_remove] remove_commits [OF inv step_remove] show ?thesis
      using commit by blast
  next
    case (step_batch opers al v limits p al' now span)
    then show ?thesis using published_run [OF run] batch_step [OF inv] by blast
  next
    case (step_read flt limit r)
    with read_step [OF inv ok] quiet show ?thesis by blast
  next
    case (step_index_field f)
    with index_field_step [OF inv] caches_ok_same [OF ok] quiet show ?thesis by blast
  next
    case step_rebuild
    then show ?thesis
      using rebuild_value_index_ok [OF inv] caches_ok_same [OF ok, of g']
      by (intro quiet) (simp_all add: rebuild_value_index_def quiet_def same_data_def)
  next
    case (step_set_namespace a a' ns)
    with namespace_step set_namespace_inv [OF inv] caches_ok_clear [OF ok] quiet show ?thesis by blast
  next
    case (step_initialize expected base c n)
    then have "publish_catalog c g = Inr (n, g')"
      by (auto simp: compare_initialize_catalog_def Let_def split: if_splits)
    with catalog_step publish_catalog_inv [OF inv] caches_ok_clear [OF ok] quiet show ?thesis by blast
  next
    case (step_activate expected old new n)
    then have "publish_catalog new g = Inr (n, g')"
      by (auto simp: compare_activate_catalog_def split: if_splits)
    with catalog_step publish_catalog_inv [OF inv] caches_ok_clear [OF ok] quiet show ?thesis by blast
  next
    case (step_compare_set a a' expected ns n)
    then have "set_namespace a a' ns g = Some g'"
      by (auto simp: compare_set_namespace_def split: if_splits)
    with namespace_step set_namespace_inv [OF inv] caches_ok_clear [OF ok] quiet show ?thesis by blast
  next
    case (step_renew rand)
    then show ?thesis
      using inv caches_ok_same [OF ok, of g']
      by (intro quiet) (simp_all add: renew_incarnation_def quiet_def same_data_def graph_inv_def feed_inv_def)
  qed
qed

lemma caches_ok_empty: "ast_cache g = [] \<Longrightarrow> qc_entries (g_query_cache g) = [] \<Longrightarrow> caches_ok parse g"
  by (simp add: caches_ok_def)

lemma reachable_run_inv: "reachable parse g \<Longrightarrow> run_inv parse g"
proof (induction rule: reachable.induct)
  case (reach_limits bytes rand capacity)
  then show ?case
    using graph_inv_limits by (simp add: run_inv_def log_ok_def caches_ok_empty with_changelog_limits_def
        with_changelog_capacity_def qc_new_def)
next
  case (reach_namespace rand ns)
  have "graph_inv (graph_new rand)" by (simp add: graph_new_def graph_inv_capacity)
  then show ?case
    by (simp add: run_inv_def log_ok_def with_namespace_def graph_inv_def feed_inv_def caches_ok_empty
        graph_new_def with_changelog_capacity_def qc_new_def)
next
  case (reach_restore img rand now catalog limits g)
  with restore_sound [OF reach_restore(2,1)] show ?case
    by (simp add: run_inv_def log_ok_def caches_ok_empty)
next
  case (reach_step g g')
  then show ?case using graph_step_ok by blast
qed

lemma reachable_ok: "reachable parse g \<Longrightarrow> graph_inv g \<and> caches_ok parse g"
  using reachable_run_inv by (simp add: run_inv_def)

section \<open>Replaying the feed\<close>

lemma suffix_drop: "suffix xs ys \<Longrightarrow> xs = drop (length ys - length xs) ys"
  by (auto simp: suffix_def)

lemma graph_inv_retained: "graph_inv g \<Longrightarrow> retained (floor_version g) (changelog g) (version g)"
  by (simp add: graph_inv_def feed_inv_def)

lemma replay_extends:
  assumes "retained f log v" and "retained f' log' (v + length xs)" and "f' \<le> b" and "b \<le> v"
    and "suffix log' (log @ xs)"
  shows "f \<le> b" and "drop (b - f') log' = drop (b - f) log @ xs"
proof -
  have len: "f + length log = v" "f' + length log' = v + length xs"
    using retained_length assms(1,2) by blast+
  have le: "length log' \<le> length log + length xs" using assms(5) by (auto dest: suffix_length_le)
  with len assms(3) show "f \<le> b" by simp
  have "log' = drop (length log + length xs - length log') (log @ xs)"
    using suffix_drop [OF assms(5)] by simp
  then have "drop (b - f') log' = drop (b - f' + (length log + length xs - length log')) (log @ xs)"
    by (metis drop_drop)
  also have "b - f' + (length log + length xs - length log') = b - f"
    using len le assms(3,4) \<open>f \<le> b\<close> by simp
  also have "drop (b - f) (log @ xs) = drop (b - f) log @ xs"
    using len assms(4) by simp
  finally show "drop (b - f') log' = drop (b - f) log @ xs" .
qed

lemma fold_apply_stamp: "fold apply_diff (stamp now ds) = fold apply_diff ds"
  by (induction ds) simp_all

lemma replay_commits:
  assumes inv: "graph_inv h" "graph_inv h'" and c: "commits now ds h h'"
    and le: "b \<le> version h" and low: "floor_version h' \<le> b"
  shows "floor_version h \<le> b \<and>
    fold apply_diff (drop (b - floor_version h') (changelog h')) m =
    fold apply_diff ds (fold apply_diff (drop (b - floor_version h) (changelog h)) m)"
proof -
  have r: "retained (floor_version h) (changelog h) (version h)"
      "retained (floor_version h') (changelog h') (version h + length (stamp now ds))"
    using graph_inv_retained [OF inv(1)] graph_inv_retained [OF inv(2)] c by (simp_all add: commits_def)
  have "changelog h' \<noteq> []" using r(2) low le c by (cases ds) (auto simp: commits_def)
  with c have "suffix (changelog h') (changelog h @ stamp now ds)" by (auto simp: commits_def)
  from replay_extends [OF r low le this] show ?thesis by (simp add: fold_apply_stamp)
qed

lemma replay_steps:
  assumes "(graph_step parse)\<^sup>*\<^sup>* g g'" and "run_inv parse g"
  shows "run_inv parse g' \<and> version g \<le> version g' \<and>
    (floor_version g' \<le> version g \<longrightarrow>
       fold apply_diff (drop (version g - floor_version g') (changelog g')) (map_of (entities g)) =
       map_of (entities g'))"
  using assms(1)
proof (induction rule: rtranclp_induct)
  case base
  have "retained (floor_version g) (changelog g) (version g)"
    using assms(2) by (simp add: run_inv_def graph_inv_retained)
  then show ?case using assms(2) retained_length by fastforce
next
  case (step h h')
  then have run: "run_inv parse h" and le: "version g \<le> version h" by simp_all
  note h' = graph_step_ok [OF step.hyps(2) run]
  show ?case
  proof (cases "quiet h h'")
    case True
    with step.IH h' show ?thesis by (simp add: quiet_def)
  next
    case False
    with h' obtain now ds where c: "commits now ds h h'" by blast
    have inv: "graph_inv h" "graph_inv h'" using run h' by (simp_all add: run_inv_def)
    from replay_commits [OF inv c le] step.IH h' c le show ?thesis
      by (auto simp: commits_def)
  qed
qed

lemma replay_since:
  assumes "(graph_step parse)\<^sup>*\<^sup>* g g'" and "run_inv parse g"
    and "changes_since g' (version g) = Inr ds"
  shows "fold apply_diff ds (map_of (entities g)) = map_of (entities g')"
proof -
  note r = replay_steps [OF assms(1,2)]
  then have "retained (floor_version g') (changelog g') (version g')"
    by (simp add: graph_inv_retained run_inv_def)
  from changes_since_eq [OF this, of "version g"] assms(3)
  have "floor_version g' \<le> version g" "ds = drop (version g - floor_version g') (changelog g')"
    by (simp_all split: if_splits)
  with r show ?thesis by simp
qed

section \<open>Rebuilding the value index\<close>

lemma rebuild_values_has_index:
  "has_index (rebuild_values ids es v) = has_index v"
proof (induction ids es v rule: rebuild_values.induct)
  case (2 ids rv e es v)
  then show ?case by (simp split: option.splits)
qed simp

lemma vidx_clear_has_index: "has_index (vidx_clear v) = has_index v"
proof
  fix f
  have "map_of (map (\<lambda>(f, _). (f, [] :: value_tree)) xs) f = map_option (\<lambda>_. []) (map_of xs f)"
    for xs :: "(string \<times> value_tree) list"
    by (induction xs) auto
  then show "has_index (vidx_clear v) f = has_index v f"
    by (simp add: has_index_def vidx_clear_def)
qed

lemma rebuild_entries:
  assumes "graph_inv g"
  shows "vidx_entries (g_values (rebuild_value_index g)) = vidx_entries (g_values g)"
proof -
  have "has_index (g_values (rebuild_value_index g)) = has_index (g_values g)"
    by (simp add: rebuild_value_index_def rebuild_values_has_index vidx_clear_has_index)
  then have "vidx_keys (g_values (rebuild_value_index g)) = vidx_keys (g_values g)"
    by (rule vidx_keys_cong)
  moreover have "rows (rebuild_value_index g) = rows g" by (simp add: rebuild_value_index_def)
  ultimately show ?thesis
    using graph_indexes(5) [OF assms] graph_indexes(5) [OF rebuild_value_index_ok [OF assms]]
    by auto
qed

section \<open>Plans prepared earlier\<close>

text \<open>A step leaves the store a plan was prepared for alone, or advances one of the two counters the
  plan is checked against.\<close>

definition progress :: "entity_graph \<Rightarrow> entity_graph \<Rightarrow> bool" where
  "progress g g' \<longleftrightarrow>
     version g \<le> version g' \<and> index_generation g \<le> index_generation g' \<and>
     (same_store g g' \<or> version g < version g' \<or> index_generation g < index_generation g')"

lemma progress_version: "version g < version g' \<Longrightarrow> same_config g g' \<Longrightarrow> progress g g'"
  by (simp add: progress_def same_config_def)

lemma progress_same: "same_store g g' \<Longrightarrow> index_generation g' = index_generation g \<Longrightarrow> progress g g'"
  by (simp add: progress_def same_store_def)

lemma read_all_store:
  assumes "read_all parse flt limit g = (g', r)"
  shows "same_store g g'" and "index_generation g' = index_generation g"
  using assms
  by (auto simp: read_all_def cached_ast_def Let_def same_store_def same_rows_def
      split: prod.splits option.splits sum.splits if_splits)

lemma graph_step_progress:
  assumes "graph_step parse g g'" and run: "run_inv parse g"
  shows "progress g g'"
proof -
  have inv: "graph_inv g" using run by (simp_all add: run_inv_def)
  from assms(1) show ?thesis
  proof cases
    case (step_add e now rv)
    from add_success [OF inv step_add] show ?thesis by (intro progress_version) simp_all
  next
    case (step_update changes now rv)
    from update_success [OF inv step_update] show ?thesis
      by (auto intro: progress_version progress_same)
  next
    case (step_remove now rv e)
    from remove_success [OF inv step_remove] show ?thesis by (intro progress_version) simp_all
  next
    case (step_batch opers al v limits p al' now span)
    then have pub: "published now (pb_diffs p) g g'" using batch_step [OF inv] by blast
    then have "same_config g g'" by (simp add: published_def)
    moreover have "same_store g g' \<or> version g < version g'"
      using pub published_commits [OF pub] by (cases "pb_diffs p") (auto simp: published_def commits_def)
    ultimately show ?thesis using progress_version progress_same by (auto simp: same_config_def)
  next
    case (step_read flt limit r)
    from read_all_store [OF this] show ?thesis by (rule progress_same)
  next
    case (step_index_field f)
    then show ?thesis
      by (auto simp: index_field_def progress_def bind_eq_Some_conv checked_add_u64_eq_Some Let_def
          split: if_splits)
  next
    case step_rebuild
    then show ?thesis
      using rebuild_entries [OF inv]
      by (intro progress_same) (simp_all add: rebuild_value_index_def same_store_def same_rows_def
          rebuild_values_has_index vidx_clear_has_index)
  next
    case (step_set_namespace a a' ns)
    then show ?thesis
      by (intro progress_same) (auto simp: set_namespace_def same_store_def same_rows_def bind_eq_Some_conv
          Let_def split: option.splits)
  next
    case (step_initialize expected base c n)
    then show ?thesis
      by (intro progress_same) (auto simp: compare_initialize_catalog_def publish_catalog_def same_store_def
          same_rows_def Let_def split: if_splits)
  next
    case (step_activate expected old new n)
    then show ?thesis
      by (intro progress_same) (auto simp: compare_activate_catalog_def publish_catalog_def same_store_def
          same_rows_def split: if_splits)
  next
    case (step_compare_set a a' expected ns n)
    then show ?thesis
      by (intro progress_same) (auto simp: compare_set_namespace_def set_namespace_def same_store_def
          same_rows_def bind_eq_Some_conv Let_def split: if_splits option.splits)
  next
    case (step_renew rand)
    then show ?thesis by (intro progress_same) (simp_all add: renew_incarnation_def same_store_def same_rows_def)
  qed
qed

lemma same_store_trans: "same_store g h \<Longrightarrow> same_store h k \<Longrightarrow> same_store g k"
  by (simp add: same_store_def same_rows_def)

lemma progress_trans:
  assumes "progress g h" and "progress h k"
  shows "progress g k"
proof (cases "same_store g h \<and> same_store h k")
  case True
  then have "same_store g k" using same_store_trans by blast
  with assms show ?thesis by (simp add: progress_def)
next
  case False
  with assms show ?thesis unfolding progress_def by linarith
qed

lemma run_progress:
  assumes "(graph_step parse)\<^sup>*\<^sup>* g k" and "run_inv parse g"
  shows "run_inv parse k \<and> progress g k"
  using assms(1)
proof (induction rule: rtranclp_induct)
  case base
  with assms(2) show ?case by (simp add: progress_same)
next
  case (step h k)
  then have "run_inv parse h" "progress g h" by simp_all
  with graph_step_ok [OF step.hyps(2)] graph_step_progress [OF step.hyps(2)] progress_trans [of g h k]
  show ?case by simp
qed

lemma stale_plan:
  assumes run: "run_inv parse g" and wf: "list_all op_wf opers"
    and prep: "prepare_batch al g v opers limits = Inr p"
    and steps: "(graph_step parse)\<^sup>*\<^sup>* g k" and app: "apply_prepared al' now p k = Inr (span, k')"
  shows "run_inv parse k' \<and> span = batch_span p \<and> graph_abs k = graph_abs g \<and>
    spec_operations opers (graph_abs k) = Inr (graph_abs k')"
proof -
  have inv: "graph_inv g" using run by (simp add: run_inv_def)
  have k: "run_inv parse k" "progress g k" using run_progress [OF steps run] by simp_all
  then have ik: "graph_inv k" by (simp add: run_inv_def)
  note res = apply_prepared_reserves [OF app]
  have pb: "pb_state p = graph_state g" "pb_index_generation p = index_generation g"
    using prepare_ok [OF inv wf prep] finish_batch_ok by metis+
  have st: "graph_state k = graph_state g" "index_generation k = index_generation g"
    using res pb by simp_all
  then have same: "same_store g k" using k(2) by (auto simp: progress_def graph_state_def)
  obtain k'' where k'': "apply_prepared al' now p k = Inr (batch_span p, k'')"
      "spec_operations opers (graph_abs g) = Inr (graph_abs k'')" "published now (pb_diffs p) k k''"
    using batch_ok [OF inv wf prep ik same st, of al' now] res by blast
  then have "k'' = k'" "span = batch_span p" using app by simp_all
  moreover have "graph_abs k = graph_abs g"
    using same by (simp add: same_store_def same_rows_def graph_abs_def)
  ultimately show ?thesis using k'' published_run [OF k(1) k''(3)] by simp
qed

lemma publish_total:
  assumes run: "run_inv parse g" and wf: "list_all op_wf opers"
    and prep: "prepare_batch al g v opers limits = Inr p" and steps: "(graph_step parse)\<^sup>*\<^sup>* g k"
  shows "if graph_state k \<noteq> graph_state g \<or> index_generation k \<noteq> index_generation g
    then apply_prepared al' now p k = Inl (Err BatchConflict)
    else if \<not> reserves al' p then apply_prepared al' now p k = Inl (Err BatchLimit)
    else \<exists>k'. apply_prepared al' now p k = Inr (batch_span p, k') \<and> graph_inv k'"
proof -
  have inv: "graph_inv g" using run by (simp add: run_inv_def)
  have k: "graph_inv k" "progress g k" using run_progress [OF steps run] by (simp_all add: run_inv_def)
  have pb: "pb_state p = graph_state g" "pb_index_generation p = index_generation g"
    using prepare_ok [OF inv wf prep] finish_batch_ok by metis+
  show ?thesis
  proof (cases "graph_state k = graph_state g \<and> index_generation k = index_generation g \<and> reserves al' p")
    case True
    then have "same_store g k" using k(2) by (auto simp: progress_def graph_state_def)
    from batch_ok [OF inv wf prep k(1) this, of al' now] True show ?thesis
      by (auto simp: published_def)
  next
    case False
    then show ?thesis by (auto simp: apply_prepared_def pb)
  qed
qed

lemma batch_unit:
  assumes "graph_inv g" and "list_all op_wf opers"
    and "prepare_batch al g v opers limits = Inr p" and "apply_prepared al' now p g = Inr (span, g')"
    and "pb_diffs p \<noteq> []"
  shows "unit_ok (version g) (pb_diffs p) (version g') \<and>
    span = Some \<lparr>span_first = Suc (version g), span_last = version g'\<rparr> \<and>
    suffix (stamp now (pb_diffs p)) (changelog g')"
proof -
  note st = batch_step [OF assms(1-4)]
  obtain bs h where b: "batch_inv g bs h" "finish_batch al g bs = Inr p"
      "spec_operations opers (graph_abs g) = Inr (batch_abs bs h)"
    by (rule prepare_ok [OF assms(1-3)])
  have v: "version g' = bs_revision bs" using st b(3) by (simp add: graph_abs_def batch_abs_def)
  have pd: "pb_diffs p = unit_diffs_of (bs_diffs bs) (bs_revision bs)"
    using finish_batch_ok [OF b(2)] by simp
  have "map gd_version (bs_diffs bs) = [Suc (version g)..<Suc (bs_revision bs)]"
    using b(1) by (simp add: batch_inv_def plan_log_def del: upt_Suc)
  then have u: "unit_ok (version g) (pb_diffs p) (version g')"
    using unit_of_batch assms(5) by (simp add: pd v del: upt_Suc)
  then have "batch_span p = Some \<lparr>span_first = Suc (version g), span_last = version g'\<rparr>"
    using assms(5) by (cases "pb_diffs p") (simp_all add: batch_span_def unit_ok_def)
  moreover have "suffix (stamp now (pb_diffs p)) (changelog g')"
    using st assms(5) by (simp add: published_def)
  ultimately show ?thesis using u st by simp
qed

end
