(* ===== verification/Entity_Export.thy ===== *)
theory Entity_Export
  imports Entity_Query_Correct
begin

text \<open>
  Grids, validation, hierarchy and classification: the remaining read operations of
  \<open>graph/entity_graph.rs\<close>, and \<open>from_grid\<close>, which builds a graph from exported rows.

  The column set of \<open>read\<close> goes through a \<open>HashSet\<close> and is then sorted, so its order does
  not depend on the hash order; the one of \<open>entities_to_grid\<close> is collected in order of first
  appearance and sorted.  \<open>build_subtree\<close> threads its set of visited identifiers through the
  recursion; the recursion ends because the depth is bounded.  \<open>build_children\<close>, its loop
  over the children, is only entered below the maximal depth and repeats that condition.
\<close>

section \<open>Grids\<close>

definition read :: "(string \<Rightarrow> string + filter_node) \<Rightarrow> string \<Rightarrow> nat \<Rightarrow> entity_graph \<Rightarrow>
    entity_graph \<times> (graph_error, hgrid) res" where
  "read parse flt limit g =
     (case read_all parse flt limit g of
        (g', Inl e) \<Rightarrow> (g', Inl e)
      | (g', Inr results) \<Rightarrow>
          (g', Inr (if results = [] then grid_new
             else
               (let seen = (\<Union>e \<in> set results. set (tag_names e));
                    col_set = sorted_list_of_set seen
                in grid_from_parts dict_new (map col_new col_set) results))))"

fun collect_names :: "string list \<Rightarrow> string list \<Rightarrow> string list" where
  "collect_names [] col_set = col_set"
| "collect_names (name # names) col_set =
     collect_names names (if name \<in> set col_set then col_set else col_set @ [name])"

fun collect_cols :: "hdict list \<Rightarrow> string list \<Rightarrow> string list" where
  "collect_cols [] col_set = col_set"
| "collect_cols (e # es) col_set = collect_cols es (collect_names (tag_names e) col_set)"

definition entities_to_grid :: "hdict list \<Rightarrow> hgrid" where
  "entities_to_grid es =
     (if es = [] then grid_new
      else grid_from_parts dict_new (map col_new (sort (collect_cols es []))) es)"

definition to_grid :: "(string \<Rightarrow> string + filter_node) \<Rightarrow> string \<Rightarrow> entity_graph \<Rightarrow>
    entity_graph \<times> (graph_error, hgrid) res" where
  "to_grid parse flt g =
     (if flt = [] then (g, Inr (entities_to_grid (map snd (entities g)))) else read parse flt 0 g)"

fun add_rows :: "int \<Rightarrow> hdict list \<Rightarrow> entity_graph \<Rightarrow> (graph_error, entity_graph) res" where
  "add_rows now [] g = Inr g"
| "add_rows now (row # rs) g =
     (case dict_id row of
        None \<Rightarrow> add_rows now rs g
      | Some _ \<Rightarrow>
          (case add now row g of
             Inr (_, g') \<Rightarrow> add_rows now rs g'
           | Inl (Err (DuplicateRef _)) \<Rightarrow> add_rows now rs g
           | Inl e \<Rightarrow> Inl e))"

definition from_grid :: "8 word list \<Rightarrow> int \<Rightarrow> hgrid \<Rightarrow> namespace arc option \<Rightarrow>
    (graph_error, entity_graph) res" where
  "from_grid rand now grid ns =
     add_rows now (grid_rows grid)
       (case ns of Some n \<Rightarrow> with_namespace rand n | None \<Rightarrow> graph_new rand)"

section \<open>Validation\<close>

definition dangling_issue :: "string option \<Rightarrow> string \<Rightarrow> string \<Rightarrow> validation_issue" where
  "dangling_issue entity_ref name target =
     \<lparr>vi_entity = entity_ref, vi_issue_type = ''dangling_ref'',
      vi_detail = ''tag '' @ [CHR 0x27] @ name @ [CHR 0x27] @ '' references '' @ [CHR 0x27] @ target @
        [CHR 0x27] @ '' which does not exist in the graph''\<rparr>"

fun dangling_tags ::
  "entity_graph \<Rightarrow> string option \<Rightarrow> (string \<times> kind) list \<Rightarrow> validation_issue list" where
  "dangling_tags g entity_ref [] = []"
| "dangling_tags g entity_ref ((name, val) # ts) =
     (if name = ''id'' then dangling_tags g entity_ref ts
      else
        (case val of
           KRef r \<Rightarrow>
             (if map_of (entities g) (ref_val r) = None
              then dangling_issue entity_ref name (ref_val r) # dangling_tags g entity_ref ts
              else dangling_tags g entity_ref ts)
         | _ \<Rightarrow> dangling_tags g entity_ref ts))"

definition validate :: "entity_graph \<Rightarrow> validation_issue list" where
  "validate g =
     (case graph_ns g of
        Some ns \<Rightarrow> concat (map (validate_entity ns) (map snd (entities g)))
      | None \<Rightarrow> []) @
     concat (map (\<lambda>e. dangling_tags g (map_option ref_val (dict_id e)) (tags e)) (map snd (entities g)))"

section \<open>Hierarchy\<close>

datatype hierarchy_node =
  HNode (node_entity: hdict) (node_children: "hierarchy_node list") (node_depth: nat)

function build_subtree ::
    "entity_graph \<Rightarrow> string \<Rightarrow> hdict \<Rightarrow> nat \<Rightarrow> nat \<Rightarrow> string list \<Rightarrow> hierarchy_node \<times> string list"
  and build_children ::
    "entity_graph \<Rightarrow> hdict list \<Rightarrow> nat \<Rightarrow> nat \<Rightarrow> string list \<Rightarrow> hierarchy_node list \<times> string list" where
  "build_subtree g rv e depth max_depth visited =
     (if depth < max_depth then
        (case build_children g (children g rv) depth max_depth visited of
           (cs, visited') \<Rightarrow> (HNode e cs depth, visited'))
      else (HNode e [] depth, visited))"
| "build_children g [] depth max_depth visited = ([], visited)"
| "build_children g (child # rest) depth max_depth visited =
     (case dict_id child of
        None \<Rightarrow> build_children g rest depth max_depth visited
      | Some r \<Rightarrow>
          (if ref_val r \<in> set visited then build_children g rest depth max_depth visited
           else if depth < max_depth then
             (case build_subtree g (ref_val r) child (depth + 1) max_depth (ref_val r # visited) of
                (n, visited') \<Rightarrow>
                  (case build_children g rest depth max_depth visited' of
                     (ns, visited'') \<Rightarrow> (n # ns, visited'')))
           else ([], visited)))"
  by pat_completeness auto
termination
  by (relation "inv_image (less_than <*lex*> less_than) (\<lambda>x. case x of
      Inl (g, rv, e, depth, max_depth, visited) \<Rightarrow> (Suc (2 * (max_depth - depth)), 0)
    | Inr (g, cs, depth, max_depth, visited) \<Rightarrow> (2 * (max_depth - depth), length cs))") auto

definition hierarchy_tree :: "entity_graph \<Rightarrow> string \<Rightarrow> nat \<Rightarrow> hierarchy_node option" where
  "hierarchy_tree g root max_depth =
     map_option (\<lambda>e. fst (build_subtree g root e 0 max_depth [root])) (map_of (entities g) root)"

section \<open>Classification\<close>

definition CLASSIFY_PRIORITY :: "string list" where
  "CLASSIFY_PRIORITY =
     [''sensor'', ''cmd'', ''sp'', ''ahu'', ''vav'', ''boiler'', ''chiller'', ''meter'', ''point'',
      ''equip'', ''room'', ''floor'', ''zone'', ''space'', ''site'', ''weather'', ''device'', ''network'']"

definition classify_entity :: "hdict \<Rightarrow> string option" where
  "classify_entity e = find (dict_has e) CLASSIFY_PRIORITY"

definition classify :: "entity_graph \<Rightarrow> string \<Rightarrow> string option" where
  "classify g rv = Option.bind (map_of (entities g) rv) classify_entity"

section \<open>Columns\<close>

lemma collect_names_ok:
  "set (collect_names ns cs) = set cs \<union> set ns \<and> (distinct cs \<longrightarrow> distinct (collect_names ns cs))"
  by (induction ns cs rule: collect_names.induct) auto

lemma collect_cols_ok:
  "set (collect_cols es cs) = set cs \<union> (\<Union>e \<in> set es. set (tag_names e)) \<and>
   (distinct cs \<longrightarrow> distinct (collect_cols es cs))"
proof (induction es cs rule: collect_cols.induct)
  case (2 e es cs)
  then show ?case using collect_names_ok [of "tag_names e" cs] by auto
qed simp

lemma sort_collect_cols:
  "sort (collect_cols es []) = sorted_list_of_set (\<Union>e \<in> set es. set (tag_names e))"
proof (rule sorted_distinct_set_unique)
  show "set (sort (collect_cols es [])) = set (sorted_list_of_set (\<Union>e \<in> set es. set (tag_names e)))"
    using collect_cols_ok [of es "[]"] by simp
  show "distinct (sort (collect_cols es []))" using collect_cols_ok [of es "[]"] by simp
qed simp_all

lemma read_grid: "read parse flt limit g =
    (fst (read_all parse flt limit g),
     map_sum (\<lambda>e. e) entities_to_grid (snd (read_all parse flt limit g)))"
  by (cases "read_all parse flt limit g"; cases "snd (read_all parse flt limit g)")
    (auto simp: read_def entities_to_grid_def sort_collect_cols Let_def)

section \<open>Import\<close>

text \<open>What importing rows does to the contents: the first row of an identifier wins.\<close>

fun import_rows :: "hdict list \<Rightarrow> (string \<Rightarrow> hdict option) \<Rightarrow> string \<Rightarrow> hdict option" where
  "import_rows [] m = m"
| "import_rows (row # rs) m =
     import_rows rs
       (case result_ref row of
          None \<Rightarrow> m
        | Some rv \<Rightarrow> if m rv = None then m(rv \<mapsto> row) else m)"

lemma result_ref_dict_id: "result_ref row = map_option ref_val (dict_id row)"
  by (auto simp: result_ref_def dict_id_def dict_get_def split: option.splits kind.splits)

lemma dict_id_get: "dict_id row = Some r \<longleftrightarrow> dict_get row ''id'' = Some (KRef r)"
  by (auto simp: dict_id_def dict_get_def split: option.splits kind.splits)

lemma add_rows_ok:
  assumes "graph_inv g" and "\<forall>row \<in> set rs. dict_wf row"
    and "version g + length rs \<le> U64_MAX" and "card (dom (map_of (entities g))) + length rs \<le> Suc U32_MAX"
  shows "\<exists>g'. add_rows now rs g = Inr g' \<and> graph_inv g' \<and>
    map_of (entities g') = import_rows rs (map_of (entities g))"
  using assms
proof (induction rs arbitrary: g)
  case (Cons row rs)
  show ?case
  proof (cases "dict_id row")
    case None
    with Cons show ?thesis by (simp add: result_ref_dict_id)
  next
    case (Some r)
    note get = Some [unfolded dict_id_get]
    have wf: "dict_wf row" using Cons.prems(2) by simp
    have spec: "abs_result (add now row g) = spec_add row (graph_abs g)"
      using add_cases [OF Cons.prems(1) wf] by blast
    show ?thesis
    proof (cases "map_of (entities g) (ref_val r)")
      case (Some e)
      then have "add now row g = Inl (Err (DuplicateRef (ref_val r)))"
        using spec get by (cases "add now row g") (auto simp: spec_add_def graph_abs_def)
      with Some \<open>dict_id row = Some r\<close> Cons.IH [of g] Cons.prems
      show ?thesis by (simp add: result_ref_dict_id)
    next
      case None
      have room: "version g \<noteq> U64_MAX" "card (dom (map_of (entities g))) \<noteq> Suc U32_MAX"
        using Cons.prems(3,4) by auto
      then obtain g' where g': "add now row g = Inr (ref_val r, g')"
          "graph_abs g' = \<lparr>contents = (map_of (entities g))(ref_val r \<mapsto> row), revision = Suc (version g)\<rparr>"
        using spec get None by (cases "add now row g") (auto simp: spec_add_def graph_abs_def)
      then have g'': "map_of (entities g') = (map_of (entities g))(ref_val r \<mapsto> row)"
          "version g' = Suc (version g)" "graph_inv g'"
        using add_cases [OF Cons.prems(1) wf, of now] by (auto simp: graph_abs_def)
      have "card (dom (map_of (entities g'))) = Suc (card (dom (map_of (entities g))))"
        using None by (simp add: g'' finite_dom_map_of domIff)
      then have "\<exists>g2. add_rows now rs g' = Inr g2 \<and> graph_inv g2 \<and>
          map_of (entities g2) = import_rows rs (map_of (entities g'))"
        using Cons.prems g''(2,3) by (intro Cons.IH) simp_all
      with Some g' None show ?thesis by (simp add: result_ref_dict_id g'')
    qed
  qed
qed simp

lemma import_rows_distinct:
  assumes "distinct (map fst ps)" and "\<forall>(rv, e) \<in> set ps. has_id e rv \<and> m rv = None"
  shows "import_rows (map snd ps) m = m ++ map_of ps"
  using assms
proof (induction ps arbitrary: m)
  case (Cons p ps)
  obtain rv e where p: "p = (rv, e)" by force
  have "result_ref e = Some rv" "m rv = None" using Cons.prems(2) by (auto simp: p result_ref_iff)
  then have "import_rows (map snd (p # ps)) m = import_rows (map snd ps) (m(rv \<mapsto> e))"
    by (simp add: p)
  also have "\<dots> = m(rv \<mapsto> e) ++ map_of ps"
    using Cons.prems by (intro Cons.IH) (force simp: p)+
  also have "\<dots> = m ++ map_of (p # ps)"
    using Cons.prems(1) map_of_eq_None_iff [of ps rv]
    by (auto simp: p map_add_def fun_eq_iff split: option.splits)
  finally show ?case .
qed simp

section \<open>Dangling references\<close>

lemma dangling_tags_empty:
  assumes "dict_wf e"
  shows "dangling_tags g er (tags e) = [] \<longleftrightarrow> (\<forall>(t, v) \<in> ref_edges e. graph_contains g v)"
proof -
  have "dangling_tags g er ts = [] \<longleftrightarrow> (\<forall>(t, v) \<in> tag_edges ts. graph_contains g v)" for ts
  proof (induction g er ts rule: dangling_tags.induct)
    case (2 g er name val ts)
    then show ?case
      by (cases val) (auto simp: tag_edges_Cons graph_contains_def split: if_splits)
  qed (simp add: tag_edges_def)
  then show ?thesis using tag_edges_dict [OF assms] by simp
qed

section \<open>The hierarchy tree\<close>

fun tree_ids :: "hierarchy_node \<Rightarrow> string list" where
  "tree_ids (HNode e cs d) =
     (case dict_id e of Some r \<Rightarrow> [ref_val r] | None \<Rightarrow> []) @ concat (map tree_ids cs)"

text \<open>Depths count up from the root to at most the bound, and every child refers to its parent.\<close>

fun tree_shape :: "entity_graph \<Rightarrow> nat \<Rightarrow> nat \<Rightarrow> hierarchy_node \<Rightarrow> bool" where
  "tree_shape g max_depth d (HNode e cs d') \<longleftrightarrow>
     d' = d \<and> d \<le> max_depth \<and>
     (\<forall>c \<in> set cs. tree_shape g max_depth (Suc d) c \<and>
        (\<exists>r. dict_id e = Some r \<and> node_entity c \<in> set (children g (ref_val r))))"

lemma node_entity_subtree: "node_entity (fst (build_subtree g rv e depth max_depth visited)) = e"
  by (simp split: prod.splits)

lemma build_ok:
  "build_subtree g rv e depth max_depth visited = (n, visited') \<Longrightarrow> has_id e rv \<Longrightarrow> depth \<le> max_depth \<Longrightarrow>
   rv \<in> set visited \<Longrightarrow>
   \<exists>rest. tree_ids n = rv # rest \<and> distinct rest \<and> set rest \<inter> set visited = {} \<and>
     set visited' = set visited \<union> set rest \<and> tree_shape g max_depth depth n \<and> node_entity n = e"
  "build_children g cs depth max_depth visited = (ns, visited') \<Longrightarrow> depth < max_depth \<Longrightarrow>
   distinct (concat (map tree_ids ns)) \<and> set (concat (map tree_ids ns)) \<inter> set visited = {} \<and>
     set visited' = set visited \<union> set (concat (map tree_ids ns)) \<and>
     (\<forall>c \<in> set ns. tree_shape g max_depth (Suc depth) c \<and> node_entity c \<in> set cs)"
proof (induction g rv e depth max_depth visited and g cs depth max_depth visited
    arbitrary: n visited' and ns visited' rule: build_subtree_build_children.induct)
  case (1 g rv e depth max_depth visited)
  from "1.prems"(2) obtain r where r: "dict_id e = Some r" "ref_val r = rv"
    by (auto simp: has_id_def dict_id_get)
  show ?case
  proof (cases "depth < max_depth")
    case False
    with "1.prems" have "n = HNode e [] depth" "visited' = visited" by simp_all
    with "1.prems" r show ?thesis by simp
  next
    case True
    obtain ns v where ns: "build_children g (children g rv) depth max_depth visited = (ns, v)"
      by force
    from "1.IH" [OF True ns True] have
      IH: "distinct (concat (map tree_ids ns)) \<and> set (concat (map tree_ids ns)) \<inter> set visited = {} \<and>
        set v = set visited \<union> set (concat (map tree_ids ns)) \<and>
        (\<forall>c \<in> set ns. tree_shape g max_depth (Suc depth) c \<and> node_entity c \<in> set (children g rv))" .
    have "n = HNode e ns depth" "visited' = v"
      using "1.prems"(1) True ns by (auto simp del: build_children.simps)
    with IH r True show ?thesis by auto
  qed
next
  case (3 g child rest depth max_depth visited)
  show ?case
  proof (cases "\<exists>r. dict_id child = Some r \<and> ref_val r \<notin> set visited")
    case False
    then have eq: "build_children g (child # rest) depth max_depth visited =
        build_children g rest depth max_depth visited"
      by (auto split: option.splits)
    show ?thesis
    proof (cases "dict_id child")
      case None
      from "3.IH"(1) [OF None "3.prems"(1) [unfolded eq] "3.prems"(2)] show ?thesis by auto
    next
      case (Some r)
      with False have "ref_val r \<in> set visited" by simp
      from "3.IH"(2) [OF Some this "3.prems"(1) [unfolded eq] "3.prems"(2)] show ?thesis by auto
    qed
  next
    case True
    then obtain r where r: "dict_id child = Some r" "ref_val r \<notin> set visited" by blast
    obtain n v where n: "build_subtree g (ref_val r) child (depth + 1) max_depth (ref_val r # visited) = (n, v)"
      by force
    obtain ns' v' where ns': "build_children g rest depth max_depth v = (ns', v')" by force
    have res: "ns = n # ns'" "visited' = v'"
      using "3.prems" r n ns' by (auto simp del: build_subtree.simps)
    have "has_id child (ref_val r)" using r(1) by (auto simp: has_id_def dict_id_get)
    from "3.IH"(3) [OF r "3.prems"(2) n this] "3.prems"(2) obtain ids where
      ids: "tree_ids n = ref_val r # ids" "distinct ids" "set ids \<inter> set (ref_val r # visited) = {}"
        "set v = set (ref_val r # visited) \<union> set ids" "tree_shape g max_depth (Suc depth) n"
        "node_entity n = child"
      by auto
    from "3.IH"(4) [OF r "3.prems"(2) n [symmetric] ns' "3.prems"(2)]
    show ?thesis using ids r(2) by (auto simp: res)
  qed
qed simp

section \<open>Import and export\<close>

lemma import_rows_find:
  "import_rows rs m rv =
     (case m rv of Some e \<Rightarrow> Some e | None \<Rightarrow> find (\<lambda>row. result_ref row = Some rv) rs)"
  by (induction rs arbitrary: m) (auto split: option.splits)

lemma from_grid_ok:
  assumes "\<forall>row \<in> set (grid_rows grid). dict_wf row"
    and "length (grid_rows grid) \<le> Suc U32_MAX"
  shows "\<exists>g. from_grid rand now grid ns = Inr g \<and> graph_inv g \<and>
    map_of (entities g) = import_rows (grid_rows grid) Map.empty"
proof -
  define g0 where "g0 = (case ns of Some n \<Rightarrow> with_namespace rand n | None \<Rightarrow> graph_new rand)"
  have "graph_inv (graph_new rand)" by (simp add: graph_new_def graph_inv_capacity)
  then have g0: "graph_inv g0" "entities g0 = []" "version g0 = 0"
    by (auto simp: g0_def with_namespace_def graph_new_def with_changelog_capacity_def graph_inv_def
        feed_inv_def split: option.splits)
  show ?thesis
    using add_rows_ok [OF g0(1) assms(1), of now] assms(2)
    by (simp add: from_grid_def g0_def [symmetric] g0(2,3) U64_MAX_def U32_MAX_def)
qed

lemma entities_length:
  assumes "graph_inv g"
  shows "length (entities g) \<le> Suc U32_MAX"
proof -
  have ids: "ids_ok (id_map g) (reverse_id g) (next_id g) (free_ids g)"
    and ents: "ents_ok (entities g) (id_map g)"
    using assms by (simp_all add: graph_inv_def)
  have "length (entities g) = card (dom (map_of (entities g)))"
    using bt_wf_distinct [of "entities g"] ents distinct_card [of "map fst (entities g)"]
    by (simp add: ents_ok_def dom_map_of_conv_image_fst)
  then show ?thesis using card_ids [OF ids] ids ents by (simp add: ids_ok_def ents_ok_def)
qed

lemma export_import:
  assumes "graph_inv g"
  shows "\<exists>g'. from_grid rand now (entities_to_grid (map snd (entities g))) ns = Inr g' \<and>
    graph_inv g' \<and> entities g' = entities g"
proof -
  have rows: "grid_rows (entities_to_grid (map snd (entities g))) = map snd (entities g)"
    by (simp add: entities_to_grid_def grid_new_def grid_from_parts_def)
  have ents: "ents_ok (entities g) (id_map g)" using assms by (simp add: graph_inv_def)
  then have bt: "bt_wf (entities g)" by (simp add: ents_ok_def)
  have e: "\<forall>(rv, e) \<in> set (entities g). has_id e rv \<and> dict_wf e"
    using ents bt_in_set_iff [OF bt] by (auto simp: ents_ok_def)
  then have "\<forall>row \<in> set (map snd (entities g)). dict_wf row" by auto
  then obtain g' where g': "from_grid rand now (entities_to_grid (map snd (entities g))) ns = Inr g'"
      "graph_inv g'" "map_of (entities g') = import_rows (map snd (entities g)) Map.empty"
    using from_grid_ok [of "entities_to_grid (map snd (entities g))" rand now ns] rows
      entities_length [OF assms] by auto
  have "import_rows (map snd (entities g)) Map.empty = map_of (entities g)"
    using import_rows_distinct [OF bt_wf_distinct [OF bt], of Map.empty] e by fastforce
  then have "entities g' = entities g"
    using g'(2,3) bt by (intro bt_ext) (simp_all add: graph_inv_def ents_ok_def)
  with g' show ?thesis by blast
qed

lemma validate_dangling:
  assumes "graph_inv g" and "g_namespace g = None"
  shows "validate g = [] \<longleftrightarrow>
    (\<forall>rv e. map_of (entities g) rv = Some e \<longrightarrow> (\<forall>(t, target) \<in> ref_edges e. graph_contains g target))"
proof -
  have ents: "bt_wf (entities g)" "\<And>rv e. map_of (entities g) rv = Some e \<Longrightarrow> dict_wf e"
    using assms(1) by (auto simp: graph_inv_def ents_ok_def)
  have "validate g = [] \<longleftrightarrow>
      (\<forall>(rv, e) \<in> set (entities g). dangling_tags g (map_option ref_val (dict_id e)) (tags e) = [])"
    using assms(2) by (auto simp: validate_def graph_ns_def)
  also have "\<dots> \<longleftrightarrow> (\<forall>rv e. map_of (entities g) rv = Some e \<longrightarrow>
      dangling_tags g (map_option ref_val (dict_id e)) (tags e) = [])"
    by (auto simp: bt_in_set_iff [OF ents(1)])
  also have "\<dots> \<longleftrightarrow> (\<forall>rv e. map_of (entities g) rv = Some e \<longrightarrow>
      (\<forall>(t, target) \<in> ref_edges e. graph_contains g target))"
    using dangling_tags_empty [OF ents(2)] by blast
  finally show ?thesis .
qed

lemma hierarchy_ok:
  assumes "graph_inv g" and "map_of (entities g) root = Some e"
  shows "\<exists>n. hierarchy_tree g root max_depth = Some n \<and> node_entity n = e \<and>
    hd (tree_ids n) = root \<and> distinct (tree_ids n) \<and> tree_shape g max_depth 0 n"
proof -
  obtain n visited where n: "build_subtree g root e 0 max_depth [root] = (n, visited)" by force
  have "has_id e root" using assms by (simp add: graph_inv_def ents_ok_def)
  from build_ok(1) [OF n this] n assms(2) show ?thesis
    by (auto simp: hierarchy_tree_def simp del: build_subtree.simps)
qed

end
