(* ===== verification/Shared_Graph.thy ===== *)
theory Shared_Graph
  imports Graph_Run Entity_Export
begin

text \<open>
  The shared handle of a graph and its subscribers: \<open>graph/shared.rs\<close> and \<open>graph/subscriber.rs\<close>.

  A handle is a lock around the graph and two broadcast channels.  The lock makes every closure one
  step, so an operation is a function of the graph it finds; the channels are modelled by the messages
  sent on them, oldest first, and what a receiver makes of them (a message, a notice that it lagged
  behind, a closed channel) is an argument of the subscriber.  The random incarnation is an argument.
\<close>

section \<open>The handle\<close>

datatype graph_wake = WakeEntities graph_state | WakeReset graph_state | WakeCatalog graph_state

record shared_graph =
  sg_addr :: nat
  sg_inner :: entity_graph
  sg_tx :: "nat list"
  sg_wakes :: "graph_wake list"

definition from_restored :: "nat \<Rightarrow> entity_graph \<Rightarrow> shared_graph" where
  "from_restored addr g = \<lparr>sg_addr = addr, sg_inner = g, sg_tx = [], sg_wakes = []\<rparr>"

definition shared_new :: "nat \<Rightarrow> 8 word list \<Rightarrow> entity_graph \<Rightarrow> shared_graph" where
  "shared_new addr rand g = from_restored addr (renew_incarnation rand g)"

definition shares_storage :: "shared_graph \<Rightarrow> shared_graph \<Rightarrow> bool" where
  "shares_storage a b \<longleftrightarrow> sg_addr a = sg_addr b"

definition shared_read :: "(entity_graph \<Rightarrow> 'r) \<Rightarrow> shared_graph \<Rightarrow> 'r" where
  "shared_read f sg = f (sg_inner sg)"

definition shared_state :: "shared_graph \<Rightarrow> graph_state" where
  "shared_state sg = shared_read graph_state sg"

text \<open>What dropping the write guard does: a replaced graph gets a fresh incarnation, and the channels
  are told after the lock is released.\<close>

definition write_drop :: "8 word list \<Rightarrow> graph_state \<Rightarrow> entity_graph \<Rightarrow> shared_graph \<Rightarrow> shared_graph" where
  "write_drop rand before g sg =
     (let reset = (incarnation g \<noteq> st_incarnation before);
          g = (if reset then renew_incarnation rand g else g);
          after = graph_state g;
          sg = sg\<lparr>sg_inner := g\<rparr>;
          sg = (if reset \<or> st_revision after \<noteq> st_revision before
                then sg\<lparr>sg_tx := sg_tx sg @ [st_revision after],
                        sg_wakes := sg_wakes sg @ [if reset then WakeReset after else WakeEntities after]\<rparr>
                else sg)
      in if \<not> reset \<and> st_catalog_generation after \<noteq> st_catalog_generation before
         then sg\<lparr>sg_wakes := sg_wakes sg @ [WakeCatalog after]\<rparr>
         else sg)"

definition shared_write ::
  "8 word list \<Rightarrow> (entity_graph \<Rightarrow> 'r \<times> entity_graph) \<Rightarrow> shared_graph \<Rightarrow> 'r \<times> shared_graph" where
  "shared_write rand f sg =
     (case f (sg_inner sg) of (r, g) \<Rightarrow> (r, write_drop rand (graph_state (sg_inner sg)) g sg))"

text \<open>A bounded attempt to take the lock either gets it or does nothing.\<close>

definition shared_write_for ::
  "bool \<Rightarrow> 8 word list \<Rightarrow> (entity_graph \<Rightarrow> 'r \<times> entity_graph) \<Rightarrow> shared_graph \<Rightarrow> 'r option \<times> shared_graph" where
  "shared_write_for locked rand f sg =
     (if locked then (case shared_write rand f sg of (r, sg') \<Rightarrow> (Some r, sg')) else (None, sg))"

definition shared_read_for :: "bool \<Rightarrow> (entity_graph \<Rightarrow> 'r) \<Rightarrow> shared_graph \<Rightarrow> 'r option" where
  "shared_read_for locked f sg = (if locked then Some (shared_read f sg) else None)"

text \<open>A closure around a mutation: an error leaves the graph as the mutation leaves it, unchanged.\<close>

definition attempt :: "(entity_graph \<Rightarrow> ('e, 'a \<times> entity_graph) res) \<Rightarrow> entity_graph \<Rightarrow> ('e, 'a) res \<times> entity_graph" where
  "attempt f g = (case f g of Inl e \<Rightarrow> (Inl e, g) | Inr (a, g') \<Rightarrow> (Inr a, g'))"

definition shared_add ::
  "8 word list \<Rightarrow> int \<Rightarrow> hdict \<Rightarrow> shared_graph \<Rightarrow> (graph_error, string) res \<times> shared_graph" where
  "shared_add rand now e = shared_write rand (attempt (add now e))"

definition shared_update ::
  "8 word list \<Rightarrow> int \<Rightarrow> string \<Rightarrow> hdict \<Rightarrow> shared_graph \<Rightarrow> (graph_error, unit) res \<times> shared_graph" where
  "shared_update rand now rv changes =
     shared_write rand (attempt (\<lambda>g. map_sum (\<lambda>e. e) (Pair ()) (update now rv changes g)))"

definition shared_remove ::
  "8 word list \<Rightarrow> int \<Rightarrow> string \<Rightarrow> shared_graph \<Rightarrow> (graph_error, hdict) res \<times> shared_graph" where
  "shared_remove rand now rv = shared_write rand (attempt (remove now rv))"

text \<open>Queries fill the caches inside the graph while holding the read lock only; nothing is announced.\<close>

definition shared_read_all ::
  "(string \<Rightarrow> string + filter_node) \<Rightarrow> string \<Rightarrow> nat \<Rightarrow> shared_graph \<Rightarrow>
   (graph_error, hdict list) res \<times> shared_graph" where
  "shared_read_all parse flt limit sg =
     (case read_all parse flt limit (sg_inner sg) of (g, r) \<Rightarrow> (r, sg\<lparr>sg_inner := g\<rparr>))"

definition shared_read_filter ::
  "(string \<Rightarrow> string + filter_node) \<Rightarrow> string \<Rightarrow> nat \<Rightarrow> shared_graph \<Rightarrow>
   (graph_error, hgrid) res \<times> shared_graph" where
  "shared_read_filter parse flt limit sg =
     (case read parse flt limit (sg_inner sg) of (g, r) \<Rightarrow> (r, sg\<lparr>sg_inner := g\<rparr>))"

definition shared_changes_since :: "nat \<Rightarrow> shared_graph \<Rightarrow> changelog_gap + graph_diff list" where
  "shared_changes_since v = shared_read (\<lambda>g. changes_since g v)"

section \<open>Publishing a restored graph\<close>

text \<open>The related projections a caller publishes under the same lock are \<open>related\<close>.\<close>

definition publish_restored_with ::
  "bool \<Rightarrow> graph_state \<Rightarrow> entity_graph \<Rightarrow> ('x \<Rightarrow> 'x) \<Rightarrow> shared_graph \<Rightarrow> 'x \<Rightarrow>
   recovery_error + shared_graph \<times> 'x" where
  "publish_restored_with locked expected next related sg x =
     (if \<not> locked then Inl RecoveryLimit
      else if graph_state (sg_inner sg) \<noteq> expected \<or> incarnation next \<noteq> st_incarnation expected \<or>
          catalog_generation next \<noteq> st_catalog_generation expected \<or> version next < st_revision expected
        then Inl RecoveryInvalid
      else
        (let after = graph_state next; sg = sg\<lparr>sg_inner := next\<rparr>
         in Inr (if st_revision after \<noteq> st_revision expected
                 then sg\<lparr>sg_tx := sg_tx sg @ [st_revision after], sg_wakes := sg_wakes sg @ [WakeEntities after]\<rparr>
                 else sg, related x)))"

definition publish_restored ::
  "bool \<Rightarrow> graph_state \<Rightarrow> entity_graph \<Rightarrow> shared_graph \<Rightarrow> recovery_error + shared_graph" where
  "publish_restored locked expected next sg =
     map_sum (\<lambda>e. e) fst (publish_restored_with locked expected next (\<lambda>u. u) sg ())"

section \<open>Subscribers\<close>

datatype recv = RecvOk nat | RecvLagged | RecvClosed

record subscriber =
  last_version :: nat

definition subscriber_new :: "shared_graph \<Rightarrow> subscriber" where
  "subscriber_new sg = \<lparr>last_version = shared_read version sg\<rparr>"

definition from_version :: "nat \<Rightarrow> subscriber" where
  "from_version v = \<lparr>last_version = v\<rparr>"

text \<open>Further pending messages are drained and only make the graph be read once for all of them.\<close>

definition next_batch ::
  "recv \<Rightarrow> shared_graph \<Rightarrow> subscriber \<Rightarrow> (changelog_gap + graph_diff list) \<times> subscriber" where
  "next_batch r sg s =
     (case r of
        RecvClosed \<Rightarrow> (Inr [], s)
      | _ \<Rightarrow>
          (case shared_changes_since (last_version s) sg of
             Inl gap \<Rightarrow> (Inl gap, s)
           | Inr diffs \<Rightarrow>
               (Inr diffs, if diffs = [] then s else s\<lparr>last_version := gd_version (last diffs)\<rparr>)))"

section \<open>Runs\<close>

text \<open>What happens to a shared graph: closures made of graph operations, and queries.\<close>

inductive shared_step :: "(string \<Rightarrow> string + filter_node) \<Rightarrow> shared_graph \<Rightarrow> shared_graph \<Rightarrow> bool"
  for parse where
  shared_writes:
    "(graph_step parse)\<^sup>*\<^sup>* (sg_inner sg) g \<Longrightarrow>
     shared_step parse sg (write_drop rand (graph_state (sg_inner sg)) g sg)"
| shared_reads: "shared_read_all parse flt limit sg = (r, sg') \<Longrightarrow> shared_step parse sg sg'"

text \<open>A subscriber of \<open>sg0\<close> beside the run, with the changes it was given.\<close>

inductive observed ::
  "(string \<Rightarrow> string + filter_node) \<Rightarrow> shared_graph \<Rightarrow> shared_graph \<Rightarrow> subscriber \<Rightarrow> graph_diff list \<Rightarrow> bool"
  for parse sg0 where
  obs_start: "observed parse sg0 sg0 (subscriber_new sg0) []"
| obs_step: "observed parse sg0 sg s got \<Longrightarrow> shared_step parse sg sg' \<Longrightarrow> observed parse sg0 sg' s got"
| obs_batch:
    "observed parse sg0 sg s got \<Longrightarrow> next_batch r sg s = (Inr diffs, s') \<Longrightarrow>
     observed parse sg0 sg s' (got @ diffs)"

lemma shared_write_step:
  "(graph_step parse)\<^sup>*\<^sup>* (sg_inner sg) (snd (f (sg_inner sg))) \<Longrightarrow> shared_step parse sg (snd (shared_write rand f sg))"
  by (cases "f (sg_inner sg)") (auto simp: shared_write_def intro: shared_writes)

text \<open>The mutations of the handle are such steps, whether they succeed or not.\<close>

lemma attempt_step:
  "(\<And>a g'. f g = Inr (a, g') \<Longrightarrow> graph_step parse g g') \<Longrightarrow> (graph_step parse)\<^sup>*\<^sup>* g (snd (attempt f g))"
  by (auto simp: attempt_def split: sum.split)

lemma shared_mutation_steps:
  "dict_wf e \<Longrightarrow> shared_step parse sg (snd (shared_add rand now e sg))"
  "dict_wf e \<Longrightarrow> shared_step parse sg (snd (shared_update rand now rv e sg))"
  "shared_step parse sg (snd (shared_remove rand now rv sg))"
  unfolding shared_add_def shared_update_def shared_remove_def
  by (rule shared_write_step, rule attempt_step,
      auto intro: step_add step_update step_remove simp: map_sum_Inr)+

text \<open>The messages sent since a version end with the current one.\<close>

definition announced :: "nat \<Rightarrow> nat list \<Rightarrow> nat \<Rightarrow> bool" where
  "announced v sent now \<longleftrightarrow> sorted (v # sent) \<and> last (v # sent) = now"

lemma announced_step: "announced v sent a \<Longrightarrow> a \<le> b \<Longrightarrow> announced v (sent @ [b]) b"
  by (cases sent rule: rev_cases) (auto simp: announced_def sorted_append)

lemma write_drop_inner:
  "sg_inner (write_drop rand before g sg) =
   (if incarnation g \<noteq> st_incarnation before then renew_incarnation rand g else g)"
  by (simp add: write_drop_def Let_def)

lemma write_drop_tx:
  "sg_tx (write_drop rand before g sg) =
   (if incarnation g \<noteq> st_incarnation before \<or> version g \<noteq> st_revision before then sg_tx sg @ [version g] else sg_tx sg)"
  by (simp add: write_drop_def Let_def graph_state_def renew_incarnation_def)

lemma shared_step_inner: "shared_step parse sg sg' \<Longrightarrow> (graph_step parse)\<^sup>*\<^sup>* (sg_inner sg) (sg_inner sg')"
proof (induction rule: shared_step.induct)
  case (shared_writes sg g rand)
  then show ?case by (auto simp: write_drop_inner intro: rtranclp.rtrancl_into_rtrancl step_renew)
next
  case (shared_reads flt limit sg r sg')
  then show ?case
    by (auto simp: shared_read_all_def split: prod.splits intro!: r_into_rtranclp intro: step_read)
qed

lemma read_all_version: "read_all parse flt limit g = (g', r) \<Longrightarrow> version g' = version g"
  using read_all_store(1) by (simp add: same_store_def)

lemma shared_step_announces:
  assumes "shared_step parse sg sg'" and "run_inv parse (sg_inner sg)"
    and "announced v sent (version (sg_inner sg))" and "sg_tx sg = old @ sent"
  shows "\<exists>sent'. sg_tx sg' = old @ sent' \<and> announced v sent' (version (sg_inner sg'))"
  using assms(1)
proof cases
  case (shared_writes g rand)
  have "version (sg_inner sg) \<le> version g"
    using run_progress [OF shared_writes(2) assms(2)] by (simp add: progress_def)
  with announced_step [OF assms(3)] have "announced v (sent @ [version g]) (version g)" by simp
  with shared_writes assms(3,4) show ?thesis
    by (auto simp: write_drop_tx write_drop_inner graph_state_def renew_incarnation_def)
next
  case (shared_reads flt limit r)
  with read_all_version assms(2-4) show ?thesis
    by (auto simp: shared_read_all_def split: prod.splits)
qed

text \<open>What a subscriber has been given replays the graph it started from up to some graph on the way.\<close>

definition caught_up ::
  "(string \<Rightarrow> string + filter_node) \<Rightarrow> entity_graph \<Rightarrow> entity_graph \<Rightarrow> subscriber \<Rightarrow> graph_diff list \<Rightarrow> bool" where
  "caught_up parse g0 h s got \<longleftrightarrow>
     run_inv parse h \<and> version g0 \<le> version h \<and> last_version s = version h \<and>
     fold apply_diff got (map_of (entities g0)) = map_of (entities h) \<and>
     map gd_version got = [Suc (version g0)..<Suc (version h)]"

lemma next_batch_catches_up:
  assumes h: "caught_up parse g0 h s got" and "(graph_step parse)\<^sup>*\<^sup>* h (sg_inner sg)"
    and batch: "next_batch r sg s = (Inr diffs, s')" and "r \<noteq> RecvClosed"
  shows "caught_up parse g0 (sg_inner sg) s' (got @ diffs)"
proof -
  let ?g = "sg_inner sg"
  have steps: "run_inv parse ?g" "version h \<le> version ?g"
    using replay_steps [OF assms(2)] h by (auto simp: caught_up_def)
  have since: "changes_since ?g (version h) = Inr diffs"
    and s': "s' = (if diffs = [] then s else s\<lparr>last_version := gd_version (last diffs)\<rparr>)"
    using batch h assms(4)
    by (auto simp: next_batch_def shared_changes_since_def shared_read_def caught_up_def
        split: recv.splits sum.splits)
  have ret: "retained (floor_version ?g) (changelog ?g) (version ?g)"
    using steps(1) by (simp add: run_inv_def graph_inv_retained)
  with since have versions: "map gd_version diffs = [Suc (version h)..<Suc (version ?g)]"
    using retained_drop_versions [OF ret] by (auto simp: changes_since_eq [OF ret] split: if_splits simp del: upt_Suc)
  have "last_version s' = version ?g"
  proof (cases "diffs = []")
    case True
    with versions steps(2) h s' show ?thesis by (auto simp: caught_up_def split: if_splits)
  next
    case False
    then have "gd_version (last diffs) = last (map gd_version diffs)" by (simp add: last_map)
    moreover have "last (map gd_version diffs) = version ?g" using versions False by (cases "version h < version ?g") auto
    ultimately show ?thesis using False s' by simp
  qed
  moreover have "fold apply_diff (got @ diffs) (map_of (entities g0)) = map_of (entities ?g)"
    using replay_since [OF assms(2) _ since] h by (simp add: caught_up_def)
  moreover have "map gd_version (got @ diffs) = [Suc (version g0)..<Suc (version ?g)]"
    using versions steps(2) h upt_join [of "Suc (version g0)" "Suc (version h)" "Suc (version ?g)"]
    by (simp add: caught_up_def del: upt_Suc)
  ultimately show ?thesis using steps h by (simp add: caught_up_def)
qed

lemma next_batch_gap:
  assumes "run_inv parse (sg_inner sg)" and "r \<noteq> RecvClosed"
  shows "next_batch r sg s = (Inl gap, s') \<longleftrightarrow>
    last_version s < floor_version (sg_inner sg) \<and> s' = s \<and>
    gap = \<lparr>subscriber_version = last_version s, gap_floor_version = floor_version (sg_inner sg)\<rparr>"
proof -
  have "retained (floor_version (sg_inner sg)) (changelog (sg_inner sg)) (version (sg_inner sg))"
    using assms(1) by (simp add: run_inv_def graph_inv_retained)
  from changes_since_eq [OF this] assms(2) show ?thesis
    by (auto simp: next_batch_def shared_changes_since_def shared_read_def split: recv.splits)
qed

lemma observed_caught_up:
  assumes "observed parse sg0 sg s got" and "run_inv parse (sg_inner sg0)"
  shows "(\<exists>h. caught_up parse (sg_inner sg0) h s got \<and> (graph_step parse)\<^sup>*\<^sup>* h (sg_inner sg)) \<and>
    (\<exists>sent. sg_tx sg = sg_tx sg0 @ sent \<and> announced (version (sg_inner sg0)) sent (version (sg_inner sg)))"
  using assms(1)
proof (induction rule: observed.induct)
  case obs_start
  have "caught_up parse (sg_inner sg0) (sg_inner sg0) (subscriber_new sg0) []"
    using assms(2) by (simp add: caught_up_def subscriber_new_def shared_read_def)
  then show ?case by (auto simp: announced_def)
next
  case (obs_step sg s got sg')
  then obtain h sent where h: "caught_up parse (sg_inner sg0) h s got" "(graph_step parse)\<^sup>*\<^sup>* h (sg_inner sg)"
      and sent: "sg_tx sg = sg_tx sg0 @ sent" "announced (version (sg_inner sg0)) sent (version (sg_inner sg))"
    by blast
  have "run_inv parse (sg_inner sg)" using replay_steps [OF h(2)] h(1) by (simp add: caught_up_def)
  from shared_step_announces [OF obs_step(2) this sent(2,1)] shared_step_inner [OF obs_step(2)] h
  show ?case by (meson rtranclp_trans)
next
  case (obs_batch sg s got r diffs s')
  then obtain h where h: "caught_up parse (sg_inner sg0) h s got" "(graph_step parse)\<^sup>*\<^sup>* h (sg_inner sg)" by blast
  show ?case
  proof (cases "r = RecvClosed")
    case True
    with obs_batch show ?thesis by (auto simp: next_batch_def)
  next
    case False
    from next_batch_catches_up [OF h obs_batch(2) False] obs_batch(3) show ?thesis by blast
  qed
qed

end
