(* ===== verification/Filter_Parser.thy ===== *)
theory Filter_Parser
  imports Filter_Eval "HOL-Library.Sublist"
begin

text \<open>
  The filter parser: \<open>filter/parser.rs\<close>.

  A recursive descent over the bytes of the expression.  The parser asks three things of its
  surroundings, the fields of \<open>parser_env\<close>: the caller's checkpoint (its answer to the n-th
  call), whether the text at a position starts with a non-ASCII alphanumeric character, and the
  Zinc scalar reader, which returns a value and how many bytes it read.  All other characters the
  parser looks at are ASCII, so bytes and characters agree on them and positions stay on
  character boundaries.

  The productions call each other through parentheses and loop over \<open>or\<close> and \<open>and\<close>; they run on
  fuel, \<open>None\<close> is running out of it.  \<open>parse_filter_controlled_ends\<close> shows that three units per byte are enough:
  every cycle of calls reads a byte.
\<close>

section \<open>Errors, limits and state\<close>

datatype filter_error =
    ParseError (err_pos: nat) (err_message: string)
  | FilterLimit
  | Interrupted

record filter_limits =
  fl_max_bytes :: nat
  fl_max_nodes :: nat
  fl_max_depth :: nat

record parser_env =
  pe_check :: "nat \<Rightarrow> filter_error option"
  pe_alphanumeric :: "string \<Rightarrow> bool"
  pe_zinc :: "string \<Rightarrow> string + (kind \<times> nat)"

record fparser =
  fp_src :: string
  fp_pos :: nat
  fp_depth :: nat
  fp_nodes :: nat
  fp_limits :: filter_limits
  fp_calls :: nat

datatype parsed_node = ParsedNode (pn_ast: filter_node) (pn_depth: nat)

definition MAX_DEPTH :: nat where
  "MAX_DEPTH = 100"

section \<open>Reading characters\<close>

definition rest :: "fparser \<Rightarrow> string" where
  "rest p = drop (fp_pos p) (fp_src p)"

definition advance :: "nat \<Rightarrow> fparser \<Rightarrow> fparser" where
  "advance n p = p\<lparr>fp_pos := fp_pos p + n\<rparr>"

definition at_end :: "fparser \<Rightarrow> bool" where
  "at_end p \<longleftrightarrow> length (fp_src p) \<le> fp_pos p"

definition peek :: "fparser \<Rightarrow> char option" where
  "peek p = (case rest p of [] \<Rightarrow> None | c # _ \<Rightarrow> Some c)"

definition is_space :: "char \<Rightarrow> bool" where
  "is_space c \<longleftrightarrow> c = CHR 0x20 \<or> c = CHR 0x09"

definition skip_spaces :: "fparser \<Rightarrow> fparser" where
  "skip_spaces p = advance (length (takeWhile is_space (rest p))) p"

definition perr :: "string \<Rightarrow> fparser \<Rightarrow> filter_error" where
  "perr msg p = ParseError (fp_pos p) msg"

definition is_alpha :: "char \<Rightarrow> bool" where
  "is_alpha c \<longleftrightarrow>
     (let n = of_char c :: nat in 65 \<le> n \<and> n \<le> 90 \<or> 97 \<le> n \<and> n \<le> 122)"

definition is_digit :: "char \<Rightarrow> bool" where
  "is_digit c \<longleftrightarrow> (let n = of_char c :: nat in 48 \<le> n \<and> n \<le> 57)"

definition is_ascii :: "char \<Rightarrow> bool" where
  "is_ascii c \<longleftrightarrow> (of_char c :: nat) < 128"

definition is_name_char :: "char \<Rightarrow> bool" where
  "is_name_char c \<longleftrightarrow> is_alpha c \<or> is_digit c \<or> c = CHR 0x5F"

definition word_boundary :: "parser_env \<Rightarrow> string \<Rightarrow> bool" where
  "word_boundary v after =
     (case after of
        [] \<Rightarrow> True
      | c # _ \<Rightarrow> if is_ascii c then \<not> is_name_char c else \<not> pe_alphanumeric v after)"

definition at_keyword :: "parser_env \<Rightarrow> string \<Rightarrow> fparser \<Rightarrow> bool" where
  "at_keyword v kw p \<longleftrightarrow> prefix kw (rest p) \<and> word_boundary v (drop (length kw) (rest p))"

definition consume_keyword :: "parser_env \<Rightarrow> string \<Rightarrow> fparser \<Rightarrow> bool \<times> fparser" where
  "consume_keyword v kw p = (if at_keyword v kw p then (True, advance (length kw) p) else (False, p))"

definition read_name :: "fparser \<Rightarrow> (string \<times> fparser) option" where
  "read_name p =
     (case rest p of
        [] \<Rightarrow> None
      | c # cs \<Rightarrow>
          if is_alpha c
          then (let n = c # takeWhile is_name_char cs in Some (n, advance (length n) p))
          else None)"

definition try_consume_str :: "string \<Rightarrow> fparser \<Rightarrow> bool \<times> fparser" where
  "try_consume_str s p = (if prefix s (rest p) then (True, advance (length s) p) else (False, p))"

text \<open>The hyphenated parts of a spec name: a hyphen is taken only when a letter follows it.\<close>

function spec_tail :: "string \<Rightarrow> string" where
  "spec_tail s =
     (case s of
        h # c # cs \<Rightarrow>
          if h = CHR 0x2D \<and> is_alpha c
          then h # c # takeWhile is_name_char cs @ spec_tail (dropWhile is_name_char cs)
          else []
      | _ \<Rightarrow> [])"
  by pat_completeness auto
termination
  by (relation "measure length") (auto simp: less_Suc_eq_le length_dropWhile_le intro: le_SucI)

definition read_spec_type_name :: "fparser \<Rightarrow> (string \<times> fparser) option" where
  "read_spec_type_name p =
     Option.bind (read_name p) (\<lambda>(n, p).
       let t = spec_tail (rest p) in Some (n @ t, advance (length t) p))"

lemma rest_advance [simp]: "rest (advance n p) = drop n (rest p)"
  by (simp add: rest_def advance_def add.commute)

lemma read_name_rest: "read_name p = Some (n, p') \<Longrightarrow> length (rest p') < length (rest p)"
  by (auto simp: read_name_def Let_def split: list.splits if_splits)

lemma try_consume_rest: "try_consume_str s p = (True, p') \<Longrightarrow> length (rest p') \<le> length (rest p) - length s"
  by (auto simp: try_consume_str_def split: if_splits)

function read_segments :: "fparser \<Rightarrow> string list \<Rightarrow> filter_error + (string list \<times> fparser)" where
  "read_segments p segments =
     (case try_consume_str ''->'' p of
        (True, p1) \<Rightarrow>
          (case read_name p1 of
             None \<Rightarrow> Inl (perr (''expected tag name after '' @ [CHR 0x27] @ ''->'' @ [CHR 0x27]) p1)
           | Some (seg, p2) \<Rightarrow> read_segments p2 (segments @ [seg]))
      | (False, p1) \<Rightarrow> Inr (segments, p1))"
  by pat_completeness auto
termination
  by (relation "measure (\<lambda>(p, _). length (rest p))")
    (auto dest!: read_name_rest try_consume_rest [OF sym])

definition read_path :: "fparser \<Rightarrow> filter_error + (path \<times> fparser)" where
  "read_path p =
     (case read_name p of
        None \<Rightarrow> Inl (perr ''expected tag name'' p)
      | Some (first, p) \<Rightarrow> map_sum (\<lambda>e. e) (map_prod Path (\<lambda>p. p)) (read_segments p [first]))"

definition read_cmp_op :: "fparser \<Rightarrow> cmp_op option \<times> fparser" where
  "read_cmp_op p =
     (let p = skip_spaces p in
      if fst (try_consume_str ''=='' p) then (Some OpEq, snd (try_consume_str ''=='' p))
      else if fst (try_consume_str ''!='' p) then (Some OpNe, snd (try_consume_str ''!='' p))
      else if fst (try_consume_str ''<='' p) then (Some OpLe, snd (try_consume_str ''<='' p))
      else if fst (try_consume_str ''>='' p) then (Some OpGe, snd (try_consume_str ''>='' p))
      else if fst (try_consume_str ''<'' p) then (Some OpLt, snd (try_consume_str ''<'' p))
      else if fst (try_consume_str ''>'' p) then (Some OpGt, snd (try_consume_str ''>'' p))
      else (None, p))"

section \<open>Checkpoints and limits\<close>

definition checkpoint :: "parser_env \<Rightarrow> fparser \<Rightarrow> filter_error + fparser" where
  "checkpoint v p =
     (case pe_check v (fp_calls p) of
        Some e \<Rightarrow> Inl e
      | None \<Rightarrow> Inr (p\<lparr>fp_calls := fp_calls p + 1\<rparr>))"

definition pbind :: "filter_error + 'a \<Rightarrow> ('a \<Rightarrow> filter_error + 'b) \<Rightarrow> filter_error + 'b" where
  "pbind r f = (case r of Inl e \<Rightarrow> Inl e | Inr a \<Rightarrow> f a)"

definition reserve_node :: "parser_env \<Rightarrow> nat \<Rightarrow> fparser \<Rightarrow> filter_error + fparser" where
  "reserve_node v depth p =
     pbind (checkpoint v p) (\<lambda>p.
     if fl_max_nodes (fp_limits p) \<le> fp_nodes p \<or> fl_max_depth (fp_limits p) < depth
     then Inl FilterLimit else Inr (p\<lparr>fp_nodes := fp_nodes p + 1\<rparr>))"

definition enter_depth :: "parser_env \<Rightarrow> fparser \<Rightarrow> filter_error + fparser" where
  "enter_depth v p =
     pbind (checkpoint v p) (\<lambda>p.
     let p = p\<lparr>fp_depth := fp_depth p + 1\<rparr> in
     if MAX_DEPTH < fp_depth p
     then Inl (perr ''filter expression exceeds maximum nesting depth'' p) else Inr p)"

definition exit_depth :: "fparser \<Rightarrow> fparser" where
  "exit_depth p = p\<lparr>fp_depth := fp_depth p - 1\<rparr>"

definition read_val :: "parser_env \<Rightarrow> fparser \<Rightarrow> filter_error + (kind \<times> fparser)" where
  "read_val v p =
     pbind (checkpoint v p) (\<lambda>p.
     let p = skip_spaces p in
     case pe_zinc v (rest p) of
       Inl e \<Rightarrow> Inl (ParseError (fp_pos p) (''invalid value: '' @ e))
     | Inr (val, n) \<Rightarrow> pbind (checkpoint v (advance n p)) (\<lambda>p. Inr (val, p)))"

section \<open>Terms\<close>

definition read_spec :: "string \<Rightarrow> fparser \<Rightarrow> filter_error + (parsed_node \<times> fparser)" where
  "read_spec name p =
     (case read_spec_type_name p of
        Some (tname, p) \<Rightarrow> Inr (ParsedNode (SpecMatch (name @ ''::'' @ tname)) 1, p)
      | None \<Rightarrow> Inl (perr (''expected type name after '' @ [CHR 0x27] @ ''::'' @ [CHR 0x27]) p))"

text \<open>The loop over a dotted name: either it ends in a spec match, or it gives the name it read and
  where it stopped.\<close>

function read_dotted ::
  "string \<Rightarrow> fparser \<Rightarrow> filter_error + ((parsed_node \<times> fparser) + (string \<times> fparser))" where
  "read_dotted full_name p =
     (if peek p = Some (CHR 0x2E) then
        (case read_name (advance 1 p) of
           None \<Rightarrow> Inr (Inr (full_name, p))
         | Some (seg, p1) \<Rightarrow>
             (let full_name = full_name @ ''.'' @ seg in
              case try_consume_str ''::'' p1 of
                (True, p2) \<Rightarrow> map_sum (\<lambda>e. e) Inl (read_spec full_name p2)
              | (False, _) \<Rightarrow> read_dotted full_name p1))
      else Inr (Inr (full_name, p)))"
  by pat_completeness auto
termination
  by (relation "measure (\<lambda>(_, p). length (rest p))")
    (auto dest!: read_name_rest simp: peek_def split: list.splits)

definition read_comparison :: "parser_env \<Rightarrow> string \<Rightarrow> fparser \<Rightarrow> filter_error + (parsed_node \<times> fparser)" where
  "read_comparison v first_name p =
     pbind (read_segments p [first_name]) (\<lambda>(segments, p).
     case read_cmp_op p of
       (Some op, p1) \<Rightarrow> pbind (read_val v p1) (\<lambda>(val, p2). Inr (ParsedNode (Cmp (Path segments) op val) 1, p2))
     | (None, _) \<Rightarrow> Inr (ParsedNode (Has (Path segments)) 1, p))"

definition read_simple_term :: "parser_env \<Rightarrow> fparser \<Rightarrow> filter_error + (parsed_node \<times> fparser)" where
  "read_simple_term v p =
     pbind (reserve_node v 1 p) (\<lambda>p.
     if at_keyword v ''not'' p then
       pbind (read_path (skip_spaces (advance 3 p))) (\<lambda>(path, p). Inr (ParsedNode (Missing path) 1, p))
     else
       (case read_name p of
          None \<Rightarrow> Inl (perr (''expected tag name, '' @ [CHR 0x27] @ ''not'' @ [CHR 0x27] @ '', or '' @
            [CHR 0x27] @ ''('' @ [CHR 0x27]) p)
        | Some (first_name, p1) \<Rightarrow>
            (case try_consume_str ''::'' p1 of
               (True, p2) \<Rightarrow> read_spec first_name p2
             | (False, _) \<Rightarrow>
                 pbind (read_dotted first_name p1) (\<lambda>r.
                 case r of
                   Inl spec \<Rightarrow> Inr spec
                 | Inr (full_name, p2) \<Rightarrow>
                     read_comparison v first_name
                       (if CHR 0x2E \<in> set full_name then p2\<lparr>fp_pos := fp_pos p + length first_name\<rparr>
                        else p2)))))"

section \<open>Productions\<close>

definition obind ::
  "(filter_error + 'a) option \<Rightarrow> ('a \<Rightarrow> (filter_error + 'b) option) \<Rightarrow> (filter_error + 'b) option" where
  "obind r f =
     (case r of None \<Rightarrow> None | Some (Inl e) \<Rightarrow> Some (Inl e) | Some (Inr a) \<Rightarrow> f a)"

fun parse_cond_or :: "nat \<Rightarrow> parser_env \<Rightarrow> fparser \<Rightarrow> (filter_error + (parsed_node \<times> fparser)) option"
  and or_rest :: "nat \<Rightarrow> parser_env \<Rightarrow> parsed_node \<Rightarrow> fparser \<Rightarrow> (filter_error + (parsed_node \<times> fparser)) option"
  and parse_cond_and :: "nat \<Rightarrow> parser_env \<Rightarrow> fparser \<Rightarrow> (filter_error + (parsed_node \<times> fparser)) option"
  and and_rest :: "nat \<Rightarrow> parser_env \<Rightarrow> parsed_node \<Rightarrow> fparser \<Rightarrow> (filter_error + (parsed_node \<times> fparser)) option"
  and parse_term :: "nat \<Rightarrow> parser_env \<Rightarrow> fparser \<Rightarrow> (filter_error + (parsed_node \<times> fparser)) option" where
  "parse_cond_or 0 v p = None"
| "parse_cond_or (Suc n) v p =
     obind (Some (enter_depth v p)) (\<lambda>p.
     obind (parse_cond_and n v p) (\<lambda>(left, p). or_rest n v left p))"
| "or_rest 0 v left p = None"
| "or_rest (Suc n) v left p =
     (case consume_keyword v ''or'' (skip_spaces p) of
        (True, p) \<Rightarrow>
          obind (parse_cond_and n v (skip_spaces p)) (\<lambda>(right, p).
          let depth = 1 + max (pn_depth left) (pn_depth right) in
          obind (Some (reserve_node v depth p)) (\<lambda>p.
          or_rest n v (ParsedNode (Or (pn_ast left) (pn_ast right)) depth) p))
      | (False, p) \<Rightarrow> Some (Inr (left, exit_depth p)))"
| "parse_cond_and 0 v p = None"
| "parse_cond_and (Suc n) v p =
     obind (Some (enter_depth v p)) (\<lambda>p.
     obind (parse_term n v p) (\<lambda>(left, p). and_rest n v left p))"
| "and_rest 0 v left p = None"
| "and_rest (Suc n) v left p =
     (case consume_keyword v ''and'' (skip_spaces p) of
        (True, p) \<Rightarrow>
          obind (parse_term n v (skip_spaces p)) (\<lambda>(right, p).
          let depth = 1 + max (pn_depth left) (pn_depth right) in
          obind (Some (reserve_node v depth p)) (\<lambda>p.
          and_rest n v (ParsedNode (And (pn_ast left) (pn_ast right)) depth) p))
      | (False, p) \<Rightarrow> Some (Inr (left, exit_depth p)))"
| "parse_term 0 v p = None"
| "parse_term (Suc n) v p =
     (let p = skip_spaces p in
      if peek p = Some (CHR 0x28) then
        obind (parse_cond_or n v (skip_spaces (advance 1 p))) (\<lambda>(inner, p).
        let p = skip_spaces p in
        if peek p = Some (CHR 0x29) then Some (Inr (inner, advance 1 p))
        else Some (Inl (perr (''expected closing '' @ [CHR 0x27] @ '')'' @ [CHR 0x27]) p)))
      else Some (read_simple_term v p))"

definition parse_fuel :: "string \<Rightarrow> nat" where
  "parse_fuel expr = 3 * length expr + 3"

definition parse_filter_controlled ::
  "parser_env \<Rightarrow> string \<Rightarrow> filter_limits \<Rightarrow> (filter_error + filter_node) option" where
  "parse_filter_controlled v expr limits =
     obind (Some (checkpoint v
       \<lparr>fp_src = expr, fp_pos = 0, fp_depth = 0, fp_nodes = 0, fp_limits = limits, fp_calls = 0\<rparr>)) (\<lambda>p.
     if fl_max_bytes limits < length expr \<or> fl_max_nodes limits = 0 \<or> fl_max_depth limits = 0
     then Some (Inl FilterLimit)
     else
       let p = skip_spaces p in
       if at_end p then Some (Inl (perr ''empty filter expression'' p))
       else
         obind (parse_cond_or (parse_fuel expr) v p) (\<lambda>(node, p).
         obind (Some (checkpoint v (skip_spaces p))) (\<lambda>p.
         if \<not> at_end p then Some (Inl (perr ''unexpected trailing input'' p))
         else Some (Inr (pn_ast node)))))"

definition parse_filter :: "parser_env \<Rightarrow> string \<Rightarrow> (filter_error + filter_node) option" where
  "parse_filter v expr =
     parse_filter_controlled (v\<lparr>pe_check := \<lambda>_. None\<rparr>) expr
       \<lparr>fl_max_bytes = USIZE_MAX, fl_max_nodes = USIZE_MAX, fl_max_depth = USIZE_MAX\<rparr>"

section \<open>What the readers keep\<close>

text \<open>Reading moves forward in the same text under the same limits and at the same depth.\<close>

definition moves :: "fparser \<Rightarrow> fparser \<Rightarrow> bool" where
  "moves p p' \<longleftrightarrow>
     fp_src p' = fp_src p \<and> fp_limits p' = fp_limits p \<and> fp_depth p' = fp_depth p \<and>
     fp_pos p \<le> fp_pos p'"

definition reads :: "fparser \<Rightarrow> fparser \<Rightarrow> bool" where
  "reads p p' \<longleftrightarrow> moves p p' \<and> fp_nodes p' = fp_nodes p"

lemma moves_refl [simp]: "moves p p" "reads p p"
  by (simp_all add: moves_def reads_def)

lemma moves_trans: "moves p q \<Longrightarrow> moves q r \<Longrightarrow> moves p r"
  by (simp add: moves_def)

lemma reads_trans: "reads p q \<Longrightarrow> reads q r \<Longrightarrow> reads p r"
  by (simp add: moves_def reads_def)

lemma moves_rest: "moves p p' \<Longrightarrow> length (rest p') \<le> length (rest p)"
  by (simp add: moves_def rest_def diff_le_mono2)

lemma reads_advance [simp]: "reads p (advance n p)"
  by (simp add: reads_def moves_def advance_def)

lemma reads_skip [simp]: "reads p (skip_spaces p)"
  by (simp add: skip_spaces_def)

lemma pbind_Inr: "pbind r f = Inr b \<longleftrightarrow> (\<exists>a. r = Inr a \<and> f a = Inr b)"
  by (cases r) (auto simp: pbind_def)

lemma obind_Inr: "obind r f = Some (Inr b) \<longleftrightarrow> (\<exists>a. r = Some (Inr a) \<and> f a = Some (Inr b))"
  by (cases r) (auto simp: obind_def split: sum.splits)

lemma checkpoint_reads: "checkpoint v p = Inr p' \<Longrightarrow> reads p p'"
  by (auto simp: checkpoint_def reads_def moves_def split: option.splits)

lemma reserve_node_ok:
  "reserve_node v depth p = Inr p' \<Longrightarrow>
   moves p p' \<and> fp_nodes p' = Suc (fp_nodes p) \<and> fp_nodes p < fl_max_nodes (fp_limits p) \<and>
   depth \<le> fl_max_depth (fp_limits p)"
  by (auto simp: reserve_node_def pbind_Inr reads_def moves_def dest!: checkpoint_reads split: if_splits)

fun valid_name :: "string \<Rightarrow> bool" where
  "valid_name [] = False"
| "valid_name (c # cs) = (is_alpha c \<and> list_all is_name_char cs)"

lemma read_name_ok: "read_name p = Some (n, p') \<Longrightarrow> valid_name n \<and> reads p p'"
  by (auto simp: read_name_def Let_def list_all_iff dest: set_takeWhileD split: list.splits if_splits)

lemma try_consume_reads: "reads p (snd (try_consume_str s p))" "try_consume_str s p = (b, p') \<Longrightarrow> reads p p'"
  by (auto simp: try_consume_str_def split: if_splits)

declare read_segments.simps [simp del] read_dotted.simps [simp del] spec_tail.simps [simp del]

lemma read_segments_ok:
  "read_segments p segs = Inr (segs', p') \<Longrightarrow> list_all valid_name segs \<Longrightarrow> segs \<noteq> [] \<Longrightarrow>
   list_all valid_name segs' \<and> segs' \<noteq> [] \<and> reads p p'"
proof (induction "length (rest p)" arbitrary: p segs rule: less_induct)
  case less
  obtain b p1 where t: "try_consume_str ''->'' p = (b, p1)" by force
  note r1 = try_consume_reads(2) [OF t]
  show ?case
  proof (cases b)
    case False
    with less.prems t r1 show ?thesis by (simp add: read_segments.simps [of p])
  next
    case True
    then obtain seg p2 where n: "read_name p1 = Some (seg, p2)"
        and rec: "read_segments p2 (segs @ [seg]) = Inr (segs', p')"
      using less.prems(1) t by (auto simp: read_segments.simps [of p] split: option.splits)
    have "length (rest p2) < length (rest p)"
      using read_name_rest [OF n] try_consume_rest [of "''->''" p p1] t True by simp
    from less.hyps [OF this rec] read_name_ok [OF n] r1 less.prems(2) show ?thesis
      by (auto intro: reads_trans)
  qed
qed

lemma read_path_ok:
  assumes "read_path p = Inr (Path segs, p')"
  shows "list_all valid_name segs \<and> segs \<noteq> [] \<and> reads p p'"
proof -
  from assms obtain first p1 where n: "read_name p = Some (first, p1)" "read_segments p1 [first] = Inr (segs, p')"
    by (auto simp: read_path_def map_sum_Inr split: option.splits)
  from read_name_ok [OF n(1)] read_segments_ok [OF n(2)] show ?thesis by (auto intro: reads_trans)
qed

lemma read_cmp_op_reads: "read_cmp_op p = (x, p') \<Longrightarrow> reads p p'"
  using reads_trans [OF reads_skip try_consume_reads(1)]
  by (auto simp: read_cmp_op_def Let_def split: if_splits)

lemma read_val_reads:
  assumes "read_val v p = Inr (k, p')"
  shows "reads p p'"
proof -
  from assms obtain p1 where p1: "checkpoint v p = Inr p1" by (auto simp: read_val_def pbind_Inr)
  with assms obtain n where c: "checkpoint v p = Inr p1" "checkpoint v (advance n (skip_spaces p1)) = Inr p'"
    by (cases "pe_zinc v (rest (skip_spaces p1))") (auto simp: read_val_def pbind_def Let_def split: sum.splits)
  have "reads p1 (advance n (skip_spaces p1))" using reads_trans [OF reads_skip reads_advance] .
  with c checkpoint_reads show ?thesis by (blast intro: reads_trans)
qed

fun filter_size :: "filter_node \<Rightarrow> nat" where
  "filter_size (And l r) = Suc (filter_size l + filter_size r)"
| "filter_size (Or l r) = Suc (filter_size l + filter_size r)"
| "filter_size _ = 1"

fun filter_depth :: "filter_node \<Rightarrow> nat" where
  "filter_depth (And l r) = Suc (max (filter_depth l) (filter_depth r))"
| "filter_depth (Or l r) = Suc (max (filter_depth l) (filter_depth r))"
| "filter_depth _ = 1"

fun path_names :: "path \<Rightarrow> bool" where
  "path_names (Path segs) \<longleftrightarrow> segs \<noteq> [] \<and> list_all valid_name segs"

text \<open>A qualified spec name: parts joined by dots, a double colon, parts joined by hyphens.\<close>

fun dotted :: "string list \<Rightarrow> string" where
  "dotted [] = []"
| "dotted [n] = n"
| "dotted (n # ns) = n @ ''.'' @ dotted ns"

fun hyphened :: "string list \<Rightarrow> string" where
  "hyphened [] = []"
| "hyphened (n # ns) = ''-'' @ n @ hyphened ns"

definition spec_name :: "string \<Rightarrow> bool" where
  "spec_name s \<longleftrightarrow>
     (\<exists>q t ts. q \<noteq> [] \<and> list_all valid_name (t # q @ ts) \<and> s = dotted q @ ''::'' @ t @ hyphened ts)"

fun filter_names :: "filter_node \<Rightarrow> bool" where
  "filter_names (Has p) = path_names p"
| "filter_names (Missing p) = path_names p"
| "filter_names (Cmp p _ _) = path_names p"
| "filter_names (And l r) = (filter_names l \<and> filter_names r)"
| "filter_names (Or l r) = (filter_names l \<and> filter_names r)"
| "filter_names (SpecMatch s) = spec_name s"

lemma spec_tail_ok: "\<exists>ts. spec_tail s = hyphened ts \<and> list_all valid_name ts"
proof (induction s rule: spec_tail.induct)
  case (1 s)
  show ?case
  proof (cases "\<exists>c cs. s = CHR 0x2D # c # cs \<and> is_alpha c")
    case False
    then have "spec_tail s = []" by (subst spec_tail.simps) (auto split: list.splits)
    then show ?thesis by (intro exI [of _ "[]"]) simp
  next
    case True
    then obtain c cs where s: "s = CHR 0x2D # c # cs" "is_alpha c" by blast
    obtain ts where ts: "spec_tail (dropWhile is_name_char cs) = hyphened ts" "list_all valid_name ts"
      using "1.IH" [OF s(1) refl] s(2) by auto
    have "spec_tail s = hyphened ((c # takeWhile is_name_char cs) # ts)"
      using s by (subst spec_tail.simps) (simp add: ts(1))
    moreover have "list_all valid_name ((c # takeWhile is_name_char cs) # ts)"
      using s(2) ts(2) by (auto simp: list_all_iff dest: set_takeWhileD)
    ultimately show ?thesis by blast
  qed
qed

lemma read_spec_ok:
  assumes "read_spec (dotted q) p = Inr (x, p')" and "q \<noteq> []" and "list_all valid_name q"
  shows "\<exists>s. x = ParsedNode (SpecMatch s) 1 \<and> spec_name s \<and> reads p p'"
proof -
  from assms(1) obtain n p1 where n: "read_name p = Some (n, p1)" and
    x: "x = ParsedNode (SpecMatch (dotted q @ ''::'' @ n @ spec_tail (rest p1))) 1"
      "p' = advance (length (spec_tail (rest p1))) p1"
    by (auto simp: read_spec_def read_spec_type_name_def Let_def bind_eq_Some_conv split: option.splits)
  obtain ts where "spec_tail (rest p1) = hyphened ts" "list_all valid_name ts" using spec_tail_ok by blast
  then have "spec_name (dotted q @ ''::'' @ n @ spec_tail (rest p1))"
    using assms(2,3) read_name_ok [OF n] unfolding spec_name_def by fastforce
  moreover have "reads p p'" using read_name_ok [OF n] x(2) by (auto intro: reads_trans)
  ultimately show ?thesis using x(1) by blast
qed

lemma dotted_snoc: "q \<noteq> [] \<Longrightarrow> dotted (q @ [n]) = dotted q @ ''.'' @ n"
  by (induction q rule: dotted.induct) simp_all

text \<open>A simple node: one AST node with valid names.\<close>

definition simple_node :: "parsed_node \<Rightarrow> bool" where
  "simple_node x \<longleftrightarrow> filter_size (pn_ast x) = 1 \<and> filter_depth (pn_ast x) = 1 \<and> pn_depth x = 1 \<and>
     filter_names (pn_ast x)"

lemma read_dotted_ok:
  "read_dotted (dotted q) p = Inr r \<Longrightarrow> q \<noteq> [] \<Longrightarrow> list_all valid_name q \<Longrightarrow>
   (case r of Inl (x, p') \<Rightarrow> simple_node x \<and> reads p p' | Inr (_, p') \<Rightarrow> reads p p')"
proof (induction "length (rest p)" arbitrary: p q rule: less_induct)
  case less
  show ?case
  proof (cases "peek p = Some (CHR 0x2E)")
    case False
    with less.prems show ?thesis by (auto simp: read_dotted.simps [of _ p])
  next
    case True
    show ?thesis
    proof (cases "read_name (advance 1 p)")
      case None
      with less.prems True show ?thesis by (auto simp: read_dotted.simps [of _ p])
    next
      case (Some y)
      then obtain seg p1 where n: "read_name (advance 1 p) = Some (seg, p1)" by (cases y) auto
      have r1: "reads p p1" "valid_name seg"
        using read_name_ok [OF n] reads_trans [OF reads_advance, of 1 p p1] by auto
      obtain b p2 where t: "try_consume_str ''::'' p1 = (b, p2)" by force
      have qs: "dotted q @ ''.'' @ seg = dotted (q @ [seg])" "q @ [seg] \<noteq> []" "list_all valid_name (q @ [seg])"
        using less.prems r1(2) by (simp_all add: dotted_snoc)
      show ?thesis
      proof (cases b)
        case b: True
        then obtain x where x: "read_spec (dotted (q @ [seg])) p2 = Inr x" "r = Inl x"
          using less.prems(1) True n t qs(1) by (auto simp: read_dotted.simps [of _ p] Let_def map_sum_Inr)
        obtain nd p' where np: "x = (nd, p')" by force
        have "reads p p2" using r1(1) try_consume_reads(2) [OF t] reads_trans by blast
        with read_spec_ok [OF x(1) [unfolded np] qs(2,3)] x(2) np show ?thesis
          by (auto simp: simple_node_def intro: reads_trans)
      next
        case False
        have "length (rest p1) < length (rest p)" using read_name_rest [OF n] by simp
        moreover have "read_dotted (dotted (q @ [seg])) p1 = Inr r"
          using less.prems(1) True n t qs(1) False by (auto simp: read_dotted.simps [of _ p] Let_def)
        ultimately have "case r of Inl (x, p') \<Rightarrow> simple_node x \<and> reads p1 p' | Inr (_, p') \<Rightarrow> reads p1 p'"
          using less.hyps qs(2,3) by blast
        with r1(1) show ?thesis by (auto intro: reads_trans split: sum.splits prod.splits)
      qed
    qed
  qed
qed

lemma read_comparison_ok:
  assumes "read_comparison v n p = Inr (x, p')" and "valid_name n"
  shows "simple_node x \<and> reads p p'"
proof -
  from assms(1) obtain segs p1 where s: "read_segments p [n] = Inr (segs, p1)"
    by (auto simp: read_comparison_def pbind_Inr)
  note sg = read_segments_ok [OF s]
  obtain op p2 where o: "read_cmp_op p1 = (op, p2)" by force
  show ?thesis
  proof (cases op)
    case None
    with assms s o sg show ?thesis by (auto simp: read_comparison_def pbind_def simple_node_def)
  next
    case (Some c)
    with assms(1) s o obtain k where k: "read_val v p2 = Inr (k, p')" "x = ParsedNode (Cmp (Path segs) c k) 1"
      by (auto simp: read_comparison_def pbind_def split: sum.splits)
    have "reads p p'"
      using sg assms(2) read_cmp_op_reads [OF o] read_val_reads [OF k(1)] by (auto intro: reads_trans)
    with sg assms(2) k(2) show ?thesis by (simp add: simple_node_def)
  qed
qed

lemma read_simple_term_ok:
  assumes "read_simple_term v p = Inr (x, p')"
  shows "simple_node x \<and> moves p p' \<and> fp_nodes p' = Suc (fp_nodes p) \<and>
    fp_nodes p < fl_max_nodes (fp_limits p) \<and> 1 \<le> fl_max_depth (fp_limits p)"
proof -
  from assms obtain p1 where p1: "reserve_node v 1 p = Inr p1" by (auto simp: read_simple_term_def pbind_Inr)
  have "simple_node x \<and> reads p1 p'"
  proof (cases "at_keyword v ''not'' p1")
    case True
    with assms p1 obtain q where q: "read_path (skip_spaces (advance 3 p1)) = Inr (q, p')"
        "x = ParsedNode (Missing q) 1"
      by (auto simp: read_simple_term_def pbind_def split: sum.splits)
    obtain segs where "q = Path segs" by (cases q) auto
    with q read_path_ok [of "skip_spaces (advance 3 p1)" segs p'] reads_trans [OF reads_advance [of p1 3] reads_skip]
    show ?thesis by (auto simp: simple_node_def intro: reads_trans)
  next
    case False
    with assms p1 obtain n p2 where n: "read_name p1 = Some (n, p2)"
      by (auto simp: read_simple_term_def pbind_def split: option.splits)
    note nm = read_name_ok [OF n]
    obtain b p3 where t: "try_consume_str ''::'' p2 = (b, p3)" by force
    show ?thesis
    proof (cases b)
      case True
      then have "read_spec (dotted [n]) p3 = Inr (x, p')"
        using assms p1 False n t by (simp add: read_simple_term_def pbind_def)
      from read_spec_ok [OF this] nm try_consume_reads(2) [OF t] show ?thesis
        by (auto simp: simple_node_def intro: reads_trans)
    next
      case b: False
      then obtain r where r: "read_dotted (dotted [n]) p2 = Inr r"
        using assms p1 False n t by (auto simp: read_simple_term_def pbind_def split: sum.splits)
      note rd = read_dotted_ok [OF r]
      show ?thesis
      proof (cases r)
        case (Inl y)
        with rd nm assms p1 False n t b r show ?thesis
          by (auto simp: read_simple_term_def pbind_def intro: reads_trans)
      next
        case (Inr y)
        then obtain full p4 where y: "r = Inr (full, p4)" by (cases y) auto
        define p5 where "p5 = (if CHR 0x2E \<in> set full then p4\<lparr>fp_pos := fp_pos p1 + length n\<rparr> else p4)"
        have "reads p1 p4" using rd nm y by (auto intro: reads_trans)
        then have p5: "reads p1 p5" by (simp add: p5_def reads_def moves_def)
        have "read_comparison v n p5 = Inr (x, p')"
          using assms p1 False n t b r y by (simp add: read_simple_term_def pbind_def p5_def)
        from read_comparison_ok [OF this] nm p5 show ?thesis by (auto intro: reads_trans)
      qed
    qed
  qed
  with reserve_node_ok [OF p1] show ?thesis by (auto simp: reads_def intro: moves_trans)
qed

section \<open>What the productions build\<close>

text \<open>A parsed node has valid names, its recorded depth is its depth, and both its size and its depth
  respect the limits.\<close>

definition node_ok :: "filter_limits \<Rightarrow> parsed_node \<Rightarrow> bool" where
  "node_ok lim x \<longleftrightarrow>
     filter_names (pn_ast x) \<and> pn_depth x = filter_depth (pn_ast x) \<and> pn_depth x \<le> fl_max_depth lim"

text \<open>Reading, with the depth counter left free: the productions count it up and down.\<close>

definition near :: "fparser \<Rightarrow> fparser \<Rightarrow> bool" where
  "near p p' \<longleftrightarrow>
     fp_src p' = fp_src p \<and> fp_limits p' = fp_limits p \<and> fp_pos p \<le> fp_pos p' \<and> fp_nodes p' = fp_nodes p"

text \<open>The state after a production that started with the AST nodes of its first \<open>n\<close> already counted.\<close>

definition built :: "fparser \<Rightarrow> nat \<Rightarrow> parsed_node \<Rightarrow> fparser \<Rightarrow> bool" where
  "built p n x p' \<longleftrightarrow>
     fp_src p' = fp_src p \<and> fp_limits p' = fp_limits p \<and> fp_pos p \<le> fp_pos p' \<and>
     node_ok (fp_limits p) x \<and> fp_nodes p' + n = fp_nodes p + filter_size (pn_ast x) \<and>
     fp_nodes p' \<le> fl_max_nodes (fp_limits p)"

lemma reads_near: "reads p p' \<Longrightarrow> near p p'"
  by (simp add: reads_def moves_def near_def)

lemma near_skip [simp]: "near p (skip_spaces p)"
  by (simp add: reads_near)

lemma near_trans: "near p q \<Longrightarrow> near q r \<Longrightarrow> near p r"
  by (simp add: near_def)

lemma near_built: "near p q \<Longrightarrow> built q n x p' \<Longrightarrow> built p n x p'"
  by (auto simp: near_def built_def)

lemma built_near: "built p n x q \<Longrightarrow> near q p' \<Longrightarrow> built p n x p'"
  by (auto simp: near_def built_def)

lemma built_trans: "built p 0 x q \<Longrightarrow> built q (filter_size (pn_ast x)) y r \<Longrightarrow> built p 0 y r"
  by (auto simp: built_def)

lemma built_rest: "built p n x p' \<Longrightarrow> length (rest p') \<le> length (rest p)"
  by (simp add: built_def rest_def diff_le_mono2)

lemma near_rest: "near p p' \<Longrightarrow> length (rest p') \<le> length (rest p)"
  by (simp add: near_def rest_def diff_le_mono2)

lemma enter_depth_near: "enter_depth v p = Inr p' \<Longrightarrow> near p p'"
  by (auto simp: enter_depth_def pbind_Inr Let_def checkpoint_def near_def split: option.splits if_splits)

lemma exit_depth_near: "near p (exit_depth p)"
  by (simp add: exit_depth_def near_def)

lemma consume_keyword_near: "consume_keyword v kw p = (b, p') \<Longrightarrow> near p p'"
  by (auto simp: consume_keyword_def near_def advance_def split: if_splits)

lemma consume_keyword_rest:
  "consume_keyword v kw p = (True, p') \<Longrightarrow> length kw \<le> length (rest p) \<and> length (rest p') = length (rest p) - length kw"
  by (auto simp: consume_keyword_def at_keyword_def dest: prefix_length_le split: if_splits)

lemma read_simple_term_built: "read_simple_term v p = Inr (x, p') \<Longrightarrow> built p 0 x p'"
  by (drule read_simple_term_ok) (auto simp: built_def node_ok_def simple_node_def moves_def)

text \<open>Joining two nodes reserves one node for the joint.\<close>

lemma built_join:
  assumes "near p q" "built q 0 right p1" "reserve_node v (1 + max (pn_depth left) (pn_depth right)) p1 = Inr p2"
    and "pn_ast j = And (pn_ast left) (pn_ast right) \<or> pn_ast j = Or (pn_ast left) (pn_ast right)"
    and "pn_depth j = 1 + max (pn_depth left) (pn_depth right)"
    and "built p2 (filter_size (pn_ast j)) x p'" "node_ok (fp_limits p) left"
  shows "built p (filter_size (pn_ast left)) x p'"
  using assms(1,2,4-7) reserve_node_ok [OF assms(3)] by (auto simp: near_def built_def moves_def)

lemma join_ok:
  assumes "near p q" "built q 0 right p1" "reserve_node v (1 + max (pn_depth left) (pn_depth right)) p1 = Inr p2"
    and "pn_ast j = And (pn_ast left) (pn_ast right) \<or> pn_ast j = Or (pn_ast left) (pn_ast right)"
    and "pn_depth j = 1 + max (pn_depth left) (pn_depth right)" "node_ok (fp_limits p) left"
  shows "node_ok (fp_limits p2) j \<and> fp_nodes p2 \<le> fl_max_nodes (fp_limits p2)"
  using assms(1,2,4-6) reserve_node_ok [OF assms(3)]
  by (auto simp: near_def built_def moves_def node_ok_def)

definition prod_ok :: "(fparser \<Rightarrow> (filter_error + (parsed_node \<times> fparser)) option) \<Rightarrow> bool" where
  "prod_ok f \<longleftrightarrow> (\<forall>p x p'. f p = Some (Inr (x, p')) \<longrightarrow> built p 0 x p')"

definition loop_ok :: "(parsed_node \<Rightarrow> fparser \<Rightarrow> (filter_error + (parsed_node \<times> fparser)) option) \<Rightarrow> bool" where
  "loop_ok f \<longleftrightarrow>
     (\<forall>l p x p'. f l p = Some (Inr (x, p')) \<longrightarrow> node_ok (fp_limits p) l \<longrightarrow>
        fp_nodes p \<le> fl_max_nodes (fp_limits p) \<longrightarrow> built p (filter_size (pn_ast l)) x p')"

lemma loop_step:
  assumes "prod_ok f" "loop_ok g"
    and "\<And>l r. pn_ast (j l r) = And (pn_ast l) (pn_ast r) \<or> pn_ast (j l r) = Or (pn_ast l) (pn_ast r)"
    and "\<And>l r. pn_depth (j l r) = 1 + max (pn_depth l) (pn_depth r)"
    and "\<And>l p. h l p =
      (case consume_keyword v kw (skip_spaces p) of
        (True, p) \<Rightarrow>
          obind (f (skip_spaces p)) (\<lambda>(right, p).
          obind (Some (reserve_node v (1 + max (pn_depth l) (pn_depth right)) p)) (\<lambda>p. g (j l right) p))
      | (False, p) \<Rightarrow> Some (Inr (l, exit_depth p)))"
  shows "loop_ok h"
proof -
  have "built p (filter_size (pn_ast l)) x p'"
    if h: "h l p = Some (Inr (x, p'))" and l: "node_ok (fp_limits p) l" "fp_nodes p \<le> fl_max_nodes (fp_limits p)"
    for l p x p'
  proof -
    obtain b q where c: "consume_keyword v kw (skip_spaces p) = (b, q)" by force
    have near: "near p q" using near_trans [OF near_skip consume_keyword_near [OF c]] .
    show ?thesis
    proof (cases b)
      case False
      with h c assms(5) have "x = l" "p' = exit_depth q" by simp_all
      moreover have "built p (filter_size (pn_ast l)) l p" using l by (simp add: built_def)
      ultimately show ?thesis using built_near near_trans [OF near exit_depth_near] by blast
    next
      case True
      with h c assms(5) obtain right p1 p2 where r: "f (skip_spaces q) = Some (Inr (right, p1))"
          "reserve_node v (1 + max (pn_depth l) (pn_depth right)) p1 = Inr p2"
          "g (j l right) p2 = Some (Inr (x, p'))"
        by (auto simp: obind_Inr split: prod.splits)
      have near': "near p (skip_spaces q)" using near_trans [OF near near_skip] .
      have right: "built (skip_spaces q) 0 right p1" using assms(1) r(1) by (simp add: prod_ok_def)
      have "built p2 (filter_size (pn_ast (j l right))) x p'"
        using assms(2) r(3) join_ok [OF near' right r(2) assms(3,4) l(1)] by (simp add: loop_ok_def)
      then show ?thesis using built_join [OF near' right r(2) assms(3,4)] l(1) by blast
    qed
  qed
  then show ?thesis by (simp add: loop_ok_def)
qed

lemma prod_step:
  assumes "prod_ok f" "loop_ok g"
    and "\<And>p. h p = obind (Some (enter_depth v p)) (\<lambda>p. obind (f p) (\<lambda>(left, p). g left p))"
  shows "prod_ok h"
proof -
  have "built p 0 x p'" if h: "h p = Some (Inr (x, p'))" for p x p'
  proof -
    obtain p1 l p2 where r: "enter_depth v p = Inr p1" "f p1 = Some (Inr (l, p2))" "g l p2 = Some (Inr (x, p'))"
      using h assms(3) by (auto simp: obind_Inr)
    have l: "built p1 0 l p2" using assms(1) r(2) by (simp add: prod_ok_def)
    then have "built p2 (filter_size (pn_ast l)) x p'"
      using assms(2) r(3) by (simp add: loop_ok_def built_def [of p1])
    with l have "built p1 0 x p'" by (rule built_trans)
    with enter_depth_near [OF r(1)] show ?thesis by (rule near_built)
  qed
  then show ?thesis by (simp add: prod_ok_def)
qed

lemma term_step:
  assumes "prod_ok (parse_cond_or n v)"
  shows "prod_ok (parse_term (Suc n) v)"
proof -
  have "built p 0 x p'" if h: "parse_term (Suc n) v p = Some (Inr (x, p'))" for p x p'
  proof (cases "peek (skip_spaces p) = Some (CHR 0x28)")
    case False
    with h have "read_simple_term v (skip_spaces p) = Inr (x, p')" by (simp add: Let_def)
    then show ?thesis using near_built [OF near_skip read_simple_term_built] by blast
  next
    case True
    with h obtain q where q: "parse_cond_or n v (skip_spaces (advance 1 (skip_spaces p))) = Some (Inr (x, q))"
        "p' = advance 1 (skip_spaces q)"
      by (auto simp: Let_def obind_Inr split: if_splits)
    have "near p (skip_spaces (advance 1 (skip_spaces p)))"
      by (blast intro: near_trans near_skip reads_near reads_advance)
    moreover have "near q p'" unfolding q(2) by (blast intro: near_trans near_skip reads_near reads_advance)
    moreover have "built (skip_spaces (advance 1 (skip_spaces p))) 0 x q"
      using assms q(1) by (simp add: prod_ok_def)
    ultimately show ?thesis by (blast intro: near_built built_near)
  qed
  then show ?thesis by (simp add: prod_ok_def)
qed

lemma productions_ok:
  "prod_ok (parse_cond_or n v) \<and> loop_ok (or_rest n v) \<and> prod_ok (parse_cond_and n v) \<and>
   loop_ok (and_rest n v) \<and> prod_ok (parse_term n v)"
proof (induction n)
  case 0
  show ?case by (simp add: prod_ok_def loop_ok_def)
next
  case (Suc n)
  then have ih: "prod_ok (parse_cond_or n v)" "loop_ok (or_rest n v)" "prod_ok (parse_cond_and n v)"
    "loop_ok (and_rest n v)" "prod_ok (parse_term n v)" by blast+
  have "loop_ok (or_rest (Suc n) v)"
    by (rule loop_step [OF ih(3,2), where v = v and kw = "''or''"
        and j = "\<lambda>l r. ParsedNode (Or (pn_ast l) (pn_ast r)) (1 + max (pn_depth l) (pn_depth r))"])
      (simp_all add: Let_def cong: prod.case_cong bool.case_cong)
  moreover have "loop_ok (and_rest (Suc n) v)"
    by (rule loop_step [OF ih(5,4), where v = v and kw = "''and''"
        and j = "\<lambda>l r. ParsedNode (And (pn_ast l) (pn_ast r)) (1 + max (pn_depth l) (pn_depth r))"])
      (simp_all add: Let_def cong: prod.case_cong bool.case_cong)
  moreover have "prod_ok (parse_cond_or (Suc n) v)" by (rule prod_step [OF ih(3,2)]) simp
  moreover have "prod_ok (parse_cond_and (Suc n) v)" by (rule prod_step [OF ih(5,4)]) simp
  moreover have "prod_ok (parse_term (Suc n) v)" by (rule term_step [OF ih(1)])
  ultimately show ?case by blast
qed

section \<open>Every parse ends\<close>

text \<open>Each production has enough fuel when it has three units for each byte it has left to read, and
  the level of the production.\<close>

lemma obind_None: "obind r f = None \<longleftrightarrow> r = None \<or> (\<exists>a. r = Some (Inr a) \<and> f a = None)"
  by (cases r) (auto simp: obind_def split: sum.splits)

definition enough :: "nat \<Rightarrow> nat \<Rightarrow> (fparser \<Rightarrow> (filter_error + (parsed_node \<times> fparser)) option) \<Rightarrow> bool" where
  "enough n k f \<longleftrightarrow> (\<forall>p. 3 * length (rest p) + k \<le> n \<longrightarrow> f p \<noteq> None)"

lemma enoughD: "enough n k f \<Longrightarrow> 3 * length (rest p) + k \<le> n \<Longrightarrow> f p \<noteq> None"
  by (simp add: enough_def)

lemma loop_enough:
  assumes f: "prod_ok f" "enough n k f" and g: "\<And>l. enough n k' (g l)" and kw: "2 \<le> length kw" "k \<le> k' + 5" "0 < k'"
    and h: "\<And>l p. h l p =
      (case consume_keyword v kw (skip_spaces p) of
        (True, p) \<Rightarrow>
          obind (f (skip_spaces p)) (\<lambda>(right, p).
          obind (Some (reserve_node v (1 + max (pn_depth l) (pn_depth right)) p)) (\<lambda>p. g (j l right) p))
      | (False, p) \<Rightarrow> Some (Inr (l, exit_depth p)))"
  shows "enough (Suc n) k' (h l)"
proof -
  have "h l p \<noteq> None" if fuel: "3 * length (rest p) + k' \<le> Suc n" for p
  proof
    assume none: "h l p = None"
    obtain b q where c: "consume_keyword v kw (skip_spaces p) = (b, q)" by force
    with none h have b: b by (auto split: if_splits bool.splits)
    have "length (rest q) + 2 \<le> length (rest p)"
      using consume_keyword_rest [of v kw "skip_spaces p" q] c b kw(1) near_rest [OF near_skip, of p] by auto
    then have q: "length (rest (skip_spaces q)) + 2 \<le> length (rest p)"
      using near_rest [OF near_skip, of q] by simp
    have "f (skip_spaces q) \<noteq> None" using q fuel kw(2) by (intro enoughD [OF f(2)]) simp
    with none h c b obtain right p1 p2 where r: "f (skip_spaces q) = Some (Inr (right, p1))"
        "reserve_node v (1 + max (pn_depth l) (pn_depth right)) p1 = Inr p2" "g (j l right) p2 = None"
      by (auto simp: obind_None split: prod.splits)
    have "built (skip_spaces q) 0 right p1" using f(1) r(1) by (simp add: prod_ok_def)
    then have "length (rest p2) + 2 \<le> length (rest p)"
      using built_rest moves_rest reserve_node_ok [OF r(2)] q by fastforce
    then have "g (j l right) p2 \<noteq> None" using fuel by (intro enoughD [OF g]) simp
    with r(3) show False by blast
  qed
  then show ?thesis by (simp add: enough_def)
qed

lemma prod_enough:
  assumes "prod_ok f" "enough n k f" "\<And>l. enough n k (g l)"
    and "\<And>p. h p = obind (Some (enter_depth v p)) (\<lambda>p. obind (f p) (\<lambda>(left, p). g left p))"
  shows "enough (Suc n) (Suc k) h"
proof -
  have "h p \<noteq> None" if fuel: "3 * length (rest p) + Suc k \<le> Suc n" for p
  proof
    assume none: "h p = None"
    then obtain p1 where p1: "enter_depth v p = Inr p1" "obind (f p1) (\<lambda>(left, p). g left p) = None"
      using assms(4) by (auto simp: obind_None)
    have m: "length (rest p1) \<le> length (rest p)" using near_rest [OF enter_depth_near [OF p1(1)]] .
    then have "f p1 \<noteq> None" using fuel by (intro enoughD [OF assms(2)]) simp
    with p1(2) obtain l p2 where r: "f p1 = Some (Inr (l, p2))" "g l p2 = None" by (auto simp: obind_None)
    have "length (rest p2) \<le> length (rest p1)" using assms(1) r(1) built_rest unfolding prod_ok_def by blast
    then have "g l p2 \<noteq> None" using m fuel by (intro enoughD [OF assms(3)]) simp
    with r(2) show False by blast
  qed
  then show ?thesis by (simp add: enough_def)
qed

lemma peek_rest: "peek p = Some c \<Longrightarrow> 0 < length (rest p)"
  by (auto simp: peek_def split: list.splits)

lemma term_enough:
  assumes "enough n 3 (parse_cond_or n v)"
  shows "enough (Suc n) 1 (parse_term (Suc n) v)"
proof -
  have "parse_term (Suc n) v p \<noteq> None" if fuel: "3 * length (rest p) + 1 \<le> Suc n" for p
  proof (cases "peek (skip_spaces p) = Some (CHR 0x28)")
    case True
    let ?q = "skip_spaces (advance 1 (skip_spaces p))"
    have "length (rest ?q) + 1 \<le> length (rest p)"
      using peek_rest [OF True] near_rest [OF near_skip, of p] near_rest [OF near_skip, of "advance 1 (skip_spaces p)"]
      unfolding rest_advance length_drop by linarith
    then have "parse_cond_or n v ?q \<noteq> None" using fuel by (intro enoughD [OF assms]) simp
    with True show ?thesis by (auto simp: Let_def obind_None)
  qed (simp add: Let_def)
  then show ?thesis by (simp add: enough_def)
qed

lemma productions_end:
  "enough n 3 (parse_cond_or n v) \<and> (\<forall>l. enough n 2 (or_rest n v l)) \<and> enough n 2 (parse_cond_and n v) \<and>
   (\<forall>l. enough n 1 (and_rest n v l)) \<and> enough n 1 (parse_term n v)"
proof (induction n)
  case 0
  show ?case by (simp add: enough_def)
next
  case (Suc n)
  then have ih: "enough n 3 (parse_cond_or n v)" "\<And>l. enough n 2 (or_rest n v l)" "enough n 2 (parse_cond_and n v)"
    "\<And>l. enough n 1 (and_rest n v l)" "enough n 1 (parse_term n v)" by blast+
  have ok: "prod_ok (parse_cond_and n v)" "prod_ok (parse_term n v)" using productions_ok by blast+
  have "enough (Suc n) 2 (or_rest (Suc n) v l)" for l
    by (rule loop_enough [OF ok(1) ih(3,2), where v = v and kw = "''or''"
        and j = "\<lambda>l r. ParsedNode (Or (pn_ast l) (pn_ast r)) (1 + max (pn_depth l) (pn_depth r))"])
      (simp_all add: Let_def cong: prod.case_cong bool.case_cong)
  moreover have "enough (Suc n) 1 (and_rest (Suc n) v l)" for l
    by (rule loop_enough [OF ok(2) ih(5,4), where v = v and kw = "''and''"
        and j = "\<lambda>l r. ParsedNode (And (pn_ast l) (pn_ast r)) (1 + max (pn_depth l) (pn_depth r))"])
      (simp_all add: Let_def cong: prod.case_cong bool.case_cong)
  moreover have "enough (Suc n) 3 (parse_cond_or (Suc n) v)"
    using prod_enough [OF ok(1) ih(3,2), of "parse_cond_or (Suc n) v" v] by (simp add: numeral_3_eq_3 numeral_2_eq_2)
  moreover have "enough (Suc n) 2 (parse_cond_and (Suc n) v)"
    using prod_enough [OF ok(2) ih(5,4), of "parse_cond_and (Suc n) v" v] by (simp add: numeral_2_eq_2)
  moreover have "enough (Suc n) 1 (parse_term (Suc n) v)" by (rule term_enough [OF ih(1)])
  ultimately show ?case by blast
qed

lemma parse_filter_controlled_ends: "parse_filter_controlled v expr limits \<noteq> None"
proof
  assume none: "parse_filter_controlled v expr limits = None"
  let ?p = "\<lparr>fp_src = expr, fp_pos = 0, fp_depth = 0, fp_nodes = 0, fp_limits = limits, fp_calls = 0\<rparr>"
  from none obtain p where p: "checkpoint v ?p = Inr p" "parse_cond_or (parse_fuel expr) v (skip_spaces p) = None"
    by (auto simp: parse_filter_controlled_def obind_None Let_def split: if_splits)
  have "length (rest (skip_spaces p)) \<le> length (rest ?p)"
    using near_rest [OF near_trans [OF reads_near [OF checkpoint_reads [OF p(1)]] near_skip]] .
  then have "3 * length (rest (skip_spaces p)) + 3 \<le> parse_fuel expr" by (simp add: rest_def parse_fuel_def)
  with p(2) productions_end show False by (blast dest: enoughD)
qed

lemma filter_names_wf: "filter_names f \<Longrightarrow> filter_wf f"
proof (induction f)
  case (Has p)
  then show ?case by (cases p) simp
next
  case (Missing p)
  then show ?case by (cases p) simp
next
  case (Cmp p op val)
  then show ?case by (cases p) simp
qed simp_all

lemma parse_filter_controlled_built:
  assumes "parse_filter_controlled v expr limits = Some (Inr ast)"
  shows "filter_names ast \<and> filter_size ast \<le> fl_max_nodes limits \<and> filter_depth ast \<le> fl_max_depth limits \<and>
    length expr \<le> fl_max_bytes limits"
proof -
  let ?p = "\<lparr>fp_src = expr, fp_pos = 0, fp_depth = 0, fp_nodes = 0, fp_limits = limits, fp_calls = 0\<rparr>"
  from assms obtain p node q where p: "checkpoint v ?p = Inr p" "length expr \<le> fl_max_bytes limits"
      "parse_cond_or (parse_fuel expr) v (skip_spaces p) = Some (Inr (node, q))" "ast = pn_ast node"
    by (auto simp: parse_filter_controlled_def obind_Inr Let_def split: if_splits)
  have "near ?p (skip_spaces p)" using near_trans [OF reads_near [OF checkpoint_reads [OF p(1)]] near_skip] .
  moreover have "built (skip_spaces p) 0 node q" using productions_ok p(3) by (simp add: prod_ok_def)
  ultimately have "built ?p 0 node q" by (rule near_built)
  with p(2,4) show ?thesis by (auto simp: built_def node_ok_def)
qed

end
