(* ===== verification/Filter_Print.thy ===== *)
theory Filter_Print
  imports Filter_Parser
begin

text \<open>
  The text of a filter and the parser that reads it back. \<open>show_filter\<close> writes a filter with the fewest
  parentheses the grammar allows: \<open>and\<close> binds tighter than \<open>or\<close>, both group to the left. The lemmas
  show that the parser of haystack-core/src/filter/parser.rs reads such a text as exactly the filter
  it was written from, whatever follows it in the text, so the grammar has no ambiguity and no filter
  that can be built is out of its reach.
\<close>

section \<open>The text\<close>

fun cmp_text :: "cmp_op \<Rightarrow> string" where
  "cmp_text OpEq = ''==''"
| "cmp_text OpNe = ''!=''"
| "cmp_text OpLt = ''<''"
| "cmp_text OpLe = ''<=''"
| "cmp_text OpGt = ''>''"
| "cmp_text OpGe = ''>=''"

definition arrows :: "string list \<Rightarrow> string" where
  "arrows segs = concat (map (\<lambda>s. ''->'' @ s) segs)"

fun show_path :: "path \<Rightarrow> string" where
  "show_path (Path []) = []"
| "show_path (Path (s # segs)) = s @ arrows segs"

definition paren :: "bool \<Rightarrow> string \<Rightarrow> string" where
  "paren b s = (if b then ''('' @ s @ '')'' else s)"

fun show_filter :: "(kind \<Rightarrow> string) \<Rightarrow> nat \<Rightarrow> filter_node \<Rightarrow> string" where
  "show_filter vt k (Has p) = show_path p"
| "show_filter vt k (Missing p) = ''not '' @ show_path p"
| "show_filter vt k (Cmp p op val) = show_path p @ '' '' @ cmp_text op @ '' '' @ vt val"
| "show_filter vt k (SpecMatch s) = s"
| "show_filter vt k (And l r) = paren (1 < k) (show_filter vt 1 l @ '' and '' @ show_filter vt 2 r)"
| "show_filter vt k (Or l r) = paren (0 < k) (show_filter vt 0 l @ '' or '' @ show_filter vt 1 r)"

text \<open>How far the depth counter rises above the level it starts at: two for each pair of parentheses.\<close>

fun nesting :: "nat \<Rightarrow> filter_node \<Rightarrow> nat" where
  "nesting k (And l r) = (if 1 < k then 2 else 0) + max (nesting 1 l) (nesting 2 r)"
| "nesting k (Or l r) = (if 0 < k then 2 else 0) + max (nesting 0 l) (nesting 1 r)"
| "nesting k _ = 0"

text \<open>What may follow a term, and what may follow a whole expression.\<close>

definition term_tail :: "string \<Rightarrow> bool" where
  "term_tail t \<longleftrightarrow> t = [] \<or> prefix '')'' t \<or> prefix '' and '' t \<or> prefix '' or '' t"

definition and_tail :: "string \<Rightarrow> bool" where
  "and_tail t \<longleftrightarrow> t = [] \<or> prefix '')'' t \<or> prefix '' or '' t"

definition or_tail :: "string \<Rightarrow> bool" where
  "or_tail t \<longleftrightarrow> t = [] \<or> prefix '')'' t"

text \<open>The texts the parser can give back: names that are names, no leading \<open>not\<close> where the keyword would
  be read, and literals that the literal reader reads back.\<close>

definition literal_ok :: "parser_env \<Rightarrow> (kind \<Rightarrow> string) \<Rightarrow> kind \<Rightarrow> bool" where
  "literal_ok v vt val \<longleftrightarrow>
     vt val \<noteq> [] \<and> \<not> is_space (hd (vt val)) \<and>
     (\<forall>t. term_tail t \<longrightarrow> pe_zinc v (vt val @ t) = Inr (val, length (vt val)))"

fun head_ok :: "path \<Rightarrow> bool" where
  "head_ok (Path segs) \<longleftrightarrow> segs \<noteq> [] \<and> hd segs \<noteq> ''not''"

fun showable :: "parser_env \<Rightarrow> (kind \<Rightarrow> string) \<Rightarrow> filter_node \<Rightarrow> bool" where
  "showable v vt (Has p) \<longleftrightarrow> path_names p \<and> head_ok p"
| "showable v vt (Missing p) \<longleftrightarrow> path_names p"
| "showable v vt (Cmp p op val) \<longleftrightarrow> path_names p \<and> head_ok p \<and> literal_ok v vt val"
| "showable v vt (SpecMatch s) \<longleftrightarrow>
     (\<exists>n q t ts. n \<noteq> ''not'' \<and> list_all valid_name (n # t # q @ ts) \<and>
        s = dotted (n # q) @ ''::'' @ t @ hyphened ts)"
| "showable v vt (And l r) \<longleftrightarrow> showable v vt l \<and> showable v vt r"
| "showable v vt (Or l r) \<longleftrightarrow> showable v vt l \<and> showable v vt r"

definition node_of :: "filter_node \<Rightarrow> parsed_node" where
  "node_of f = ParsedNode f (filter_depth f)"

section \<open>Names in a text\<close>

definition name_end :: "string \<Rightarrow> bool" where
  "name_end t \<longleftrightarrow> t = [] \<or> \<not> is_name_char (hd t)"

lemma name_chars [simp]:
  "\<not> is_name_char (CHR 0x20)" "\<not> is_name_char (CHR 0x29)" "\<not> is_name_char (CHR 0x2D)"
  "\<not> is_name_char (CHR 0x2E)" "\<not> is_name_char (CHR 0x3A)"
  by (simp_all add: is_name_char_def is_alpha_def is_digit_def Let_def)

lemma alpha_not [simp]: "is_alpha c \<Longrightarrow> \<not> is_space c" "is_alpha c \<Longrightarrow> c \<noteq> CHR 0x28" "is_alpha c \<Longrightarrow> is_name_char c"
  by (auto simp: is_alpha_def is_space_def is_name_char_def Let_def)

lemma name_char_ascii: "is_name_char c \<Longrightarrow> is_ascii c"
  by (auto simp: is_name_char_def is_ascii_def is_alpha_def is_digit_def Let_def)

lemma valid_name_all: "valid_name n \<Longrightarrow> n \<noteq> [] \<and> is_alpha (hd n) \<and> list_all is_name_char n"
  by (cases n) auto

lemma term_tail_end: "term_tail t \<Longrightarrow> name_end t"
  by (auto simp: term_tail_def name_end_def prefix_def)

lemma takeWhile_name:
  "list_all is_name_char n \<Longrightarrow> name_end t \<Longrightarrow> takeWhile is_name_char (n @ t) = n \<and> dropWhile is_name_char (n @ t) = t"
  by (induction n) (cases t; auto simp: name_end_def)+

lemma read_name_text:
  assumes "valid_name n" "name_end t" "rest p = n @ t"
  shows "read_name p = Some (n, advance (length n) p)"
proof (cases n)
  case Nil
  with assms(1) show ?thesis by simp
next
  case (Cons c cs)
  with assms takeWhile_name [of cs t] show ?thesis by (simp add: read_name_def Let_def)
qed

lemma skip_spaces_id: "rest p = [] \<or> \<not> is_space (hd (rest p)) \<Longrightarrow> skip_spaces p = p"
  by (cases "rest p") (auto simp: skip_spaces_def advance_def)

lemma rest_skip [simp]: "rest (skip_spaces p) = dropWhile is_space (rest p)"
  by (simp add: skip_spaces_def dropWhile_eq_drop)

lemma no_keyword:
  assumes "list_all is_name_char n" "name_end t" "list_all is_name_char kw" "n \<noteq> kw" "rest p = n @ t"
  shows "\<not> at_keyword v kw p"
proof
  assume "at_keyword v kw p"
  then have pre: "prefix kw (n @ t)" and wb: "word_boundary v (drop (length kw) (n @ t))"
    using assms(5) by (simp_all add: at_keyword_def)
  from pre consider "prefix kw n" | u where "kw = n @ u" "prefix u t" by (auto simp: prefix_append)
  then show False
  proof cases
    case 1
    then obtain c cs where n: "n = kw @ c # cs" using assms(4) by (metis append_Nil2 neq_Nil_conv prefix_def)
    with assms(1) wb show False by (simp add: word_boundary_def name_char_ascii)
  next
    case 2
    with assms(4) obtain c u' where "u = c # u'" by (cases u) auto
    with 2 assms(2,3) show False by (auto simp: name_end_def prefix_def)
  qed
qed

section \<open>Reading a term\<close>

text \<open>An environment that never stops the parser.\<close>

definition never_stops :: "parser_env \<Rightarrow> bool" where
  "never_stops v \<longleftrightarrow> pe_check v = (\<lambda>_. None)"

lemma checkpoint_clear: "never_stops v \<Longrightarrow> checkpoint v p = Inr (p\<lparr>fp_calls := fp_calls p + 1\<rparr>)"
  by (simp add: checkpoint_def never_stops_def)

lemma rest_fields [simp]:
  "rest (p\<lparr>fp_calls := c\<rparr>) = rest p" "rest (p\<lparr>fp_nodes := n\<rparr>) = rest p" "rest (p\<lparr>fp_depth := d\<rparr>) = rest p"
  by (simp_all add: rest_def)

text \<open>The parser is at \<open>t\<close>, with the limits and the depth of \<open>p\<close> and \<open>n\<close> more nodes counted.\<close>

definition arrives :: "fparser \<Rightarrow> nat \<Rightarrow> string \<Rightarrow> fparser \<Rightarrow> bool" where
  "arrives p n t p' \<longleftrightarrow>
     rest p' = t \<and> fp_limits p' = fp_limits p \<and> fp_depth p' = fp_depth p \<and> fp_nodes p' = fp_nodes p + n"

lemma arrives_advance: "rest p = s @ t \<Longrightarrow> arrives p 0 t (advance (length s) p)"
  by (simp add: arrives_def) (simp add: advance_def)

lemma arrives_trans: "arrives p m s q \<Longrightarrow> arrives q n t r \<Longrightarrow> arrives p (m + n) t r"
  by (simp add: arrives_def)

lemma arrives_reads: "arrives p 0 s q \<Longrightarrow> arrives q 0 t r \<Longrightarrow> arrives p 0 t r"
  by (simp add: arrives_def)

lemma arrives_skip: "rest p = s \<Longrightarrow> arrives p 0 (dropWhile is_space s) (skip_spaces p)"
  by (simp add: arrives_def) (simp add: skip_spaces_def advance_def)

lemma arrives_calls: "rest p = s \<Longrightarrow> arrives p 0 s (p\<lparr>fp_calls := c\<rparr>)"
  by (simp add: arrives_def)

lemma try_consume_text:
  "rest p = s @ t \<Longrightarrow> try_consume_str s p = (True, advance (length s) p)"
  "\<not> prefix s (rest p) \<Longrightarrow> try_consume_str s p = (False, p)"
  by (simp_all add: try_consume_str_def)

lemma read_segments_text:
  "rest p = arrows segs @ t \<Longrightarrow> list_all valid_name segs \<Longrightarrow> name_end t \<Longrightarrow> \<not> prefix ''->'' t \<Longrightarrow>
   \<exists>p'. read_segments p acc = Inr (acc @ segs, p') \<and> arrives p 0 t p'"
proof (induction segs arbitrary: p acc)
  case Nil
  then show ?case
    by (subst read_segments.simps) (simp add: try_consume_text arrows_def arrives_def)
next
  case (Cons s segs)
  let ?p1 = "advance (length ''->'') p"
  have r1: "rest p = ''->'' @ s @ arrows segs @ t" using Cons.prems(1) by (simp add: arrows_def)
  note t1 = try_consume_text(1) [OF r1] and a1 = arrives_advance [OF r1]
  have end1: "name_end (arrows segs @ t)"
    using Cons.prems(3) by (cases segs) (simp_all add: arrows_def name_end_def)
  have r2: "rest ?p1 = s @ arrows segs @ t" using a1 by (simp add: arrives_def)
  note n = read_name_text [OF _ end1 r2] and a2 = arrives_advance [OF r2]
  have "rest (advance (length s) ?p1) = arrows segs @ t" using a2 by (simp add: arrives_def)
  from Cons.IH [OF this, of "acc @ [s]"] Cons.prems obtain p' where
    p': "read_segments (advance (length s) ?p1) (acc @ [s]) = Inr (acc @ s # segs, p')"
      "arrives (advance (length s) ?p1) 0 t p'" by auto
  have "read_segments p acc = Inr (acc @ s # segs, p')"
    using Cons.prems(2) p'(1) n t1 by (subst read_segments.simps) simp
  then show ?case using arrives_reads [OF arrives_reads [OF a1 a2] p'(2)] by blast
qed

lemma read_path_text:
  assumes "rest p = show_path q @ t" "path_names q" "name_end t" "\<not> prefix ''->'' t"
  shows "\<exists>p'. read_path p = Inr (q, p') \<and> arrives p 0 t p'"
proof -
  obtain s segs where q: "q = Path (s # segs)" using assms(2) by (cases q rule: path_names.cases) (metis neq_Nil_conv path_names.simps)
  have r1: "rest p = s @ arrows segs @ t" using assms(1) q by simp
  have end1: "name_end (arrows segs @ t)"
    using assms(3) by (cases segs) (simp_all add: arrows_def name_end_def)
  have a1: "arrives p 0 (arrows segs @ t) (advance (length s) p)" using arrives_advance [OF r1] .
  then obtain p' where "read_segments (advance (length s) p) [s] = Inr ([s] @ segs, p')"
      "arrives (advance (length s) p) 0 t p'"
    using read_segments_text [of "advance (length s) p" segs t "[s]"] assms(2-4) q by (auto simp: arrives_def)
  moreover have "read_name p = Some (s, advance (length s) p)"
    using read_name_text [OF _ end1 r1] assms(2) q by simp
  ultimately show ?thesis using arrives_reads [OF a1] q by (auto simp: read_path_def)
qed

lemma tail_char: "term_tail t \<Longrightarrow> t \<noteq> [] \<Longrightarrow> hd t = CHR 0x29 \<or> hd t = CHR 0x20 \<and> (\<exists>u. tl t = ''and '' @ u \<or> tl t = ''or '' @ u)"
  by (auto simp: term_tail_def prefix_def)

lemma tail_no_arrow: "term_tail t \<Longrightarrow> \<not> prefix ''->'' t"
  by (auto simp: term_tail_def prefix_def)

lemma read_cmp_op_none: "term_tail t \<Longrightarrow> rest p = t \<Longrightarrow> fst (read_cmp_op p) = None"
  by (auto simp: read_cmp_op_def Let_def try_consume_str_def term_tail_def prefix_def is_space_def)

lemma read_cmp_op_text:
  assumes "rest p = '' '' @ cmp_text op @ '' '' @ t"
  shows "\<exists>p'. read_cmp_op p = (Some op, p') \<and> arrives p 0 ('' '' @ t) p'"
proof -
  have r: "rest (skip_spaces p) = cmp_text op @ '' '' @ t" using assms by (cases op) (simp_all add: is_space_def)
  have "read_cmp_op p = (Some op, advance (length (cmp_text op)) (skip_spaces p))"
    using r by (cases op) (simp_all add: read_cmp_op_def Let_def try_consume_str_def)
  moreover have "arrives p 0 ('' '' @ t) (advance (length (cmp_text op)) (skip_spaces p))"
    using arrives_reads [OF arrives_skip [OF refl] arrives_advance [OF r]] .
  ultimately show ?thesis by blast
qed

lemma read_val_text:
  assumes "never_stops v" "literal_ok v vt val" "term_tail t" "rest p = '' '' @ vt val @ t"
  shows "\<exists>p'. read_val v p = Inr (val, p') \<and> arrives p 0 t p'"
proof -
  let ?p1 = "p\<lparr>fp_calls := fp_calls p + 1\<rparr>"
  let ?p2 = "skip_spaces ?p1"
  let ?p3 = "advance (length (vt val)) ?p2"
  obtain c cs where c: "vt val = c # cs" "\<not> is_space c"
    using assms(2) by (cases "vt val") (auto simp: literal_ok_def)
  have r2: "rest ?p2 = vt val @ t" using assms(4) c by (simp add: is_space_def)
  have z: "pe_zinc v (rest ?p2) = Inr (val, length (vt val))" using assms(2,3) r2 by (simp add: literal_ok_def)
  have "read_val v p = Inr (val, ?p3\<lparr>fp_calls := fp_calls ?p3 + 1\<rparr>)"
    using z by (simp add: read_val_def pbind_def checkpoint_clear [OF assms(1)] Let_def)
  moreover have "arrives p 0 t (?p3\<lparr>fp_calls := fp_calls ?p3 + 1\<rparr>)"
    using arrives_advance [OF r2] by (simp add: arrives_def) (simp add: skip_spaces_def advance_def)
  ultimately show ?thesis by blast
qed

text \<open>Spec names.\<close>

definition dots :: "string list \<Rightarrow> string" where
  "dots q = concat (map (\<lambda>s. ''.'' @ s) q)"

lemma dotted_dots: "dotted (n # q) = n @ dots q"
  by (induction q arbitrary: n) (simp_all add: dots_def)

lemma hyphened_end: "term_tail t \<Longrightarrow> name_end (hyphened ts @ t)"
  by (cases ts) (simp_all add: name_end_def term_tail_end [unfolded name_end_def])

lemma spec_tail_text:
  "list_all valid_name ts \<Longrightarrow> term_tail t \<Longrightarrow> spec_tail (hyphened ts @ t) = hyphened ts"
proof (induction ts)
  case Nil
  then show ?case by (subst spec_tail.simps) (auto simp: term_tail_def prefix_def split: list.splits)
next
  case (Cons n ts)
  then obtain c cs where n: "n = c # cs" "is_alpha c" "list_all is_name_char cs" by (cases n) auto
  have "takeWhile is_name_char (cs @ hyphened ts @ t) = cs" "dropWhile is_name_char (cs @ hyphened ts @ t) = hyphened ts @ t"
    using takeWhile_name [OF n(3) hyphened_end [OF Cons.prems(2)]] by simp_all
  then show ?case using Cons n by (subst spec_tail.simps) simp
qed

lemma read_spec_text:
  assumes "rest p = n @ hyphened ts @ t" "valid_name n" "list_all valid_name ts" "term_tail t"
  shows "\<exists>p'. read_spec nm p = Inr (ParsedNode (SpecMatch (nm @ ''::'' @ n @ hyphened ts)) 1, p') \<and> arrives p 0 t p'"
proof -
  note n = read_name_text [OF assms(2) hyphened_end [OF assms(4)] assms(1)]
  note a = arrives_advance [OF assms(1)]
  have r: "rest (advance (length n) p) = hyphened ts @ t" using a by (simp add: arrives_def)
  have "read_spec_type_name p = Some (n @ hyphened ts, advance (length (hyphened ts)) (advance (length n) p))"
    using n r spec_tail_text [OF assms(3,4)] by (simp add: read_spec_type_name_def Let_def)
  then show ?thesis using arrives_reads [OF a arrives_advance [OF r]] by (simp add: read_spec_def)
qed

lemma dots_end: "name_end (dots q @ ''::'' @ u)"
  by (cases q) (simp_all add: dots_def name_end_def)

lemma read_dotted_text:
  "rest p = dots q @ ''::'' @ n @ hyphened ts @ t \<Longrightarrow> q \<noteq> [] \<Longrightarrow> list_all valid_name (n # q @ ts) \<Longrightarrow> term_tail t \<Longrightarrow>
   \<exists>p'. read_dotted nm p = Inr (Inl (ParsedNode (SpecMatch (nm @ dots q @ ''::'' @ n @ hyphened ts)) 1, p')) \<and>
     arrives p 0 t p'"
proof (induction q arbitrary: nm p)
  case (Cons s q)
  let ?p1 = "advance 1 p" and ?u = "dots q @ ''::'' @ n @ hyphened ts @ t"
  let ?p2 = "advance (length s) ?p1"
  have r: "rest p = ''.'' @ s @ ?u" using Cons.prems(1) by (simp add: dots_def)
  have a1: "arrives p 0 (s @ ?u) ?p1" using arrives_advance [OF r] by simp
  then have r1: "rest ?p1 = s @ ?u" by (simp add: arrives_def)
  have n1: "read_name ?p1 = Some (s, ?p2)" using read_name_text [OF _ dots_end r1] Cons.prems(3) by simp
  have a2: "arrives p 0 ?u ?p2" using arrives_reads [OF a1 arrives_advance [OF r1]] .
  then have r2: "rest ?p2 = ?u" by (simp add: arrives_def)
  have pk: "peek p = Some (CHR 0x2E)" using r by (simp add: peek_def)
  show ?case
  proof (cases q)
    case Nil
    then have r3: "rest ?p2 = ''::'' @ n @ hyphened ts @ t" using r2 by (simp add: dots_def)
    note a3 = arrives_advance [OF r3]
    have "rest (advance (length ''::'') ?p2) = n @ hyphened ts @ t" using a3 by (simp add: arrives_def)
    from read_spec_text [OF this, of "nm @ ''.'' @ s"] Cons.prems(3,4) obtain p' where
      p': "read_spec (nm @ ''.'' @ s) (advance (length ''::'') ?p2) =
        Inr (ParsedNode (SpecMatch ((nm @ ''.'' @ s) @ ''::'' @ n @ hyphened ts)) 1, p')"
        "arrives (advance (length ''::'') ?p2) 0 t p'" by auto
    have "read_dotted nm p = Inr (Inl (ParsedNode (SpecMatch ((nm @ ''.'' @ s) @ ''::'' @ n @ hyphened ts)) 1, p'))"
      using pk n1 p'(1) try_consume_text(1) [OF r3] by (subst read_dotted.simps) (simp add: Let_def)
    then show ?thesis using Nil arrives_reads [OF arrives_reads [OF a2 a3] p'(2)] by (simp add: dots_def)
  next
    case (Cons s' q')
    then have "\<not> prefix ''::'' (rest ?p2)" unfolding r2 by (simp add: dots_def)
    note t2 = try_consume_text(2) [OF this]
    obtain p' where p': "read_dotted (nm @ ''.'' @ s) ?p2 =
        Inr (Inl (ParsedNode (SpecMatch ((nm @ ''.'' @ s) @ dots q @ ''::'' @ n @ hyphened ts)) 1, p'))" "arrives ?p2 0 t p'"
      using Cons.IH [OF r2, of "nm @ ''.'' @ s"] Cons Cons.prems by auto
    have "read_dotted nm p = Inr (Inl (ParsedNode (SpecMatch ((nm @ ''.'' @ s) @ dots q @ ''::'' @ n @ hyphened ts)) 1, p'))"
      using pk n1 p'(1) t2 by (subst read_dotted.simps) (simp add: Let_def)
    then show ?thesis using arrives_reads [OF a2 p'(2)] by (simp add: dots_def)
  qed
qed simp

text \<open>A path term: a name, no spec separator behind it, then the comparison or nothing.\<close>

lemma read_comparison_text:
  assumes "never_stops v" "rest p = arrows segs @ u" "list_all valid_name segs" "term_tail t"
    and "f = Has (Path (s # segs)) \<and> u = t \<or>
      (\<exists>op val. f = Cmp (Path (s # segs)) op val \<and> u = '' '' @ cmp_text op @ '' '' @ vt val @ t \<and> literal_ok v vt val)"
  shows "\<exists>p'. read_comparison v s p = Inr (ParsedNode f 1, p') \<and> arrives p 0 t p'"
proof -
  have u: "name_end u" "\<not> prefix ''->'' u" using assms(4,5) tail_no_arrow term_tail_end by (auto simp: name_end_def)
  obtain p1 where p1: "read_segments p [s] = Inr (s # segs, p1)" "arrives p 0 u p1"
    using read_segments_text [OF assms(2,3) u, of "[s]"] by auto
  then have r1: "rest p1 = u" by (simp add: arrives_def)
  from assms(5) show ?thesis
  proof (elim disjE exE conjE)
    assume f: "f = Has (Path (s # segs))" "u = t"
    obtain p2 where "read_cmp_op p1 = (None, p2)"
      using read_cmp_op_none [of t p1] assms(4) r1 f(2) by (cases "read_cmp_op p1") auto
    with p1 f show ?thesis by (auto simp: read_comparison_def pbind_def)
  next
    fix op val
    assume f: "f = Cmp (Path (s # segs)) op val" "u = '' '' @ cmp_text op @ '' '' @ vt val @ t" "literal_ok v vt val"
    obtain p2 where p2: "read_cmp_op p1 = (Some op, p2)" "arrives p1 0 ('' '' @ vt val @ t) p2"
      using read_cmp_op_text [of p1 op "vt val @ t"] r1 f(2) by auto
    then obtain p3 where p3: "read_val v p2 = Inr (val, p3)" "arrives p2 0 t p3"
      using read_val_text [OF assms(1) f(3) assms(4), of p2] by (auto simp: arrives_def)
    have "read_comparison v s p = Inr (ParsedNode f 1, p3)"
      using p1(1) p2(1) p3(1) f(1) by (simp add: read_comparison_def pbind_def)
    then show ?thesis using arrives_reads [OF arrives_reads [OF p1(2) p2(2)] p3(2)] by blast
  qed
qed

lemma not_keyword_name: "list_all is_name_char ''not''"
  by (simp add: is_name_char_def is_alpha_def Let_def)

text \<open>What \<open>read_simple_term\<close> does once the node is reserved.\<close>

definition simple_body :: "parser_env \<Rightarrow> fparser \<Rightarrow> filter_error + (parsed_node \<times> fparser)" where
  "simple_body v p =
     (if at_keyword v ''not'' p then
        pbind (read_path (skip_spaces (advance 3 p))) (\<lambda>(path, p). Inr (ParsedNode (Missing path) 1, p))
      else
        (case read_name p of
           None \<Rightarrow> Inl (perr (''expected tag name, '' @ [CHR 0x27] @ ''not'' @ [CHR 0x27] @ '', or '' @
             [CHR 0x27] @ ''('' @ [CHR 0x27]) p)
         | Some (first_name, p1) \<Rightarrow>
             (case try_consume_str ''::'' p1 of
                (True, p2) \<Rightarrow> read_spec first_name p2
              | (False, _) \<Rightarrow>
                  pbind (read_dotted first_name p1) (\<lambda>r.
                  case r of
                    Inl spec \<Rightarrow> Inr spec
                  | Inr (full_name, p2) \<Rightarrow>
                      read_comparison v first_name
                        (if CHR 0x2E \<in> set full_name then p2\<lparr>fp_pos := fp_pos p + length first_name\<rparr>
                         else p2)))))"

lemma read_simple_term_body: "read_simple_term v p = pbind (reserve_node v 1 p) (simple_body v)"
  unfolding read_simple_term_def simple_body_def ..

lemma simple_body_missing:
  assumes "rest p = ''not '' @ show_path q @ t" "path_names q" "term_tail t"
  shows "\<exists>p'. simple_body v p = Inr (ParsedNode (Missing q) 1, p') \<and> arrives p 0 t p'"
proof -
  obtain s segs where q: "q = Path (s # segs)" using assms(2) by (cases q rule: path_names.cases) (metis neq_Nil_conv path_names.simps)
  then obtain c cs where s: "s = c # cs" "is_alpha c" using assms(2) by (cases s) auto
  have kw: "at_keyword v ''not'' p" using assms(1) by (simp add: at_keyword_def word_boundary_def is_ascii_def)
  let ?p1 = "skip_spaces (advance 3 p)"
  have r0: "rest (advance 3 p) = '' '' @ show_path q @ t" using assms(1) by simp
  have r1: "rest ?p1 = show_path q @ t" using assms(1) q s by (simp add: is_space_def alpha_not(1) [unfolded is_space_def])
  have a1: "arrives p 0 (show_path q @ t) ?p1"
    using r1 by (simp add: arrives_def) (simp add: skip_spaces_def advance_def)
  obtain p' where "read_path ?p1 = Inr (q, p')" "arrives ?p1 0 t p'"
    using read_path_text [OF r1 assms(2) term_tail_end tail_no_arrow] assms(3) by auto
  with kw arrives_reads [OF a1] show ?thesis by (auto simp: simple_body_def pbind_def)
qed

lemma simple_body_path:
  assumes "never_stops v" "valid_name s" "s \<noteq> ''not''" "rest p = s @ arrows segs @ u" "list_all valid_name segs" "term_tail t"
    and f: "f = Has (Path (s # segs)) \<and> u = t \<or>
      (\<exists>op val. f = Cmp (Path (s # segs)) op val \<and> u = '' '' @ cmp_text op @ '' '' @ vt val @ t \<and> literal_ok v vt val)"
  shows "\<exists>p'. simple_body v p = Inr (ParsedNode f 1, p') \<and> arrives p 0 t p'"
proof -
  have u: "name_end (arrows segs @ u)" "\<not> prefix ''::'' (arrows segs @ u)" "\<not> prefix ''.'' (arrows segs @ u)"
    using f term_tail_end [OF assms(6)] assms(6)
    by (cases segs; auto simp: arrows_def name_end_def term_tail_def prefix_def)+
  let ?p1 = "advance (length s) p"
  have a1: "arrives p 0 (arrows segs @ u) ?p1" using arrives_advance [OF assms(4)] .
  then have r1: "rest ?p1 = arrows segs @ u" by (simp add: arrives_def)
  note n = read_name_text [OF assms(2) u(1) assms(4)]
  have kw: "\<not> at_keyword v ''not'' p"
    using no_keyword [OF _ u(1) not_keyword_name assms(3,4)] valid_name_all [OF assms(2)] by simp
  have t1: "try_consume_str ''::'' ?p1 = (False, ?p1)" using try_consume_text(2) u(2) r1 by simp
  have "peek ?p1 \<noteq> Some (CHR 0x2E)" using u(3) unfolding peek_def r1 by (auto split: list.splits)
  then have d: "read_dotted s ?p1 = Inr (Inr (s, ?p1))" by (subst read_dotted.simps) simp
  have nd: "CHR 0x2E \<notin> set s" using valid_name_all [OF assms(2)] by (auto simp: list_all_iff)
  obtain p' where p': "read_comparison v s ?p1 = Inr (ParsedNode f 1, p')" "arrives ?p1 0 t p'"
    using read_comparison_text [OF assms(1) r1 assms(5,6) f] by blast
  have "simple_body v p = Inr (ParsedNode f 1, p')"
    using kw n t1 d nd p'(1) by (simp add: simple_body_def pbind_def)
  then show ?thesis using arrives_reads [OF a1 p'(2)] by blast
qed

lemma simple_body_spec:
  assumes "n \<noteq> ''not''" "list_all valid_name (n # m # q @ ts)" "term_tail t"
    and "rest p = dotted (n # q) @ ''::'' @ m @ hyphened ts @ t"
  shows "\<exists>p'. simple_body v p = Inr (ParsedNode (SpecMatch (dotted (n # q) @ ''::'' @ m @ hyphened ts)) 1, p') \<and> arrives p 0 t p'"
proof -
  let ?u = "m @ hyphened ts @ t"
  have r: "rest p = n @ dots q @ ''::'' @ ?u" using assms(4) by (simp add: dotted_dots)
  let ?p1 = "advance (length n) p"
  have a1: "arrives p 0 (dots q @ ''::'' @ ?u) ?p1" using arrives_advance [OF r] .
  then have r1: "rest ?p1 = dots q @ ''::'' @ ?u" by (simp add: arrives_def)
  have n: "read_name p = Some (n, ?p1)" using read_name_text [OF _ dots_end r] assms(2) by simp
  have kw: "\<not> at_keyword v ''not'' p"
    using no_keyword [OF _ dots_end not_keyword_name assms(1) r] valid_name_all assms(2) by simp
  show ?thesis
  proof (cases q)
    case Nil
    then have r2: "rest ?p1 = ''::'' @ ?u" using r1 by (simp add: dots_def)
    note a2 = arrives_advance [OF r2]
    have "rest (advance (length ''::'') ?p1) = ?u" using a2 by (simp add: arrives_def)
    from read_spec_text [OF this, of n] assms(2,3) obtain p' where
      p': "read_spec n (advance (length ''::'') ?p1) = Inr (ParsedNode (SpecMatch (n @ ''::'' @ m @ hyphened ts)) 1, p')"
        "arrives (advance (length ''::'') ?p1) 0 t p'" by auto
    have "simple_body v p = Inr (ParsedNode (SpecMatch (n @ ''::'' @ m @ hyphened ts)) 1, p')"
      using kw n try_consume_text(1) [OF r2] p'(1) by (simp add: simple_body_def)
    then show ?thesis using Nil arrives_reads [OF arrives_reads [OF a1 a2] p'(2)] by simp
  next
    case (Cons s q')
    then have "\<not> prefix ''::'' (rest ?p1)" unfolding r1 by (simp add: dots_def)
    note t1 = try_consume_text(2) [OF this]
    obtain p' where p': "read_dotted n ?p1 = Inr (Inl (ParsedNode (SpecMatch (n @ dots q @ ''::'' @ m @ hyphened ts)) 1, p'))"
        "arrives ?p1 0 t p'"
      using read_dotted_text [OF r1, of n] Cons assms(2,3) by auto
    have "simple_body v p = Inr (ParsedNode (SpecMatch (n @ dots q @ ''::'' @ m @ hyphened ts)) 1, p')"
      using kw n t1 p'(1) by (simp add: simple_body_def pbind_def)
    then show ?thesis using arrives_reads [OF a1 p'(2)] by (simp add: dotted_dots)
  qed
qed

section \<open>Reading an expression\<close>

lemma reserve_text:
  assumes "never_stops v" "fp_nodes p < fl_max_nodes (fp_limits p)" "depth \<le> fl_max_depth (fp_limits p)"
  shows "\<exists>p'. reserve_node v depth p = Inr p' \<and> arrives p 1 (rest p) p'"
  using assms by (simp add: reserve_node_def checkpoint_clear pbind_def arrives_def)

lemma enter_text:
  assumes "never_stops v" "fp_depth p + 1 \<le> MAX_DEPTH"
  shows "\<exists>p'. enter_depth v p = Inr p' \<and> arrives (p\<lparr>fp_depth := fp_depth p + 1\<rparr>) 0 (rest p) p'"
  using assms by (simp add: enter_depth_def checkpoint_clear pbind_def arrives_def)

lemma exit_text: "arrives (p\<lparr>fp_depth := fp_depth p + 1\<rparr>) n t q \<Longrightarrow> arrives p n t (exit_depth q)"
  by (simp add: arrives_def exit_depth_def)

fun simple_filter :: "filter_node \<Rightarrow> bool" where
  "simple_filter (And _ _) = False"
| "simple_filter (Or _ _) = False"
| "simple_filter _ = True"

lemma path_cases:
  assumes "path_names q"
  obtains s segs where "q = Path (s # segs)" "valid_name s" "list_all valid_name segs"
proof -
  obtain segs where q: "q = Path segs" by (cases q)
  with assms obtain s segs' where "segs = s # segs'" by (cases segs) auto
  with q assms that show ?thesis by simp
qed

lemma simple_text:
  assumes "never_stops v" "showable v vt f" "simple_filter f" "rest p = show_filter vt k f @ t" "term_tail t"
    and "fp_nodes p < fl_max_nodes (fp_limits p)" "1 \<le> fl_max_depth (fp_limits p)"
  shows "\<exists>p'. read_simple_term v p = Inr (node_of f, p') \<and> arrives p (filter_size f) t p'"
proof -
  obtain p1 where p1: "reserve_node v 1 p = Inr p1" "arrives p 1 (rest p) p1"
    using reserve_text [OF assms(1,6,7)] by blast
  then have r1: "rest p1 = show_filter vt k f @ t" using assms(4) by (simp add: arrives_def)
  have size: "filter_size f = 1" "node_of f = ParsedNode f 1" using assms(3) by (cases f; simp add: node_of_def)+
  have "\<exists>p'. simple_body v p1 = Inr (ParsedNode f 1, p') \<and> arrives p1 0 t p'"
  proof (cases f)
    case (Has q)
    with assms(2) obtain s segs where q: "q = Path (s # segs)" "valid_name s" "list_all valid_name segs" "s \<noteq> ''not''"
      by (auto elim: path_cases)
    show ?thesis using simple_body_path [OF assms(1) q(2,4) _ q(3) assms(5), of p1 t] r1 Has q(1) by simp
  next
    case (Missing q)
    with assms(2,5) r1 simple_body_missing [of p1 q t v] show ?thesis by simp
  next
    case (Cmp q op val)
    with assms(2) obtain s segs where q: "q = Path (s # segs)" "valid_name s" "list_all valid_name segs" "s \<noteq> ''not''"
      by (auto elim: path_cases)
    show ?thesis
      using simple_body_path [OF assms(1) q(2,4) _ q(3) assms(5), of p1 "'' '' @ cmp_text op @ '' '' @ vt val @ t" f vt]
        assms(2) r1 Cmp q(1) by simp
  next
    case (SpecMatch nm)
    with assms(2) obtain n q m ts where "n \<noteq> ''not''" "list_all valid_name (n # m # q @ ts)"
        "nm = dotted (n # q) @ ''::'' @ m @ hyphened ts" by auto
    with simple_body_spec [of n m q ts t p1 v] assms(5) r1 SpecMatch show ?thesis by simp
  qed (use assms(3) in simp_all)
  then obtain p' where "simple_body v p1 = Inr (ParsedNode f 1, p')" "arrives p1 0 t p'" by blast
  with p1 size arrives_trans [OF p1(2)] show ?thesis by (fastforce simp: read_simple_term_body pbind_def)
qed

lemma valid_name_head:
  assumes "valid_name n"
  obtains c cs where "n = c # cs" "is_alpha c"
  using assms by (cases n) auto

lemma show_path_head:
  assumes "path_names q"
  obtains c cs where "show_path q = c # cs" "is_alpha c"
  using assms
proof (rule path_cases)
  fix s segs
  assume q: "q = Path (s # segs)" "valid_name s"
  then obtain c cs where "s = c # cs" "is_alpha c" by (rule_tac valid_name_head)
  with q that show thesis by simp
qed

lemma show_head:
  "showable v vt f \<Longrightarrow> \<exists>c cs. show_filter vt k f = c # cs \<and> \<not> is_space c \<and> (simple_filter f \<longrightarrow> c \<noteq> CHR 0x28)"
proof (induction f arbitrary: k)
  case (Has q)
  then obtain c cs where "show_path q = c # cs" "is_alpha c" by (auto intro: show_path_head)
  then show ?case by auto
next
  case (Missing q)
  show ?case by (simp add: is_space_def)
next
  case (Cmp q op val)
  then obtain c cs where "show_path q = c # cs" "is_alpha c" by (auto intro: show_path_head)
  then show ?case by auto
next
  case (And l r)
  then obtain c cs where "show_filter vt 1 l = c # cs" "\<not> is_space c" by fastforce
  then show ?case by (simp add: paren_def is_space_def)
next
  case (Or l r)
  then obtain c cs where "show_filter vt 0 l = c # cs" "\<not> is_space c" by fastforce
  then show ?case by (simp add: paren_def is_space_def)
next
  case (SpecMatch nm)
  then obtain n q m ts where nm: "valid_name n" "nm = dotted (n # q) @ ''::'' @ m @ hyphened ts" by auto
  obtain c cs where "n = c # cs" "is_alpha c" using nm(1) by (rule valid_name_head)
  then show ?case using nm(2) by (simp add: dotted_dots)
qed

text \<open>The keyword between two operands is taken when it stands there, and the loop ends when it does not.\<close>

lemma keyword_text:
  assumes "kw = ''and'' \<or> kw = ''or''" "dropWhile is_space (rest p) = kw @ '' '' @ s" "s \<noteq> []" "\<not> is_space (hd s)"
  shows "\<exists>q. consume_keyword v kw (skip_spaces p) = (True, q) \<and> arrives p 0 s (skip_spaces q)"
proof -
  have "at_keyword v kw (skip_spaces p)"
    using assms(1,2) by (auto simp: at_keyword_def word_boundary_def is_ascii_def)
  moreover have "rest (skip_spaces (advance (length kw) (skip_spaces p))) = s"
    using assms by (cases s) (auto simp: is_space_def)
  ultimately show ?thesis
    by (simp add: consume_keyword_def arrives_def) (simp add: skip_spaces_def advance_def)
qed

lemma and_end: "and_tail t \<Longrightarrow> dropWhile is_space (rest p) = dropWhile is_space t \<Longrightarrow> \<not> at_keyword v ''and'' (skip_spaces p)"
  by (auto simp: and_tail_def at_keyword_def prefix_def is_space_def)

lemma or_end: "or_tail t \<Longrightarrow> dropWhile is_space (rest p) = dropWhile is_space t \<Longrightarrow> \<not> at_keyword v ''or'' (skip_spaces p)"
  by (auto simp: or_tail_def at_keyword_def prefix_def is_space_def)

lemma tails: "or_tail t \<Longrightarrow> and_tail t" "and_tail t \<Longrightarrow> term_tail t" "or_tail t \<Longrightarrow> dropWhile is_space t = t"
  "or_tail ('')'' @ u)" "and_tail ('' or '' @ u)" "term_tail ('' and '' @ u)"
  by (auto simp: or_tail_def and_tail_def term_tail_def prefix_def is_space_def)

definition room :: "fparser \<Rightarrow> nat \<Rightarrow> filter_node \<Rightarrow> bool" where
  "room p k f \<longleftrightarrow>
     fp_nodes p + filter_size f \<le> fl_max_nodes (fp_limits p) \<and> filter_depth f \<le> fl_max_depth (fp_limits p) \<and>
     fp_depth p + k \<le> MAX_DEPTH"

text \<open>What each production makes of a text: \<open>reads_term\<close>, \<open>reads_and\<close> and \<open>reads_or\<close> for the productions,
  \<open>and_spine\<close> and \<open>or_spine\<close> for the loops that build a left-grouped chain.\<close>

definition reads_term :: "parser_env \<Rightarrow> (kind \<Rightarrow> string) \<Rightarrow> filter_node \<Rightarrow> bool" where
  "reads_term v vt f \<longleftrightarrow>
     (\<forall>p t n. rest p = show_filter vt 2 f @ t \<and> term_tail t \<and> room p (nesting 2 f) f \<and>
        3 * length (rest p) + 1 \<le> n \<longrightarrow>
        (\<exists>p'. parse_term n v p = Some (Inr (node_of f, p')) \<and> arrives p (filter_size f) t p'))"

definition and_spine :: "parser_env \<Rightarrow> (kind \<Rightarrow> string) \<Rightarrow> filter_node \<Rightarrow> bool" where
  "and_spine v vt f \<longleftrightarrow>
     (\<forall>p t n. rest p = show_filter vt 1 f @ t \<and> term_tail t \<and> room p (nesting 1 f) f \<and>
        3 * length (rest p) + 1 \<le> n \<longrightarrow>
        (\<exists>m p'. n \<le> m + length (show_filter vt 1 f) \<and> arrives p (filter_size f) t p' \<and>
           obind (parse_term n v p) (\<lambda>(left, p). and_rest n v left p) = and_rest m v (node_of f) p'))"

definition reads_and :: "parser_env \<Rightarrow> (kind \<Rightarrow> string) \<Rightarrow> filter_node \<Rightarrow> bool" where
  "reads_and v vt f \<longleftrightarrow>
     (\<forall>p t n. rest p = show_filter vt 1 f @ t \<and> and_tail t \<and> room p (1 + nesting 1 f) f \<and>
        3 * length (rest p) + 2 \<le> n \<longrightarrow>
        (\<exists>p'. parse_cond_and n v p = Some (Inr (node_of f, p')) \<and>
           arrives p (filter_size f) (dropWhile is_space t) p'))"

definition or_spine :: "parser_env \<Rightarrow> (kind \<Rightarrow> string) \<Rightarrow> filter_node \<Rightarrow> bool" where
  "or_spine v vt f \<longleftrightarrow>
     (\<forall>p t n. rest p = show_filter vt 0 f @ t \<and> and_tail t \<and> room p (1 + nesting 0 f) f \<and>
        3 * length (rest p) + 2 \<le> n \<longrightarrow>
        (\<exists>m p'. n \<le> m + length (show_filter vt 0 f) \<and> arrives p (filter_size f) (dropWhile is_space t) p' \<and>
           obind (parse_cond_and n v p) (\<lambda>(left, p). or_rest n v left p) = or_rest m v (node_of f) p'))"

definition reads_or :: "parser_env \<Rightarrow> (kind \<Rightarrow> string) \<Rightarrow> filter_node \<Rightarrow> bool" where
  "reads_or v vt f \<longleftrightarrow>
     (\<forall>p t n. rest p = show_filter vt 0 f @ t \<and> or_tail t \<and> room p (2 + nesting 0 f) f \<and>
        3 * length (rest p) + 3 \<le> n \<longrightarrow>
        (\<exists>p'. parse_cond_or n v p = Some (Inr (node_of f, p')) \<and> arrives p (filter_size f) t p'))"

lemma filter_size_pos: "0 < filter_size f" "1 \<le> filter_depth f"
  by (cases f; simp)+

lemma simple_reads_term:
  assumes "never_stops v" "showable v vt f" "simple_filter f"
  shows "reads_term v vt f"
proof -
  have "\<exists>p'. parse_term n v p = Some (Inr (node_of f, p')) \<and> arrives p (filter_size f) t p'"
    if p: "rest p = show_filter vt 2 f @ t" "term_tail t" "room p (nesting 2 f) f" "3 * length (rest p) + 1 \<le> n" for p t n
  proof -
    obtain c cs where c: "show_filter vt 2 f = c # cs" "\<not> is_space c" "c \<noteq> CHR 0x28"
      using show_head [OF assms(2), of 2] assms(3) by blast
    have sk: "skip_spaces p = p" and pk: "peek p \<noteq> Some (CHR 0x28)"
      using p(1) c skip_spaces_id [of p] by (simp_all add: peek_def)
    obtain k where n: "n = Suc k" using p(4) by (cases n) auto
    have "fp_nodes p < fl_max_nodes (fp_limits p)" "1 \<le> fl_max_depth (fp_limits p)"
      using p(3) filter_size_pos [of f] by (auto simp: room_def)
    from simple_text [OF assms p(1,2) this] show ?thesis using sk pk n by (auto simp: Let_def)
  qed
  then show ?thesis unfolding reads_term_def by blast
qed

lemma group_reads_term:
  assumes "reads_or v vt f" "\<not> simple_filter f" "showable v vt f"
  shows "reads_term v vt f"
proof -
  have sh: "show_filter vt 2 f = ''('' @ show_filter vt 0 f @ '')''" "nesting 2 f = 2 + nesting 0 f"
    using assms(2) by (cases f; simp add: paren_def)+
  have "\<exists>p'. parse_term n v p = Some (Inr (node_of f, p')) \<and> arrives p (filter_size f) t p'"
    if p: "rest p = show_filter vt 2 f @ t" "term_tail t" "room p (nesting 2 f) f" "3 * length (rest p) + 1 \<le> n" for p t n
  proof -
    obtain c cs where c: "show_filter vt 0 f = c # cs" "\<not> is_space c"
      using show_head [OF assms(3), of 0] by blast
    have r: "rest p = ''('' @ show_filter vt 0 f @ '')'' @ t" using p(1) sh(1) by simp
    have sk: "skip_spaces p = p" and pk: "peek p = Some (CHR 0x28)"
      using r skip_spaces_id [of p] by (simp_all add: peek_def is_space_def)
    let ?q = "advance 1 p"
    have q: "arrives p 0 (show_filter vt 0 f @ '')'' @ t) ?q" using arrives_advance [OF r] by simp
    then have rq: "rest ?q = show_filter vt 0 f @ '')'' @ t" "room ?q (2 + nesting 0 f) f"
      using p(3) sh(2) by (simp_all add: arrives_def room_def)
    have sq: "skip_spaces ?q = ?q" using rq(1) c skip_spaces_id [of ?q] by simp
    obtain k where n: "n = Suc k" using p(4) by (cases n) auto
    have fuel: "3 * length (rest ?q) + 3 \<le> k" using p(4) n r rq(1) by simp
    obtain p1 where p1: "parse_cond_or k v ?q = Some (Inr (node_of f, p1))" "arrives ?q (filter_size f) ('')'' @ t) p1"
      using assms(1) rq tails(4) fuel unfolding reads_or_def by blast
    then have r1: "rest p1 = '')'' @ t" by (simp add: arrives_def)
    have s1: "skip_spaces p1 = p1" "peek p1 = Some (CHR 0x29)"
      using r1 skip_spaces_id [of p1] by (simp_all add: peek_def is_space_def)
    have "parse_term n v p = Some (Inr (node_of f, advance 1 p1))"
      using n sk pk sq p1(1) s1 by (simp add: obind_def Let_def)
    moreover have "arrives p (filter_size f) t (advance 1 p1)"
      using arrives_trans [OF arrives_trans [OF q p1(2)] arrives_advance [OF r1]] by simp
    ultimately show ?thesis by blast
  qed
  then show ?thesis unfolding reads_term_def by blast
qed

lemma term_and_spine:
  assumes "reads_term v vt f" "\<forall>l r. f \<noteq> And l r"
  shows "and_spine v vt f"
proof -
  have sh: "show_filter vt 1 f = show_filter vt 2 f" "nesting 1 f = nesting 2 f"
    using assms(2) by (cases f; simp)+
  have "\<exists>m p'. n \<le> m + length (show_filter vt 1 f) \<and> arrives p (filter_size f) t p' \<and>
      obind (parse_term n v p) (\<lambda>(left, p). and_rest n v left p) = and_rest m v (node_of f) p'"
    if p: "rest p = show_filter vt 1 f @ t" "term_tail t" "room p (nesting 1 f) f" "3 * length (rest p) + 1 \<le> n" for p t n
  proof -
    obtain p' where "parse_term n v p = Some (Inr (node_of f, p'))" "arrives p (filter_size f) t p'"
      using assms(1) p unfolding reads_term_def sh by blast
    then show ?thesis by (intro exI [of _ n] exI [of _ p']) (simp add: obind_def)
  qed
  then show ?thesis unfolding and_spine_def by blast
qed

lemma and_or_spine:
  assumes "reads_and v vt f" "\<forall>l r. f \<noteq> Or l r"
  shows "or_spine v vt f"
proof -
  have sh: "show_filter vt 0 f = show_filter vt 1 f" "nesting 0 f = nesting 1 f"
    using assms(2) by (cases f; simp)+
  have "\<exists>m p'. n \<le> m + length (show_filter vt 0 f) \<and> arrives p (filter_size f) (dropWhile is_space t) p' \<and>
      obind (parse_cond_and n v p) (\<lambda>(left, p). or_rest n v left p) = or_rest m v (node_of f) p'"
    if p: "rest p = show_filter vt 0 f @ t" "and_tail t" "room p (1 + nesting 0 f) f" "3 * length (rest p) + 2 \<le> n" for p t n
  proof -
    obtain p' where "parse_cond_and n v p = Some (Inr (node_of f, p'))" "arrives p (filter_size f) (dropWhile is_space t) p'"
      using assms(1) p unfolding reads_and_def sh by blast
    then show ?thesis by (intro exI [of _ n] exI [of _ p']) (simp add: obind_def)
  qed
  then show ?thesis unfolding or_spine_def by blast
qed

lemma and_spine_step:
  assumes "never_stops v" "and_spine v vt l" "reads_term v vt r" "showable v vt r"
  shows "and_spine v vt (And l r)"
proof -
  let ?f = "And l r"
  have "\<exists>m p'. n \<le> m + length (show_filter vt 1 ?f) \<and> arrives p (filter_size ?f) t p' \<and>
      obind (parse_term n v p) (\<lambda>(left, p). and_rest n v left p) = and_rest m v (node_of ?f) p'"
    if p: "rest p = show_filter vt 1 ?f @ t" "term_tail t" "room p (nesting 1 ?f) ?f" "3 * length (rest p) + 1 \<le> n" for p t n
  proof -
    let ?s = "show_filter vt 1 l" and ?u = "show_filter vt 2 r @ t"
    have r: "rest p = ?s @ '' and '' @ ?u" using p(1) by (simp add: paren_def)
    have rl: "room p (nesting 1 l) l" using p(3) by (auto simp: room_def)
    obtain m p1 where m: "n \<le> m + length ?s" and p1: "arrives p (filter_size l) ('' and '' @ ?u) p1"
      and e: "obind (parse_term n v p) (\<lambda>(left, p). and_rest n v left p) = and_rest m v (node_of l) p1"
      using assms(2) r tails(6) rl p(4) unfolding and_spine_def by blast
    have r1: "rest p1 = '' and '' @ ?u" using p1 by (simp add: arrives_def)
    obtain k where k: "m = Suc k" using m p(4) r by (cases m) auto
    have kw: "dropWhile is_space (rest p1) = ''and'' @ '' '' @ ?u" using r1 by (simp add: is_space_def)
    have hd: "?u \<noteq> []" "\<not> is_space (hd ?u)" using show_head [OF assms(4), of 2] by auto
    obtain q where q: "consume_keyword v ''and'' (skip_spaces p1) = (True, q)" "arrives p1 0 ?u (skip_spaces q)"
      using keyword_text [OF _ kw hd] by blast
    have pq: "arrives p (filter_size l) ?u (skip_spaces q)" using arrives_trans [OF p1 q(2)] by simp
    then have rq: "rest (skip_spaces q) = ?u" "room (skip_spaces q) (nesting 2 r) r"
      using p(3) by (auto simp: arrives_def room_def)
    have "3 * length (rest (skip_spaces q)) + 1 \<le> k" using m k p(4) r unfolding rq(1) by simp
    then obtain p2 where p2: "parse_term k v (skip_spaces q) = Some (Inr (node_of r, p2))" "arrives (skip_spaces q) (filter_size r) t p2"
      using assms(3) rq p(2) unfolding reads_term_def by blast
    have a2: "arrives p (filter_size l + filter_size r) t p2" using arrives_trans [OF pq p2(2)] .
    then obtain p3 where p3: "reserve_node v (filter_depth ?f) p2 = Inr p3" "arrives p2 1 t p3"
      using reserve_text [OF assms(1), of p2 "filter_depth ?f"] p(3) by (auto simp: arrives_def room_def)
    have "and_rest m v (node_of l) p1 = and_rest k v (node_of ?f) p3"
      using k q(1) p2(1) p3(1) by (simp add: obind_def Let_def node_of_def)
    moreover have "arrives p (filter_size ?f) t p3" using arrives_trans [OF a2 p3(2)] by simp
    moreover have "n \<le> k + length (show_filter vt 1 ?f)" using m k by (simp add: paren_def)
    ultimately show ?thesis using e by auto
  qed
  then show ?thesis unfolding and_spine_def by blast
qed

lemma or_spine_step:
  assumes "never_stops v" "or_spine v vt l" "reads_and v vt r" "showable v vt r"
  shows "or_spine v vt (Or l r)"
proof -
  let ?f = "Or l r"
  have "\<exists>m p'. n \<le> m + length (show_filter vt 0 ?f) \<and> arrives p (filter_size ?f) (dropWhile is_space t) p' \<and>
      obind (parse_cond_and n v p) (\<lambda>(left, p). or_rest n v left p) = or_rest m v (node_of ?f) p'"
    if p: "rest p = show_filter vt 0 ?f @ t" "and_tail t" "room p (1 + nesting 0 ?f) ?f" "3 * length (rest p) + 2 \<le> n" for p t n
  proof -
    let ?s = "show_filter vt 0 l" and ?u = "show_filter vt 1 r @ t" and ?t = "dropWhile is_space t"
    have r: "rest p = ?s @ '' or '' @ ?u" using p(1) by (simp add: paren_def)
    have rl: "room p (1 + nesting 0 l) l" using p(3) by (auto simp: room_def)
    obtain m p1 where m: "n \<le> m + length ?s" and p1: "arrives p (filter_size l) (dropWhile is_space ('' or '' @ ?u)) p1"
      and e: "obind (parse_cond_and n v p) (\<lambda>(left, p). or_rest n v left p) = or_rest m v (node_of l) p1"
      using assms(2) r tails(5) rl p(4) unfolding or_spine_def by blast
    have r1: "rest p1 = ''or '' @ ?u" using p1 by (simp add: arrives_def is_space_def)
    obtain k where k: "m = Suc k" using m p(4) r by (cases m) auto
    have kw: "dropWhile is_space (rest p1) = ''or'' @ '' '' @ ?u" using r1 by (simp add: is_space_def)
    have hd: "?u \<noteq> []" "\<not> is_space (hd ?u)" using show_head [OF assms(4), of 1] by auto
    obtain q where q: "consume_keyword v ''or'' (skip_spaces p1) = (True, q)" "arrives p1 0 ?u (skip_spaces q)"
      using keyword_text [OF _ kw hd] by blast
    have pq: "arrives p (filter_size l) ?u (skip_spaces q)" using arrives_trans [OF p1 q(2)] by simp
    then have rq: "rest (skip_spaces q) = ?u" "room (skip_spaces q) (1 + nesting 1 r) r"
      using p(3) by (auto simp: arrives_def room_def)
    have "3 * length (rest (skip_spaces q)) + 2 \<le> k" using m k p(4) r unfolding rq(1) by simp
    then obtain p2 where p2: "parse_cond_and k v (skip_spaces q) = Some (Inr (node_of r, p2))" "arrives (skip_spaces q) (filter_size r) ?t p2"
      using assms(3) rq p(2) unfolding reads_and_def by blast
    have a2: "arrives p (filter_size l + filter_size r) ?t p2" using arrives_trans [OF pq p2(2)] .
    then obtain p3 where p3: "reserve_node v (filter_depth ?f) p2 = Inr p3" "arrives p2 1 ?t p3"
      using reserve_text [OF assms(1), of p2 "filter_depth ?f"] p(3) by (auto simp: arrives_def room_def)
    have "or_rest m v (node_of l) p1 = or_rest k v (node_of ?f) p3"
      using k q(1) p2(1) p3(1) by (simp add: obind_def Let_def node_of_def)
    moreover have "arrives p (filter_size ?f) ?t p3" using arrives_trans [OF a2 p3(2)] by simp
    moreover have "n \<le> k + length (show_filter vt 0 ?f)" using m k by (simp add: paren_def)
    ultimately show ?thesis using e by auto
  qed
  then show ?thesis unfolding or_spine_def by blast
qed

lemma spine_reads_and:
  assumes "never_stops v" "and_spine v vt f"
  shows "reads_and v vt f"
proof -
  have "\<exists>p'. parse_cond_and n v p = Some (Inr (node_of f, p')) \<and> arrives p (filter_size f) (dropWhile is_space t) p'"
    if p: "rest p = show_filter vt 1 f @ t" "and_tail t" "room p (1 + nesting 1 f) f" "3 * length (rest p) + 2 \<le> n" for p t n
  proof -
    obtain k where n: "n = Suc k" using p(4) by (cases n) auto
    let ?d = "p\<lparr>fp_depth := fp_depth p + 1\<rparr>"
    obtain p1 where p1: "enter_depth v p = Inr p1" "arrives ?d 0 (rest p) p1"
      using enter_text [OF assms(1), of p] p(3) by (auto simp: room_def)
    then have r1: "rest p1 = show_filter vt 1 f @ t" "room p1 (nesting 1 f) f" "3 * length (rest p1) + 1 \<le> k"
      using p n by (simp_all add: arrives_def room_def)
    obtain m p2 where m: "k \<le> m + length (show_filter vt 1 f)" and p2: "arrives p1 (filter_size f) t p2"
      and e: "obind (parse_term k v p1) (\<lambda>(left, p). and_rest k v left p) = and_rest m v (node_of f) p2"
      using assms(2) r1 tails(2) [OF p(2)] unfolding and_spine_def by blast
    obtain j where j: "m = Suc j" using m r1 by (cases m) auto
    have "rest p2 = t" using p2 by (simp add: arrives_def)
    then have "and_rest m v (node_of f) p2 = Some (Inr (node_of f, exit_depth (skip_spaces p2)))"
      using and_end [OF p(2), of p2 v] j by (simp add: consume_keyword_def)
    moreover have "arrives p (filter_size f) (dropWhile is_space t) (exit_depth (skip_spaces p2))"
      using exit_text [OF arrives_trans [OF arrives_trans [OF p1(2) p2] arrives_skip]] \<open>rest p2 = t\<close> by simp
    ultimately show ?thesis using n p1(1) e by (simp add: obind_def)
  qed
  then show ?thesis unfolding reads_and_def by blast
qed

lemma spine_reads_or:
  assumes "never_stops v" "or_spine v vt f"
  shows "reads_or v vt f"
proof -
  have "\<exists>p'. parse_cond_or n v p = Some (Inr (node_of f, p')) \<and> arrives p (filter_size f) t p'"
    if p: "rest p = show_filter vt 0 f @ t" "or_tail t" "room p (2 + nesting 0 f) f" "3 * length (rest p) + 3 \<le> n" for p t n
  proof -
    obtain k where n: "n = Suc k" using p(4) by (cases n) auto
    let ?d = "p\<lparr>fp_depth := fp_depth p + 1\<rparr>"
    obtain p1 where p1: "enter_depth v p = Inr p1" "arrives ?d 0 (rest p) p1"
      using enter_text [OF assms(1), of p] p(3) by (auto simp: room_def)
    then have r1: "rest p1 = show_filter vt 0 f @ t" "room p1 (1 + nesting 0 f) f" "3 * length (rest p1) + 2 \<le> k"
      using p n by (simp_all add: arrives_def room_def)
    obtain m p2 where m: "k \<le> m + length (show_filter vt 0 f)" and p2: "arrives p1 (filter_size f) (dropWhile is_space t) p2"
      and e: "obind (parse_cond_and k v p1) (\<lambda>(left, p). or_rest k v left p) = or_rest m v (node_of f) p2"
      using assms(2) r1 tails(1) [OF p(2)] unfolding or_spine_def by blast
    obtain j where j: "m = Suc j" using m r1 by (cases m) auto
    have r2: "rest p2 = t" using p2 tails(3) [OF p(2)] by (simp add: arrives_def)
    then have "or_rest m v (node_of f) p2 = Some (Inr (node_of f, exit_depth (skip_spaces p2)))"
      using or_end [OF p(2), of p2 v] j by (simp add: consume_keyword_def)
    moreover have "arrives p (filter_size f) t (exit_depth (skip_spaces p2))"
      using exit_text [OF arrives_trans [OF arrives_trans [OF p1(2) p2] arrives_skip [OF r2]]] tails(3) [OF p(2)] by simp
    ultimately show ?thesis using n p1(1) e by (simp add: obind_def)
  qed
  then show ?thesis unfolding reads_or_def by blast
qed

lemma productions_read:
  assumes "never_stops v"
  shows "showable v vt f \<Longrightarrow> reads_term v vt f \<and> and_spine v vt f \<and> reads_and v vt f \<and> or_spine v vt f \<and> reads_or v vt f"
proof (induction f)
  case (And l r)
  then have "and_spine v vt (And l r)" using and_spine_step [OF assms] by simp
  then have a: "and_spine v vt (And l r)" "reads_and v vt (And l r)" using spine_reads_and [OF assms] by blast+
  then have o: "or_spine v vt (And l r)" "reads_or v vt (And l r)"
    using and_or_spine spine_reads_or [OF assms] by blast+
  then show ?case using a group_reads_term And.prems by simp
next
  case (Or l r)
  then have o: "or_spine v vt (Or l r)" using or_spine_step [OF assms] by simp
  then have o2: "reads_or v vt (Or l r)" "reads_term v vt (Or l r)"
    using spine_reads_or [OF assms] group_reads_term Or.prems by simp_all
  then show ?case using o term_and_spine spine_reads_and [OF assms] by blast
qed (use simple_reads_term [OF assms] term_and_spine spine_reads_and [OF assms] and_or_spine spine_reads_or [OF assms]
      in \<open>metis filter_node.distinct simple_filter.simps\<close>)+

theorem parse_shown:
  assumes "never_stops v" "showable v vt f" "2 + nesting 0 f \<le> MAX_DEPTH"
    and "length (show_filter vt 0 f) \<le> fl_max_bytes limits" "filter_size f \<le> fl_max_nodes limits"
      "filter_depth f \<le> fl_max_depth limits"
  shows "parse_filter_controlled v (show_filter vt 0 f) limits = Some (Inr f)"
proof -
  let ?e = "show_filter vt 0 f"
  let ?p = "\<lparr>fp_src = ?e, fp_pos = 0, fp_depth = 0, fp_nodes = 0, fp_limits = limits, fp_calls = 1\<rparr>"
  have c: "checkpoint v (?p\<lparr>fp_calls := 0\<rparr>) = Inr ?p" by (simp add: checkpoint_clear [OF assms(1)])
  obtain ch cs where h: "?e = ch # cs" "\<not> is_space ch" using show_head [OF assms(2), of 0] by blast
  have r: "rest ?p = ?e @ []" by (simp add: rest_def)
  have sk: "skip_spaces ?p = ?p" using r h skip_spaces_id [of ?p] by simp
  have "room ?p (2 + nesting 0 f) f" using assms(3,5,6) by (simp add: room_def)
  moreover have "or_tail []" "3 * length (rest ?p) + 3 \<le> parse_fuel ?e" using r by (simp_all add: or_tail_def parse_fuel_def)
  ultimately obtain p' where p': "parse_cond_or (parse_fuel ?e) v ?p = Some (Inr (node_of f, p'))"
      "arrives ?p (filter_size f) [] p'"
    using productions_read [OF assms(1,2)] r unfolding reads_or_def by blast
  have end1: "\<not> at_end ?p" using r h by (simp add: at_end_def)
  have "rest p' = []" using p'(2) by (simp add: arrives_def)
  then have end2: "skip_spaces p' = p'" "at_end (p'\<lparr>fp_calls := fp_calls p' + 1\<rparr>)"
    using skip_spaces_id [of p'] by (simp_all add: at_end_def rest_def)
  have "0 < fl_max_nodes limits" "0 < fl_max_depth limits" using assms(5,6) filter_size_pos [of f] by simp_all
  then show ?thesis
    using c sk end1 end2 p'(1) assms(4)
    by (simp add: parse_filter_controlled_def obind_def checkpoint_clear [OF assms(1)] Let_def node_of_def)
qed

end
