(* ===== verification/Budget.thy ===== *)
theory Budget
  imports Values
begin

text \<open>
  Metered work: \<open>haystack-app/src/budget.rs\<close>, with the errors and limits of
  \<open>haystack-app/src/types.rs\<close>.

  A metered computation takes a state and returns an error or a result and the next state.  The
  state of a \<open>Budget\<close> is its usage and the number of checks made so far; what a check sees (the
  clock, the cancellation tokens, the session) is the answer of the outside world to that check.
  Clones of a budget share one usage; the model follows the one computation that holds it.

  Three judgements about metered computations are closed under sequencing and carry the proofs:
  \<open>answers m a\<close> (whatever \<open>m\<close> is charged, its result is \<open>a\<close>), \<open>thrifty m\<close> (usage only grows and
  stays within the limits, nothing panics) and \<open>affordable m\<close> (some allowance is enough for \<open>m\<close> to
  return).
\<close>

named_theorems answers_rules "what a metered computation answers"
named_theorems thrifty_rules "metered computations that keep within their budget"
named_theorems affordable_rules "metered computations some allowance is enough for"

section \<open>Metered computations\<close>

type_synonym ('s, 'e, 'a) metered = "'s \<Rightarrow> ('e, 'a \<times> 's) res"

definition mret :: "'a \<Rightarrow> ('s, 'e, 'a) metered" where
  "mret a s = Inr (a, s)"

definition mbind :: "('s, 'e, 'a) metered \<Rightarrow> ('a \<Rightarrow> ('s, 'e, 'b) metered) \<Rightarrow> ('s, 'e, 'b) metered" where
  "mbind m f s = rbind (m s) (\<lambda>(a, s). f a s)"

definition mseq :: "('s, 'e, unit) metered \<Rightarrow> ('s, 'e, 'b) metered \<Rightarrow> ('s, 'e, 'b) metered" where
  "mseq m n = mbind m (\<lambda>_. n)"

definition answers :: "('s, 'e, 'a) metered \<Rightarrow> 'a \<Rightarrow> bool" where
  "answers m a \<longleftrightarrow> (\<forall>s r s'. m s = Inr (r, s') \<longrightarrow> r = a)"

lemma answersD: "answers m a \<Longrightarrow> m s = Inr (r, s') \<Longrightarrow> r = a"
  unfolding answers_def by blast

lemma answers_mret [answers_rules]: "answers (mret a) a"
  by (simp add: answers_def mret_def)

lemma answers_mbind: "answers m a \<Longrightarrow> answers (f a) c \<Longrightarrow> answers (mbind m f) c"
  by (fastforce simp: answers_def mbind_def)

lemma answers_unit [answers_rules]: "answers (m :: ('s, 'e, unit) metered) ()"
  by (simp add: answers_def)

lemma answers_mseq [answers_rules]: "answers n c \<Longrightarrow> answers (mseq m n) c"
  unfolding mseq_def by (rule answers_mbind [OF answers_unit])

section \<open>Errors and limits\<close>

datatype budget_kind = Input | Ids | Ast | Candidates | Forward | Inverse | ValuesKind | Work | Retained | Depth
  | Rows | Output | Regex

datatype read_error =
    NotReady
  | Closed
  | InvalidQuery string
  | Unavailable
  | Forbidden
  | StaleCursor
  | UnitTooLarge
  | Capacity
  | Cancelled
  | Deadline
  | BudgetExceeded budget_kind
  | Projection
  | InvalidLimits

record read_limits =
  max_input_bytes :: nat
  max_ids :: nat
  max_ast_nodes :: nat
  max_ast_depth :: nat
  max_candidates :: nat
  max_forward_edges :: nat
  max_inverse_edges :: nat
  max_value_nodes :: nat
  max_work :: nat
  max_retained_bytes :: nat
  max_value_depth :: nat
  max_rows :: nat
  max_output_bytes :: nat
  max_regex_source_bytes :: nat
  max_regex_bytes :: nat
  max_concurrent :: nat
  max_queued :: nat
  max_duration :: nat
  cursor_capacity :: nat
  max_cursor_bytes :: nat
  cursor_ttl :: nat

text \<open>Durations are in nanoseconds.\<close>

definition read_limits_default :: read_limits where
  "read_limits_default =
     \<lparr>max_input_bytes = 65536, max_ids = 512, max_ast_nodes = 256, max_ast_depth = 32, max_candidates = 10000,
      max_forward_edges = 4096, max_inverse_edges = 4096, max_value_nodes = 100000, max_work = 4000000,
      max_retained_bytes = 16777216, max_value_depth = 64, max_rows = 1000, max_output_bytes = 1048576,
      max_regex_source_bytes = 65536, max_regex_bytes = 262144, max_concurrent = 8, max_queued = 16,
      max_duration = 5000000000, cursor_capacity = 128, max_cursor_bytes = 4194304, cursor_ttl = 60000000000\<rparr>"

record usage =
  us_input :: nat
  us_work :: nat
  us_retained :: nat
  us_values :: nat
  us_candidates :: nat
  us_forward :: nat
  us_inverse :: nat

definition usage_default :: usage where
  "usage_default =
     \<lparr>us_input = 0, us_work = 0, us_retained = 0, us_values = 0, us_candidates = 0, us_forward = 0, us_inverse = 0\<rparr>"

text \<open>The session an invocation belongs to, as one check finds it.\<close>

record session_view =
  sv_now :: nat
  sv_expires_at :: "nat option"
  sv_active :: bool
  sv_acknowledgment :: bool

record observation =
  ob_now :: nat
  ob_cancelled :: bool
  ob_owner_cancelled :: "bool option"
  ob_session :: "session_view option"

record budget =
  bud_limits :: read_limits
  bud_deadline :: nat
  bud_world :: "nat \<Rightarrow> observation"
  bud_usage :: usage
  bud_checks :: nat

definition new_budget :: "read_limits \<Rightarrow> nat \<Rightarrow> (nat \<Rightarrow> observation) \<Rightarrow> budget" where
  "new_budget limits deadline world =
     \<lparr>bud_limits = limits, bud_deadline = deadline, bud_world = world, bud_usage = usage_default, bud_checks = 0\<rparr>"

section \<open>Checks and charges\<close>

definition fence_check :: "session_view \<Rightarrow> (read_error, unit) res" where
  "fence_check s =
     (if (case sv_expires_at s of Some expires \<Rightarrow> expires \<le> sv_now s | None \<Rightarrow> False) \<or>
         \<not> sv_active s \<and> \<not> sv_acknowledgment s
      then Inl (Err Forbidden) else Inr ())"

definition look :: "nat \<Rightarrow> observation \<Rightarrow> (read_error, unit) res" where
  "look deadline ob =
     (if deadline \<le> ob_now ob then Inl (Err Deadline)
      else if ob_cancelled ob \<or> (case ob_owner_cancelled ob of Some c \<Rightarrow> c | None \<Rightarrow> False)
      then Inl (Err Cancelled)
      else (case ob_session ob of Some s \<Rightarrow> fence_check s | None \<Rightarrow> Inr ()))"

definition budget_check :: "(budget, read_error, unit) metered" where
  "budget_check b =
     rbind (look (bud_deadline b) (bud_world b (bud_checks b))) (\<lambda>_.
     Inr ((), b\<lparr>bud_checks := bud_checks b + 1\<rparr>))"

definition work_remaining :: "budget \<Rightarrow> nat" where
  "work_remaining b = max_work (bud_limits b) - us_work (bud_usage b)"

definition retained_remaining :: "budget \<Rightarrow> nat" where
  "retained_remaining b = max_retained_bytes (bud_limits b) - us_retained (bud_usage b)"

text \<open>The counter a kind is charged to, its limit and its update; the other kinds have none.\<close>

fun meter :: "budget_kind \<Rightarrow> ((usage \<Rightarrow> nat) \<times> (read_limits \<Rightarrow> nat) \<times> (nat \<Rightarrow> usage \<Rightarrow> usage)) option" where
  "meter Input = Some (us_input, max_input_bytes, \<lambda>n u. u\<lparr>us_input := n\<rparr>)"
| "meter Work = Some (us_work, max_work, \<lambda>n u. u\<lparr>us_work := n\<rparr>)"
| "meter Retained = Some (us_retained, max_retained_bytes, \<lambda>n u. u\<lparr>us_retained := n\<rparr>)"
| "meter ValuesKind = Some (us_values, max_value_nodes, \<lambda>n u. u\<lparr>us_values := n\<rparr>)"
| "meter Candidates = Some (us_candidates, max_candidates, \<lambda>n u. u\<lparr>us_candidates := n\<rparr>)"
| "meter Forward = Some (us_forward, max_forward_edges, \<lambda>n u. u\<lparr>us_forward := n\<rparr>)"
| "meter Inverse = Some (us_inverse, max_inverse_edges, \<lambda>n u. u\<lparr>us_inverse := n\<rparr>)"
| "meter _ = None"

definition budget_charge :: "budget_kind \<Rightarrow> nat \<Rightarrow> (budget, read_error, unit) metered" where
  "budget_charge kind amount =
     mseq budget_check (\<lambda>b.
     case meter kind of
       None \<Rightarrow> Inl (Err (BudgetExceeded kind))
     | Some (used, limit, put) \<Rightarrow>
         if limit (bud_limits b) - used (bud_usage b) < amount then Inl (Err (BudgetExceeded kind))
         else Inr ((), b\<lparr>bud_usage := put (used (bud_usage b) + amount) (bud_usage b)\<rparr>))"

definition depth_check :: "nat \<Rightarrow> (budget, read_error, unit) metered" where
  "depth_check depth =
     mseq budget_check (\<lambda>b.
     if max_value_depth (bud_limits b) < depth then Inl (Err (BudgetExceeded Depth)) else Inr ((), b))"

definition copy_string :: "string \<Rightarrow> (budget, read_error, string) metered" where
  "copy_string s =
     mseq (budget_charge Work (saturating_add (length s) 1))
     (mseq (budget_charge Retained (saturating_add (length s) 32))
     (mret s))"

text \<open>What a codec reports while it works, charged to the same budget.\<close>

datatype codec_charge =
    ChargeInput nat
  | ChargeOutput nat
  | ChargeWork nat
  | ChargeRetained nat
  | ChargeNodes nat
  | ChargeDepth nat

definition codec_limit :: "nat \<Rightarrow> (read_limits \<Rightarrow> nat) \<Rightarrow> budget_kind \<Rightarrow> (budget, read_error, unit) metered" where
  "codec_limit n limit kind b =
     (if limit (bud_limits b) < n then Inl (Err (BudgetExceeded kind)) else Inr ((), b))"

fun codec_cost :: "codec_charge \<Rightarrow> (budget, read_error, unit) metered" where
  "codec_cost (ChargeInput n) = codec_limit n max_input_bytes Input"
| "codec_cost (ChargeOutput n) = codec_limit n max_output_bytes Output"
| "codec_cost (ChargeWork n) = budget_charge Work n"
| "codec_cost (ChargeRetained n) = budget_charge Retained n"
| "codec_cost (ChargeNodes n) = budget_charge ValuesKind n"
| "codec_cost (ChargeDepth n) = depth_check n"

definition jeto_charge :: "codec_charge \<Rightarrow> (budget, read_error, unit) metered" where
  "jeto_charge cost = mseq budget_check (codec_cost cost)"

section \<open>Usage stays within the limits\<close>

definition usage_le :: "usage \<Rightarrow> usage \<Rightarrow> bool" where
  "usage_le u u' \<longleftrightarrow>
     us_input u \<le> us_input u' \<and> us_work u \<le> us_work u' \<and> us_retained u \<le> us_retained u' \<and>
     us_values u \<le> us_values u' \<and> us_candidates u \<le> us_candidates u' \<and>
     us_forward u \<le> us_forward u' \<and> us_inverse u \<le> us_inverse u'"

definition within :: "budget \<Rightarrow> bool" where
  "within b \<longleftrightarrow>
     us_input (bud_usage b) \<le> max_input_bytes (bud_limits b) \<and> us_work (bud_usage b) \<le> max_work (bud_limits b) \<and>
     us_retained (bud_usage b) \<le> max_retained_bytes (bud_limits b) \<and>
     us_values (bud_usage b) \<le> max_value_nodes (bud_limits b) \<and>
     us_candidates (bud_usage b) \<le> max_candidates (bud_limits b) \<and>
     us_forward (bud_usage b) \<le> max_forward_edges (bud_limits b) \<and>
     us_inverse (bud_usage b) \<le> max_inverse_edges (bud_limits b)"

definition charged :: "budget \<Rightarrow> budget \<Rightarrow> bool" where
  "charged b b' \<longleftrightarrow>
     bud_limits b' = bud_limits b \<and> bud_deadline b' = bud_deadline b \<and> bud_world b' = bud_world b \<and>
     bud_checks b \<le> bud_checks b' \<and> usage_le (bud_usage b) (bud_usage b') \<and> (within b \<longrightarrow> within b')"

text \<open>The reasons for which a metered computation may stop.\<close>

fun stop_reason :: "read_error fault \<Rightarrow> bool" where
  "stop_reason (Err Deadline) = True"
| "stop_reason (Err Cancelled) = True"
| "stop_reason (Err Forbidden) = True"
| "stop_reason (Err (BudgetExceeded _)) = True"
| "stop_reason _ = False"

definition thrifty :: "(budget, read_error, 'a) metered \<Rightarrow> bool" where
  "thrifty m \<longleftrightarrow> (\<forall>b. case m b of Inl e \<Rightarrow> stop_reason e | Inr (_, b') \<Rightarrow> charged b b')"

lemma charged_refl [simp]: "charged b b"
  by (simp add: charged_def usage_le_def)

lemma charged_trans: "charged a b \<Longrightarrow> charged b c \<Longrightarrow> charged a c"
  by (auto simp: charged_def usage_le_def)

lemma thrifty_mret [thrifty_rules]: "thrifty (mret a)"
  by (simp add: thrifty_def mret_def)

lemma thriftyI:
  "(\<And>b e. m b = Inl e \<Longrightarrow> stop_reason e) \<Longrightarrow> (\<And>b a b'. m b = Inr (a, b') \<Longrightarrow> charged b b') \<Longrightarrow> thrifty m"
  by (auto simp: thrifty_def split: sum.split)

lemma thriftyD:
  "thrifty m \<Longrightarrow> m b = Inl e \<Longrightarrow> stop_reason e"
  "thrifty m \<Longrightarrow> m b = Inr (a, b') \<Longrightarrow> charged b b'"
  by (auto simp: thrifty_def split: sum.splits dest: spec [of _ b])

lemma thrifty_mbind_answers:
  assumes "thrifty m" "answers m a" "thrifty (f a)"
  shows "thrifty (mbind m f)"
proof (rule thriftyI)
  fix b e
  assume "mbind m f b = Inl e"
  then show "stop_reason e"
    using assms by (cases "m b") (auto simp: mbind_def dest: thriftyD answersD)
next
  fix b c b'
  assume "mbind m f b = Inr (c, b')"
  then obtain x b1 where x: "m b = Inr (x, b1)" "f x b1 = Inr (c, b')" by (auto simp: mbind_def)
  have "f a b1 = Inr (c, b')" using x answersD [OF assms(2) x(1)] by simp
  then show "charged b b'"
    using charged_trans [OF thriftyD(2) [OF assms(1) x(1)] thriftyD(2) [OF assms(3)]] by blast
qed

lemma thrifty_mbind [thrifty_rules]:
  assumes "thrifty m" "\<And>a. thrifty (f a)"
  shows "thrifty (mbind m f)"
proof (rule thriftyI)
  fix b e
  assume "mbind m f b = Inl e"
  then show "stop_reason e"
    using assms by (cases "m b") (auto simp: mbind_def dest: thriftyD)
next
  fix b c b'
  assume "mbind m f b = Inr (c, b')"
  then show "charged b b'"
    using assms by (auto simp: mbind_def dest!: thriftyD(2) intro: charged_trans)
qed

lemma thrifty_mseq [thrifty_rules]: "thrifty m \<Longrightarrow> thrifty n \<Longrightarrow> thrifty (mseq m n)"
  unfolding mseq_def by (rule thrifty_mbind)

lemma look_stop: "look d ob = Inl e \<Longrightarrow> stop_reason e"
  by (auto simp: look_def fence_check_def split: if_splits option.splits)

lemma thrifty_check [thrifty_rules]: "thrifty budget_check"
proof (rule thriftyI)
  fix b e
  assume "budget_check b = Inl e"
  then show "stop_reason e"
    by (cases "look (bud_deadline b) (bud_world b (bud_checks b))") (auto simp: budget_check_def dest: look_stop)
qed (auto simp: budget_check_def charged_def usage_le_def within_def)

lemma meter_le:
  "meter kind = Some (used, limit, put) \<Longrightarrow> amount \<le> limit (bud_limits b) - used (bud_usage b) \<Longrightarrow>
   charged b (b\<lparr>bud_usage := put (used (bud_usage b) + amount) (bud_usage b)\<rparr>)"
  by (cases kind) (auto simp: charged_def usage_le_def within_def)

lemma thrifty_charge [thrifty_rules]: "thrifty (budget_charge kind amount)"
  unfolding budget_charge_def
  by (rule thrifty_mseq [OF thrifty_check], rule thriftyI)
    (auto split: option.splits if_splits intro!: meter_le)

lemma thrifty_depth [thrifty_rules]: "thrifty (depth_check depth)"
  unfolding depth_check_def
  by (rule thrifty_mseq [OF thrifty_check], rule thriftyI) (auto split: if_splits)

lemma thrifty_copy_string [thrifty_rules]: "thrifty (copy_string s)"
  unfolding copy_string_def by (intro thrifty_mseq thrifty_charge thrifty_mret)

lemma thrifty_jeto [thrifty_rules]: "thrifty (jeto_charge cost)"
proof -
  have "thrifty (codec_limit n limit kind)" for n limit kind
    by (rule thriftyI) (auto simp: codec_limit_def split: if_splits)
  then show ?thesis unfolding jeto_charge_def by (cases cost) (simp_all add: thrifty_rules)
qed

lemma answers_copy_string [answers_rules]: "answers (copy_string s) s"
  unfolding copy_string_def by (intro answers_mseq answers_mret)

section \<open>Enough allowance is enough\<close>

text \<open>The outside world lets every check pass.\<close>

definition undisturbed :: "budget \<Rightarrow> bool" where
  "undisturbed b \<longleftrightarrow> (\<forall>n. look (bud_deadline b) (bud_world b n) = Inr ())"

text \<open>Every counter has \<open>n\<close> left, and values may be nested \<open>d\<close> deep.\<close>

definition allows :: "nat \<Rightarrow> nat \<Rightarrow> budget \<Rightarrow> bool" where
  "allows n d b \<longleftrightarrow>
     us_input (bud_usage b) + n \<le> max_input_bytes (bud_limits b) \<and>
     us_work (bud_usage b) + n \<le> max_work (bud_limits b) \<and>
     us_retained (bud_usage b) + n \<le> max_retained_bytes (bud_limits b) \<and>
     us_values (bud_usage b) + n \<le> max_value_nodes (bud_limits b) \<and>
     us_candidates (bud_usage b) + n \<le> max_candidates (bud_limits b) \<and>
     us_forward (bud_usage b) + n \<le> max_forward_edges (bud_limits b) \<and>
     us_inverse (bud_usage b) + n \<le> max_inverse_edges (bud_limits b) \<and>
     d \<le> max_value_depth (bud_limits b)"

text \<open>With an allowance of \<open>n\<close> and depth \<open>d\<close> the computation returns and spends at most \<open>n\<close>.\<close>

definition costs :: "(budget, read_error, 'a) metered \<Rightarrow> nat \<Rightarrow> nat \<Rightarrow> bool" where
  "costs m n d \<longleftrightarrow>
     (\<forall>b k d'. d \<le> d' \<and> undisturbed b \<and> allows (n + k) d' b \<longrightarrow>
        (\<exists>a b'. m b = Inr (a, b') \<and> undisturbed b' \<and> allows k d' b'))"

definition affordable :: "(budget, read_error, 'a) metered \<Rightarrow> bool" where
  "affordable m \<longleftrightarrow> (\<exists>n d. costs m n d)"

lemma costsD:
  assumes "costs m n d" "d \<le> d'" "undisturbed b" "allows (n + k) d' b"
  obtains a b' where "m b = Inr (a, b')" "undisturbed b'" "allows k d' b'"
  using assms unfolding costs_def by blast

lemma affordable_mret [affordable_rules]: "affordable (mret a)"
  unfolding affordable_def by (rule exI [of _ 0], rule exI [of _ 0]) (simp add: costs_def mret_def)

lemma affordable_mbind:
  assumes "affordable m" "answers m a" "affordable (f a)"
  shows "affordable (mbind m f)"
proof -
  obtain n d n' d' where c: "costs m n d" "costs (f a) n' d'" using assms(1,3) unfolding affordable_def by blast
  have "costs (mbind m f) (n + n') (max d d')"
    unfolding costs_def
  proof (intro allI impI, elim conjE)
    fix b k e
    assume b: "max d d' \<le> e" "undisturbed b" "allows (n + n' + k) e b"
    then obtain x b1 where x: "m b = Inr (x, b1)" "undisturbed b1" "allows (n' + k) e b1"
      using costsD [OF c(1), of e b "n' + k"] by (auto simp: add.assoc)
    moreover have "x = a" using answersD [OF assms(2) x(1)] .
    moreover from x b(1) obtain y b2 where "f a b1 = Inr (y, b2)" "undisturbed b2" "allows k e b2"
      using costsD [OF c(2), of e b1 k] by auto
    ultimately show "\<exists>r b'. mbind m f b = Inr (r, b') \<and> undisturbed b' \<and> allows k e b'"
      by (simp add: mbind_def)
  qed
  then show ?thesis unfolding affordable_def by blast
qed

lemma affordable_mseq [affordable_rules]: "affordable m \<Longrightarrow> affordable n \<Longrightarrow> affordable (mseq m n)"
  unfolding mseq_def by (rule affordable_mbind [OF _ answers_unit])

lemma check_undisturbed:
  "undisturbed b \<Longrightarrow> budget_check b = Inr ((), b\<lparr>bud_checks := bud_checks b + 1\<rparr>)"
  by (simp add: budget_check_def undisturbed_def)

lemma undisturbed_update [simp]:
  "undisturbed (b\<lparr>bud_checks := n\<rparr>) = undisturbed b" "undisturbed (b\<lparr>bud_usage := u\<rparr>) = undisturbed b"
  by (simp_all add: undisturbed_def)

lemma allows_checks [simp]: "allows n d (b\<lparr>bud_checks := c\<rparr>) = allows n d b"
  by (simp add: allows_def)

lemma affordable_check [affordable_rules]: "affordable budget_check"
  unfolding affordable_def by (rule exI [of _ 0], rule exI [of _ 0]) (simp add: costs_def check_undisturbed)

lemma affordable_charge:
  assumes "meter kind \<noteq> None"
  shows "affordable (budget_charge kind amount)"
proof -
  obtain used limit put where m: "meter kind = Some (used, limit, put)" using assms by auto
  have "costs (budget_charge kind amount) amount 0"
    unfolding costs_def
  proof (intro allI impI, elim conjE)
    fix b k d
    assume b: "undisturbed b" "allows (amount + k) d b"
    then have room: "\<not> limit (bud_limits b) - used (bud_usage b) < amount"
      and left: "allows k d (b\<lparr>bud_checks := bud_checks b + 1, bud_usage := put (used (bud_usage b) + amount) (bud_usage b)\<rparr>)"
      using m by (cases kind; auto simp: allows_def)+
    have "budget_charge kind amount b =
        Inr ((), b\<lparr>bud_checks := bud_checks b + 1, bud_usage := put (used (bud_usage b) + amount) (bud_usage b)\<rparr>)"
      using room by (simp add: budget_charge_def mseq_def mbind_def check_undisturbed [OF b(1)] m)
    with left b(1) show "\<exists>a b'. budget_charge kind amount b = Inr (a, b') \<and> undisturbed b' \<and> allows k d b'"
      by simp
  qed
  then show ?thesis unfolding affordable_def by blast
qed

lemma affordable_charges [affordable_rules]:
  "affordable (budget_charge Work n)" "affordable (budget_charge Retained n)" "affordable (budget_charge ValuesKind n)"
  "affordable (budget_charge Forward n)" "affordable (budget_charge Inverse n)"
  by (simp_all add: affordable_charge)

lemma affordable_depth [affordable_rules]: "affordable (depth_check depth)"
  unfolding affordable_def
  by (rule exI [of _ 0], rule exI [of _ depth])
    (simp add: costs_def depth_check_def mseq_def mbind_def check_undisturbed allows_def)

lemma affordable_copy_string [affordable_rules]: "affordable (copy_string s)"
  unfolding copy_string_def by (intro affordable_mseq affordable_charges affordable_mret)

text \<open>A budget that allows \<open>n\<close> and \<open>d\<close> and that nothing disturbs.\<close>

definition ample :: "nat \<Rightarrow> nat \<Rightarrow> budget" where
  "ample n d =
     new_budget
       (read_limits_default\<lparr>max_input_bytes := n, max_candidates := n, max_forward_edges := n, max_inverse_edges := n,
        max_value_nodes := n, max_work := n, max_retained_bytes := n, max_value_depth := d\<rparr>)
       1 (\<lambda>_. \<lparr>ob_now = 0, ob_cancelled = False, ob_owner_cancelled = None, ob_session = None\<rparr>)"

lemma ample_allows: "undisturbed (ample n d)" "allows n d (ample n d)"
  by (simp_all add: ample_def new_budget_def undisturbed_def look_def allows_def usage_default_def)

lemma costs_returns:
  assumes "costs m n d" "undisturbed b" "allows n d b"
  shows "\<exists>a b'. m b = Inr (a, b')"
proof -
  have "allows (n + 0) d b" using assms(3) by simp
  then obtain a b' where "m b = Inr (a, b')" by (rule costsD [OF assms(1) order_refl assms(2)])
  then show ?thesis by blast
qed

lemma affordable_returns:
  assumes "affordable m"
  obtains n d a b' where "m (ample n d) = Inr (a, b')"
  using assms costs_returns ample_allows unfolding affordable_def by blast

end
