(* ===== verification/Filter_Controlled.thy ===== *)
theory Filter_Controlled
  imports Filter_Eval Budget
begin

text \<open>
  Filter evaluation that may be stopped: \<open>filter/controlled.rs\<close>.

  The evaluator reaches the store only through a \<open>QueryEnvironment\<close>, whose operations charge work and
  may fail; they are the fields of \<open>query_env\<close>, metered computations over the environment's state.
  Whether an entity fits a spec term (\<open>fits_term\<close>) is an argument, as it is for the plain evaluator.

  The contract of an environment is the locale \<open>environment\<close>: following a reference answers what a query
  context answers.  Under it the controlled evaluator, when it is not stopped, agrees with the plain
  evaluator of \<open>filter/eval.rs\<close>.
\<close>

datatype catalog_kind = CatDefinition | CatLibrary | CatSpec

record ('s, 'e) query_env =
  qe_work :: "nat \<Rightarrow> ('s, 'e, unit) metered"
  qe_retain :: "nat \<Rightarrow> ('s, 'e, unit) metered"
  qe_depth :: "nat \<Rightarrow> ('s, 'e, unit) metered"
  qe_comparison :: "kind \<Rightarrow> kind \<Rightarrow> ('s, 'e, unit) metered"
  qe_forward :: "href \<Rightarrow> ('s, 'e, hdict option) metered"
  qe_inverse :: "href \<Rightarrow> string \<Rightarrow> ('s, 'e, hdict list) metered"
  qe_catalog_visible :: "catalog_kind \<Rightarrow> string \<Rightarrow> ('s, 'e, bool) metered"

section \<open>Evaluation\<close>

text \<open>The entity that holds the last segment of a path.\<close>

fun walk_to_owner :: "('s, 'e) query_env \<Rightarrow> hdict \<Rightarrow> string list \<Rightarrow> ('s, 'e, hdict option) metered" where
  "walk_to_owner env e [] = mret None"
| "walk_to_owner env e [seg] = mret (Some e)"
| "walk_to_owner env e (tag # segs) =
     mseq (qe_work env 1)
     (case dict_get e tag of
        Some (KRef r) \<Rightarrow>
          mbind (qe_forward env r) (\<lambda>next.
          case next of Some e' \<Rightarrow> walk_to_owner env e' segs | None \<Rightarrow> mret None)
      | _ \<Rightarrow> mret None)"

fun resolve_owner :: "('s, 'e) query_env \<Rightarrow> hdict \<Rightarrow> path \<Rightarrow> ('s, 'e, hdict option) metered" where
  "resolve_owner env e (Path segs) = walk_to_owner env e segs"

text \<open>\<open>path.0.last()\<close>, where the caller expects a segment.\<close>

fun path_last :: "path \<Rightarrow> string option" where
  "path_last (Path segs) = (if segs = [] then None else Some (last segs))"

definition expect_last :: "path \<Rightarrow> ('s, 'e, string) metered" where
  "expect_last p s = rbind (expect (path_last p)) (\<lambda>t. Inr (t, s))"

fun matches_at ::
  "('s, 'e) query_env \<Rightarrow> (namespace \<Rightarrow> hdict \<Rightarrow> string \<Rightarrow> nat \<Rightarrow> ('s, 'e, bool) metered) \<Rightarrow>
   namespace option \<Rightarrow> filter_node \<Rightarrow> hdict \<Rightarrow> nat \<Rightarrow> ('s, 'e, bool) metered" where
  "matches_at env fits ns (Has p) e depth =
     mseq (qe_depth env depth) (mseq (qe_work env 1)
     (mbind (resolve_owner env e p) (\<lambda>owner.
      case owner of None \<Rightarrow> mret False | Some e \<Rightarrow> mbind (expect_last p) (\<lambda>t. mret (dict_has e t)))))"
| "matches_at env fits ns (Missing p) e depth =
     mseq (qe_depth env depth) (mseq (qe_work env 1)
     (mbind (resolve_owner env e p) (\<lambda>owner.
      case owner of None \<Rightarrow> mret True | Some e \<Rightarrow> mbind (expect_last p) (\<lambda>t. mret (dict_missing e t)))))"
| "matches_at env fits ns (Cmp p op val) e depth =
     mseq (qe_depth env depth) (mseq (qe_work env 1)
     (mbind (resolve_owner env e p) (\<lambda>owner.
      case Option.bind owner (\<lambda>e. Option.bind (path_last p) (dict_get e)) of
        Some actual \<Rightarrow> mseq (qe_comparison env actual val) (mret (compare actual op val))
      | None \<Rightarrow> mret False)))"
| "matches_at env fits ns (And l r) e depth =
     mseq (qe_depth env depth) (mseq (qe_work env 1)
     (mbind (matches_at env fits ns l e (depth + 1)) (\<lambda>ok.
      if ok then matches_at env fits ns r e (depth + 1) else mret False)))"
| "matches_at env fits ns (Or l r) e depth =
     mseq (qe_depth env depth) (mseq (qe_work env 1)
     (mbind (matches_at env fits ns l e (depth + 1)) (\<lambda>ok.
      if ok then mret True else matches_at env fits ns r e (depth + 1))))"
| "matches_at env fits ns (SpecMatch term) e depth =
     mseq (qe_depth env depth) (mseq (qe_work env 1)
     (case ns of Some n \<Rightarrow> fits n e term (depth + 1) | None \<Rightarrow> mret False))"

definition matches_controlled ::
  "('s, 'e) query_env \<Rightarrow> (namespace \<Rightarrow> hdict \<Rightarrow> string \<Rightarrow> nat \<Rightarrow> ('s, 'e, bool) metered) \<Rightarrow>
   namespace option \<Rightarrow> filter_node \<Rightarrow> hdict \<Rightarrow> ('s, 'e, bool) metered" where
  "matches_controlled env fits ns node e = matches_at env fits ns node e 1"

section \<open>The contract of an environment\<close>

fun owner_of :: "(href \<Rightarrow> hdict option) \<Rightarrow> string list \<Rightarrow> hdict \<Rightarrow> hdict option" where
  "owner_of resolve [] e = None"
| "owner_of resolve [seg] e = Some e"
| "owner_of resolve (tag # segs) e =
     (case dict_get e tag of
        Some (KRef r) \<Rightarrow> (case resolve r of Some e' \<Rightarrow> owner_of resolve segs e' | None \<Rightarrow> None)
      | _ \<Rightarrow> None)"

lemma owner_of_walk:
  "walk_path resolve segs e = Option.bind (owner_of resolve segs e) (\<lambda>e. Option.bind (path_last (Path segs)) (dict_get e))"
  by (induction resolve segs e rule: owner_of.induct) (auto split: option.split kind.split)

lemma owner_of_resolve:
  "resolve_path (Path segs) e (Some c) =
   Option.bind (owner_of (forward c) segs e) (\<lambda>e. Option.bind (path_last (Path segs)) (dict_get e))"
  by (cases "length segs = 1") (auto simp: length_Suc_conv owner_of_walk)

lemma owner_segments: "owner_of resolve segs e = Some o' \<Longrightarrow> path_last (Path segs) = Some (last segs)"
  by (cases segs) auto

lemma answers_expect_last: "path_last p = Some t \<Longrightarrow> answers (expect_last p) t"
  by (simp add: answers_def expect_last_def)

lemma owner_last:
  "owner_of resolve segs e = Some o' \<Longrightarrow> answers (f (last segs)) a \<Longrightarrow> answers (mbind (expect_last (Path segs)) f) a"
  by (rule answers_mbind [OF answers_expect_last [OF owner_segments]])

lemma dict_missing_get: "dict_missing d k \<longleftrightarrow> dict_get d k = None"
  by (simp add: dict_missing_def dict_get_def)

locale environment =
  fixes env :: "('s, 'e) query_env"
    and ctx :: query_context
  assumes forward_answers: "answers (qe_forward env r) (forward ctx r)"
begin

lemma walk_answers: "answers (walk_to_owner env e segs) (owner_of (forward ctx) segs e)"
proof (induction "forward ctx" segs e rule: owner_of.induct)
  case (3 tag s segs e)
  have "answers (mbind (qe_forward env r) (\<lambda>next. case next of Some e' \<Rightarrow> walk_to_owner env e' (s # segs) | None \<Rightarrow> mret None))
      (case forward ctx r of Some e' \<Rightarrow> owner_of (forward ctx) (s # segs) e' | None \<Rightarrow> None)"
    if "dict_get e tag = Some (KRef r)" for r
    by (rule answers_mbind [OF forward_answers]) (auto intro: answers_rules "3" [OF that] split: option.split)
  then show ?case by (auto intro!: answers_rules split: option.split kind.split)
qed (auto intro: answers_rules)

end

locale query_environment = environment env ctx
  for env :: "('s, 'e) query_env" and ctx :: query_context +
  fixes fits :: "namespace \<Rightarrow> hdict \<Rightarrow> string \<Rightarrow> nat \<Rightarrow> ('s, 'e, bool) metered"
    and ns :: "namespace option"
  assumes fits_answers: "ns = Some n \<Longrightarrow> answers (fits n e t d) (fits_spec_term_with n e t (Some ctx))"
begin

lemma matches_answers: "answers (matches_at env fits ns node e depth) (matches_with_ns node e (Some ctx) ns)"
proof (induction node arbitrary: depth)
  case (Has p)
  obtain segs where p: "p = Path segs" by (cases p)
  show ?case
    unfolding p matches_at.simps matches_with_ns.simps resolve_owner.simps owner_of_resolve
    by (intro answers_mseq answers_mbind [OF walk_answers])
      (auto intro!: answers_mret owner_last simp: dict_has_get split: option.split dest: owner_segments)
next
  case (Missing p)
  obtain segs where p: "p = Path segs" by (cases p)
  show ?case
    unfolding p matches_at.simps matches_with_ns.simps resolve_owner.simps owner_of_resolve
    by (intro answers_mseq answers_mbind [OF walk_answers])
      (auto intro!: answers_mret owner_last simp: dict_missing_get split: option.split dest: owner_segments)
next
  case (Cmp p op val)
  obtain segs where p: "p = Path segs" by (cases p)
  show ?case
    unfolding p matches_at.simps matches_with_ns.simps resolve_owner.simps owner_of_resolve
    by (intro answers_mseq answers_mbind [OF walk_answers]) (auto intro!: answers_rules split: option.split)
next
  case (And l r)
  then show ?case by (auto intro!: answers_mseq answers_mbind [OF And.IH(1)] answers_mret)
next
  case (Or l r)
  then show ?case by (auto intro!: answers_mseq answers_mbind [OF Or.IH(1)] answers_mret)
next
  case (SpecMatch s)
  show ?case by (cases ns) (auto intro!: answers_mseq answers_mret fits_answers)
qed

end

end
