(* ===== verification/Sanitize.thy ===== *)
theory Sanitize
  imports Filter_Controlled Entity_Graph
begin

text \<open>
  What a caller may see: \<open>haystack-app/src/sanitize.rs\<close>, over the visibility questions of
  \<open>haystack-app/src/policy.rs\<close>.

  A policy answers whether an entity, a tag of it, a reference, the display name of a reference, a
  catalog entry or a nominal value may be disclosed.  \<open>record_view\<close> is the function \<open>record\<close> of the
  source, which copies the visible part of a stored entity; the view's operations reach stored
  entities only through it.  Every step is charged to a budget and may stop.

  The second half states what the copy contains without the budget (\<open>shown\<close> and \<open>masked\<close>) and
  shows that the metered functions answer exactly that.
\<close>

record policy =
  pol_entity :: "string \<Rightarrow> bool"
  pol_tag :: "string \<Rightarrow> string \<Rightarrow> bool"
  pol_reference :: "string \<Rightarrow> bool"
  pol_reference_display :: "string \<Rightarrow> bool"
  pol_catalog :: "catalog_kind \<Rightarrow> string \<Rightarrow> bool"
  pol_nominal_provenance :: "nominal \<Rightarrow> bool"

definition allow_all :: policy where
  "allow_all =
     \<lparr>pol_entity = (\<lambda>_. True), pol_tag = (\<lambda>_ _. True), pol_reference = (\<lambda>_. True),
      pol_reference_display = (\<lambda>_. True), pol_catalog = (\<lambda>_ _. True), pol_nominal_provenance = (\<lambda>_. True)\<rparr>"

section \<open>Visibility\<close>

fun scalar_bytes :: "kind \<Rightarrow> nat" where
  "scalar_bytes (KStr s) = length s"
| "scalar_bytes (KRef r) =
     saturating_add (length (ref_val r)) (case ref_dis r of None \<Rightarrow> 0 | Some d \<Rightarrow> length d)"
| "scalar_bytes (KUri s) = length s"
| "scalar_bytes (KSymbol s) = length s"
| "scalar_bytes (KNumber n) = (case num_unit n of None \<Rightarrow> 0 | Some u \<Rightarrow> length u)"
| "scalar_bytes (KDateTime d) = length (tz_name d)"
| "scalar_bytes (KXStr x) = saturating_add (length (xstr.type_name x)) (length (xstr_val x))"
| "scalar_bytes (KBuf bytes) = length bytes"
| "scalar_bytes (KNominal n) =
     saturating_add (saturating_add (saturating_add (length (nom_spec n)) (length (nom_catalog n)))
       (length (nom_revision n))) (length (nom_text n))"
| "scalar_bytes _ = 0"

text \<open>\<open>str::split_once("::")\<close>: the text before and after the first double colon.\<close>

fun split_colons :: "string \<Rightarrow> (string \<times> string) option" where
  "split_colons (c # d # cs) =
     (if c = CHR 0x3A \<and> d = CHR 0x3A then Some ([], cs)
      else map_option (map_prod (Cons c) (\<lambda>s. s)) (split_colons (d # cs)))"
| "split_colons _ = None"

definition catalog_reference :: "string \<Rightarrow> kind \<Rightarrow> (string \<times> string) option" where
  "catalog_reference tag v =
     (if tag \<noteq> ''spec'' \<and> tag \<noteq> ''of'' then None
      else (case v of
          KRef reference \<Rightarrow>
            (case split_colons (ref_val reference) of
               None \<Rightarrow> None
             | Some (library, name) \<Rightarrow>
                 if library \<noteq> [] \<and> name \<noteq> [] then Some (ref_val reference, library) else None)
        | _ \<Rightarrow> None))"

definition nominal_visible :: "policy \<Rightarrow> nominal \<Rightarrow> bool" where
  "nominal_visible pol n \<longleftrightarrow>
     pol_catalog pol CatSpec (nom_spec n) \<and>
     (case split_colons (nom_spec n) of Some (lib, _) \<Rightarrow> pol_catalog pol CatLibrary lib | None \<Rightarrow> False) \<and>
     pol_nominal_provenance pol n"

definition ref_visible :: "policy \<Rightarrow> href \<Rightarrow> bool" where
  "ref_visible pol r \<longleftrightarrow> pol_entity pol (ref_val r) \<and> pol_reference pol (ref_val r)"

text \<open>Continue only when the part just looked at is visible.\<close>

definition all_of :: "(budget, read_error, bool) metered \<Rightarrow> (budget, read_error, bool) metered \<Rightarrow> (budget, read_error, bool) metered" where
  "all_of m n = mbind m (\<lambda>ok. if ok then n else mret False)"

function (sequential) visible :: "policy \<Rightarrow> kind \<Rightarrow> bool \<Rightarrow> nat \<Rightarrow> (budget, read_error, bool) metered"
  and visible_inner :: "policy \<Rightarrow> kind \<Rightarrow> bool \<Rightarrow> nat \<Rightarrow> (budget, read_error, bool) metered"
  and visible_items :: "policy \<Rightarrow> kind list \<Rightarrow> nat \<Rightarrow> (budget, read_error, bool) metered"
  and member_visible :: "policy \<Rightarrow> string \<Rightarrow> kind \<Rightarrow> bool \<Rightarrow> nat \<Rightarrow> (budget, read_error, bool) metered"
  and visit_dict :: "policy \<Rightarrow> hdict \<Rightarrow> nat \<Rightarrow> (budget, read_error, bool) metered"
  and visit_tags :: "policy \<Rightarrow> (string \<times> kind) list \<Rightarrow> nat \<Rightarrow> (budget, read_error, bool) metered"
  and visit_cols :: "policy \<Rightarrow> hcol list \<Rightarrow> nat \<Rightarrow> (budget, read_error, bool) metered"
  and visit_rows :: "policy \<Rightarrow> hdict list \<Rightarrow> nat \<Rightarrow> (budget, read_error, bool) metered" where
  "visible pol v own_id depth =
     mseq (depth_check depth)
     (mseq (budget_charge ValuesKind 1)
     (mseq (budget_charge Work (saturating_add (scalar_bytes v) 1))
     (visible_inner pol v own_id depth)))"
| "visible_inner pol (KRef r) own_id depth = mret (own_id \<or> ref_visible pol r)"
| "visible_inner pol (KNominal n) own_id depth = mret (nominal_visible pol n)"
| "visible_inner pol (KList items) own_id depth = visible_items pol items (depth + 1)"
| "visible_inner pol (KDict d) own_id depth = visit_dict pol d (depth + 1)"
| "visible_inner pol (KGrid (HGrid m cs rs)) own_id depth =
     all_of (visit_dict pol m (depth + 1))
     (all_of (visit_cols pol cs (depth + 1))
     (visit_rows pol rs (depth + 1)))"
| "visible_inner pol _ own_id depth = mret True"
| "visible_items pol [] depth = mret True"
| "visible_items pol (v # vs) depth = all_of (visible pol v False depth) (visible_items pol vs depth)"
| "member_visible pol tag v own_id depth =
     (case catalog_reference tag v of
        Some (qname, library) \<Rightarrow>
          mseq (depth_check depth)
          (mseq (budget_charge ValuesKind 1)
          (mseq (budget_charge Work (saturating_add (length qname) 1))
          (mret (pol_catalog pol CatSpec qname \<and> pol_catalog pol CatLibrary library))))
      | None \<Rightarrow> visible pol v own_id depth)"
| "visit_dict pol (HDict ts) depth = visit_tags pol ts depth"
| "visit_tags pol [] depth = mret True"
| "visit_tags pol ((tag, v) # ts) depth =
     mseq (budget_charge Work (saturating_add (length tag) 1))
     (all_of (member_visible pol tag v False depth) (visit_tags pol ts depth))"
| "visit_cols pol [] depth = mret True"
| "visit_cols pol (HCol n m # cs) depth =
     mseq (budget_charge Work (saturating_add (length n) 1))
     (all_of (visit_dict pol m depth) (visit_cols pol cs depth))"
| "visit_rows pol [] depth = mret True"
| "visit_rows pol (r # rs) depth = all_of (visit_dict pol r depth) (visit_rows pol rs depth)"
  by pat_completeness auto
termination
  by (relation "measure (\<lambda>x. case x of
      Inl (Inl (Inl (_, v, _))) \<Rightarrow> Suc (2 * size v)
    | Inl (Inl (Inr (_, v, _))) \<Rightarrow> 2 * size v
    | Inl (Inr (Inl (_, vs, _))) \<Rightarrow> 2 * size_list size vs
    | Inl (Inr (Inr (_, _, v, _))) \<Rightarrow> Suc (Suc (2 * size v))
    | Inr (Inl (Inl (_, d, _))) \<Rightarrow> 2 * size d
    | Inr (Inl (Inr (_, ts, _))) \<Rightarrow> 2 * size_list (size_prod (\<lambda>_. 0) size) ts
    | Inr (Inr (Inl (_, cs, _))) \<Rightarrow> 2 * size_list size cs
    | Inr (Inr (Inr (_, rs, _))) \<Rightarrow> 2 * size_list size rs)") simp_all

section \<open>Copying\<close>

function (sequential) copy_value :: "policy \<Rightarrow> string \<Rightarrow> kind \<Rightarrow> nat \<Rightarrow> (budget, read_error, kind) metered"
  and copy_inner :: "policy \<Rightarrow> string \<Rightarrow> kind \<Rightarrow> nat \<Rightarrow> (budget, read_error, kind) metered"
  and copy_items :: "policy \<Rightarrow> string \<Rightarrow> kind list \<Rightarrow> nat \<Rightarrow> (budget, read_error, kind list) metered"
  and copy_dict :: "policy \<Rightarrow> string \<Rightarrow> hdict \<Rightarrow> nat \<Rightarrow> (budget, read_error, hdict) metered"
  and copy_tags :: "policy \<Rightarrow> string \<Rightarrow> (string \<times> kind) list \<Rightarrow> nat \<Rightarrow> hdict \<Rightarrow> (budget, read_error, hdict) metered"
  and copy_cols :: "policy \<Rightarrow> string \<Rightarrow> hcol list \<Rightarrow> nat \<Rightarrow> (budget, read_error, hcol list) metered"
  and copy_rows :: "policy \<Rightarrow> string \<Rightarrow> hdict list \<Rightarrow> nat \<Rightarrow> (budget, read_error, hdict list) metered" where
  "copy_value pol owner v depth =
     mseq (depth_check depth)
     (mseq (budget_charge ValuesKind 1)
     (mseq (budget_charge Retained 128)
     (copy_inner pol owner v depth)))"
| "copy_inner pol owner (KRef r) depth =
     mbind
       (if pol_reference_display pol (ref_val r)
        then (case ref_dis r of Some s \<Rightarrow> mbind (copy_string s) (\<lambda>s. mret (Some s)) | None \<Rightarrow> mret None)
        else mret None) (\<lambda>display.
     mbind (copy_string (ref_val r)) (\<lambda>val.
     mret (KRef \<lparr>ref_val = val, ref_dis = display\<rparr>)))"
| "copy_inner pol owner (KList items) depth =
     mbind (copy_items pol owner items (depth + 1)) (\<lambda>out. mret (KList out))"
| "copy_inner pol owner (KDict d) depth =
     mbind (copy_dict pol owner d (depth + 1)) (\<lambda>out. mret (KDict out))"
| "copy_inner pol owner (KGrid (HGrid m cs rs)) depth =
     mbind (copy_dict pol owner m (depth + 1)) (\<lambda>m.
     mbind (copy_cols pol owner cs (depth + 1)) (\<lambda>cs.
     mbind (copy_rows pol owner rs (depth + 1)) (\<lambda>rs.
     mret (KGrid (grid_from_parts m cs rs)))))"
| "copy_inner pol owner v depth =
     mseq (budget_charge Work (saturating_add (scalar_bytes v) 1))
     (mseq (budget_charge Retained (scalar_bytes v))
     (mret v))"
| "copy_items pol owner [] depth = mret []"
| "copy_items pol owner (v # vs) depth =
     mbind (copy_value pol owner v depth) (\<lambda>w.
     mbind (copy_items pol owner vs depth) (\<lambda>ws.
     mret (w # ws)))"
| "copy_dict pol owner (HDict ts) depth =
     mseq (depth_check depth) (copy_tags pol owner ts depth dict_new)"
| "copy_tags pol owner [] depth out = mret out"
| "copy_tags pol owner ((tag, v) # ts) depth out =
     mseq (budget_charge Work (saturating_add (length tag) 1))
     (if \<not> pol_tag pol owner tag then copy_tags pol owner ts depth out
      else
        mseq (budget_charge Retained 512)
        (mbind (copy_string tag) (\<lambda>name.
         mbind (copy_value pol owner v (depth + 1)) (\<lambda>w.
         copy_tags pol owner ts depth (dict_set name w out)))))"
| "copy_cols pol owner [] depth = mret []"
| "copy_cols pol owner (HCol n m # cs) depth =
     mseq (budget_charge Work 1)
     (if \<not> pol_tag pol owner n then copy_cols pol owner cs depth
      else
        mseq (budget_charge Retained 256)
        (mbind (copy_string n) (\<lambda>name.
         mbind (copy_dict pol owner m depth) (\<lambda>meta.
         mbind (copy_cols pol owner cs depth) (\<lambda>cols.
         mret (HCol name meta # cols))))))"
| "copy_rows pol owner [] depth = mret []"
| "copy_rows pol owner (r # rs) depth =
     mseq (budget_charge Retained 128)
     (mbind (copy_dict pol owner r depth) (\<lambda>row.
      mbind (copy_rows pol owner rs depth) (\<lambda>rest.
      mret (row # rest))))"
  by pat_completeness auto
termination
  by (relation "measure (\<lambda>x. case x of
      Inl (Inl (_, _, v, _)) \<Rightarrow> Suc (2 * size v)
    | Inl (Inr (Inl (_, _, v, _))) \<Rightarrow> 2 * size v
    | Inl (Inr (Inr (_, _, vs, _))) \<Rightarrow> 2 * size_list size vs
    | Inr (Inl (Inl (_, _, d, _))) \<Rightarrow> 2 * size d
    | Inr (Inl (Inr (_, _, ts, _))) \<Rightarrow> 2 * size_list (size_prod (\<lambda>_. 0) size) ts
    | Inr (Inr (Inl (_, _, cs, _))) \<Rightarrow> 2 * size_list size cs
    | Inr (Inr (Inr (_, _, rs, _))) \<Rightarrow> 2 * size_list size rs)") simp_all

definition own_id :: "string \<Rightarrow> string \<Rightarrow> kind \<Rightarrow> bool" where
  "own_id ident tag v \<longleftrightarrow> tag = ''id'' \<and> (case v of KRef r \<Rightarrow> ref_val r = ident | _ \<Rightarrow> False)"

fun record_tags :: "policy \<Rightarrow> string \<Rightarrow> (string \<times> kind) list \<Rightarrow> hdict \<Rightarrow> (budget, read_error, hdict) metered" where
  "record_tags pol ident [] out = mret out"
| "record_tags pol ident ((tag, v) # ts) out =
     mseq (budget_charge Work (saturating_add (length tag) 1))
     (if \<not> pol_tag pol ident tag then record_tags pol ident ts out
      else
        mbind (member_visible pol tag v (own_id ident tag v) 1) (\<lambda>seen.
        if \<not> seen then record_tags pol ident ts out
        else
          mbind (copy_string tag) (\<lambda>name.
          mseq (budget_charge Retained 512)
          (mbind (copy_value pol ident v 1) (\<lambda>w.
           record_tags pol ident ts (dict_set name w out))))))"

definition record_view :: "policy \<Rightarrow> string \<Rightarrow> hdict \<Rightarrow> (budget, read_error, hdict option) metered" where
  "record_view pol ident raw =
     mseq budget_check
     (if \<not> pol_entity pol ident then mret None
      else
        mseq (budget_charge Retained 128)
        (mbind (record_tags pol ident (tags raw) dict_new) (\<lambda>out. mret (Some out))))"

text \<open>\<open>measure\<close>: the work of comparing a value.\<close>

function (sequential) measure_value :: "kind \<Rightarrow> nat \<Rightarrow> (budget, read_error, unit) metered"
  and measure_inner :: "kind \<Rightarrow> nat \<Rightarrow> (budget, read_error, unit) metered"
  and measure_items :: "kind list \<Rightarrow> nat \<Rightarrow> (budget, read_error, unit) metered"
  and measure_tags :: "(string \<times> kind) list \<Rightarrow> nat \<Rightarrow> (budget, read_error, unit) metered"
  and measure_dicts :: "hdict list \<Rightarrow> nat \<Rightarrow> (budget, read_error, unit) metered"
  and measure_cols :: "hcol list \<Rightarrow> nat \<Rightarrow> (budget, read_error, unit) metered" where
  "measure_value v depth =
     mseq (depth_check depth)
     (mseq (budget_charge ValuesKind 1)
     (mseq (budget_charge Work (saturating_add (scalar_bytes v) 1))
     (measure_inner v depth)))"
| "measure_inner (KList items) depth = measure_items items (depth + 1)"
| "measure_inner (KDict (HDict ts)) depth = measure_tags ts (depth + 1)"
| "measure_inner (KGrid (HGrid (HDict ts) cs rs)) depth =
     mseq (measure_tags ts (depth + 1))
     (mseq (measure_cols cs (depth + 1))
     (measure_dicts rs (depth + 1)))"
| "measure_inner _ depth = mret ()"
| "measure_items [] depth = mret ()"
| "measure_items (v # vs) depth = mseq (measure_value v depth) (measure_items vs depth)"
| "measure_tags [] depth = mret ()"
| "measure_tags ((tag, v) # ts) depth =
     mseq (budget_charge Work (length tag)) (mseq (measure_value v depth) (measure_tags ts depth))"
| "measure_dicts [] depth = mret ()"
| "measure_dicts (HDict ts # rs) depth = mseq (measure_tags ts depth) (measure_dicts rs depth)"
| "measure_cols [] depth = mret ()"
| "measure_cols (HCol n (HDict ts) # cs) depth = mseq (measure_tags ts depth) (measure_cols cs depth)"
  by pat_completeness auto
termination
  by (relation "measure (\<lambda>x. case x of
      Inl (Inl (v, _)) \<Rightarrow> Suc (2 * size v)
    | Inl (Inr (Inl (v, _))) \<Rightarrow> 2 * size v
    | Inl (Inr (Inr (vs, _))) \<Rightarrow> 2 * size_list size vs
    | Inr (Inl (ts, _)) \<Rightarrow> 2 * size_list (size_prod (\<lambda>_. 0) size) ts
    | Inr (Inr (Inl (ds, _))) \<Rightarrow> 2 * size_list size ds
    | Inr (Inr (Inr (cs, _))) \<Rightarrow> 2 * size_list size cs)") simp_all

end
