(* ===== verification/Sanitize_Correct.thy ===== *)
theory Sanitize_Correct
  imports Sanitize
begin

text \<open>
  What sanitizing answers, and what it discloses.

  \<open>shown\<close> and \<open>masked\<close> are the visibility test and the copy of \<open>sanitize.rs\<close> without budget; the
  metered functions answer exactly these, stay within the budget, and return when the allowance
  is large enough.  \<open>disclosed\<close> lists everything a value gives away (references, display names, tags,
  catalog names, nominal values): all of it is permitted in a copy of a visible value.
\<close>

section \<open>The answer without the budget\<close>

lemma col_meta_size: "c \<in> set cs \<Longrightarrow> size (col_meta c) \<le> size_list size cs"
  using size_list_member [of c cs size] by (cases c) auto

function (sequential) shown :: "policy \<Rightarrow> bool \<Rightarrow> kind \<Rightarrow> bool"
  and member_shown :: "policy \<Rightarrow> string \<Rightarrow> bool \<Rightarrow> kind \<Rightarrow> bool"
  and dict_shown :: "policy \<Rightarrow> hdict \<Rightarrow> bool" where
  "shown pol own (KRef r) = (own \<or> ref_visible pol r)"
| "shown pol own (KNominal n) = nominal_visible pol n"
| "shown pol own (KList vs) = list_all (shown pol False) vs"
| "shown pol own (KDict d) = dict_shown pol d"
| "shown pol own (KGrid (HGrid m cs rs)) =
     (dict_shown pol m \<and> list_all (\<lambda>c. dict_shown pol (col_meta c)) cs \<and> list_all (dict_shown pol) rs)"
| "shown pol own _ = True"
| "member_shown pol tag own v =
     (case catalog_reference tag v of
        Some (qname, library) \<Rightarrow> pol_catalog pol CatSpec qname \<and> pol_catalog pol CatLibrary library
      | None \<Rightarrow> shown pol own v)"
| "dict_shown pol (HDict ts) = list_all (\<lambda>(t, v). member_shown pol t False v) ts"
  by pat_completeness auto
termination
  apply (relation "measure (\<lambda>x. case x of
      Inl (_, _, v) \<Rightarrow> 2 * size v | Inr (Inl (_, _, _, v)) \<Rightarrow> Suc (2 * size v) | Inr (Inr (_, d)) \<Rightarrow> 2 * size d)")
  by (auto dest: size_list_member [where f = size] size_list_snd [where g = size] col_meta_size)

definition set_all :: "(string \<times> kind) list \<Rightarrow> hdict \<Rightarrow> hdict" where
  "set_all xs d = fold (\<lambda>(t, v). dict_set t v) xs d"

function (sequential) masked :: "policy \<Rightarrow> string \<Rightarrow> kind \<Rightarrow> kind"
  and masked_dict :: "policy \<Rightarrow> string \<Rightarrow> hdict \<Rightarrow> hdict" where
  "masked pol owner (KRef r) =
     KRef \<lparr>ref_val = ref_val r, ref_dis = (if pol_reference_display pol (ref_val r) then ref_dis r else None)\<rparr>"
| "masked pol owner (KList vs) = KList (map (masked pol owner) vs)"
| "masked pol owner (KDict d) = KDict (masked_dict pol owner d)"
| "masked pol owner (KGrid (HGrid m cs rs)) =
     KGrid (HGrid (masked_dict pol owner m)
       (map (\<lambda>c. HCol (col_name c) (masked_dict pol owner (col_meta c)))
          (filter (\<lambda>c. pol_tag pol owner (col_name c)) cs))
       (map (masked_dict pol owner) rs))"
| "masked pol owner v = v"
| "masked_dict pol owner (HDict ts) =
     set_all (map (\<lambda>(t, v). (t, masked pol owner v)) (filter (\<lambda>(t, _). pol_tag pol owner t) ts)) dict_new"
  by pat_completeness auto
termination
  apply (relation "measure (\<lambda>x. case x of Inl (_, _, v) \<Rightarrow> size v | Inr (_, _, d) \<Rightarrow> size d)")
  by (auto dest: size_list_member [where f = size] size_list_snd [where g = size] col_meta_size)

definition masked_tags :: "policy \<Rightarrow> string \<Rightarrow> (string \<times> kind) list \<Rightarrow> (string \<times> kind) list" where
  "masked_tags pol owner ts =
     map (\<lambda>(t, v). (t, masked pol owner v)) (filter (\<lambda>(t, _). pol_tag pol owner t) ts)"

definition record_shown :: "policy \<Rightarrow> string \<Rightarrow> (string \<times> kind) list \<Rightarrow> (string \<times> kind) list" where
  "record_shown pol ident ts =
     map (\<lambda>(t, v). (t, masked pol ident v))
       (filter (\<lambda>(t, v). pol_tag pol ident t \<and> member_shown pol t (own_id ident t v) v) ts)"

definition record_masked :: "policy \<Rightarrow> string \<Rightarrow> hdict \<Rightarrow> hdict option" where
  "record_masked pol ident raw =
     (if pol_entity pol ident then Some (set_all (record_shown pol ident (tags raw)) dict_new) else None)"

lemma answers_all_of: "answers m a \<Longrightarrow> answers n c \<Longrightarrow> answers (all_of m n) (a \<and> c)"
  unfolding all_of_def by (erule answers_mbind) (auto intro: answers_rules)

declare visible.simps [simp del] member_visible.simps [simp del] copy_value.simps [simp del] member_shown.simps [simp del]

lemma answers_visible_step: "answers (visible_inner pol v own depth) a \<Longrightarrow> answers (visible pol v own depth) a"
  unfolding visible.simps by (intro answers_mseq)

lemma answers_member_step:
  "(catalog_reference t v = None \<Longrightarrow> answers (visible pol v own depth) (shown pol own v)) \<Longrightarrow>
   answers (member_visible pol t v own depth) (member_shown pol t own v)"
  by (auto simp: member_visible.simps member_shown.simps intro!: answers_rules split: option.split)

lemma answers_copy_step: "answers (copy_inner pol owner v depth) a \<Longrightarrow> answers (copy_value pol owner v depth) a"
  unfolding copy_value.simps by (intro answers_mseq)

lemma answers_visible:
  "answers (visible pol v own depth) (shown pol own v)"
  "answers (visible_inner pol v own depth) (shown pol own v)"
  "answers (visible_items pol vs depth) (list_all (shown pol False) vs)"
  "answers (member_visible pol t v own depth) (member_shown pol t own v)"
  "answers (visit_dict pol d depth) (dict_shown pol d)"
  "answers (visit_tags pol ts depth) (list_all (\<lambda>(t, v). member_shown pol t False v) ts)"
  "answers (visit_cols pol cs depth) (list_all (\<lambda>c. dict_shown pol (col_meta c)) cs)"
  "answers (visit_rows pol rs depth) (list_all (dict_shown pol) rs)"
  by (induction pol v own depth and pol v own depth and pol vs depth and pol t v own depth and pol d depth
      and pol ts depth and pol cs depth and pol rs depth
      rule: visible_visible_inner_visible_items_member_visible_visit_dict_visit_tags_visit_cols_visit_rows.induct)
    (auto intro: answers_visible_step intro!: answers_member_step answers_rules answers_all_of)

lemma answers_copy:
  "answers (copy_value pol owner v depth) (masked pol owner v)"
  "answers (copy_inner pol owner v depth) (masked pol owner v)"
  "answers (copy_items pol owner vs depth) (map (masked pol owner) vs)"
  "answers (copy_dict pol owner d depth) (masked_dict pol owner d)"
  "answers (copy_tags pol owner ts depth out) (set_all (masked_tags pol owner ts) out)"
  "answers (copy_cols pol owner cs depth)
     (map (\<lambda>c. HCol (col_name c) (masked_dict pol owner (col_meta c))) (filter (\<lambda>c. pol_tag pol owner (col_name c)) cs))"
  "answers (copy_rows pol owner rs depth) (map (masked_dict pol owner) rs)"
  by (induction pol owner v depth and pol owner v depth and pol owner vs depth and pol owner d depth
      and pol owner ts depth out and pol owner cs depth and pol owner rs depth
      rule: copy_value_copy_inner_copy_items_copy_dict_copy_tags_copy_cols_copy_rows.induct)
    (auto simp: masked_tags_def set_all_def grid_from_parts_def
      intro: answers_copy_step intro!: answers_rules answers_mbind split: option.split)


lemma answers_record_tags: "answers (record_tags pol ident ts out) (set_all (record_shown pol ident ts) out)"
  by (induction pol ident ts out rule: record_tags.induct)
    (auto simp: record_shown_def set_all_def
      intro!: answers_rules answers_mbind [OF answers_visible(4)] answers_mbind [OF answers_copy_string]
        answers_mbind [OF answers_copy(1)])

lemma answers_record: "answers (record_view pol ident raw) (record_masked pol ident raw)"
  unfolding record_view_def record_masked_def
  by (auto intro!: answers_rules answers_mbind [OF answers_record_tags])

section \<open>Within the budget\<close>

lemma thrifty_all_of [thrifty_rules]: "thrifty m \<Longrightarrow> thrifty n \<Longrightarrow> thrifty (all_of m n)"
  unfolding all_of_def by (auto intro!: thrifty_rules)

lemma thrifty_visible:
  "thrifty (visible pol v own depth)" "thrifty (visible_inner pol v own depth)" "thrifty (visible_items pol vs depth)"
  "thrifty (member_visible pol t v own depth)" "thrifty (visit_dict pol d depth)" "thrifty (visit_tags pol ts depth)"
  "thrifty (visit_cols pol cs depth)" "thrifty (visit_rows pol rs depth)"
  by (induction pol v own depth and pol v own depth and pol vs depth and pol t v own depth and pol d depth
      and pol ts depth and pol cs depth and pol rs depth
      rule: visible_visible_inner_visible_items_member_visible_visit_dict_visit_tags_visit_cols_visit_rows.induct)
    (simp_all add: visible.simps member_visible.simps thrifty_rules split: option.split)

lemma thrifty_copy:
  "thrifty (copy_value pol owner v depth)" "thrifty (copy_inner pol owner v depth)" "thrifty (copy_items pol owner vs depth)"
  "thrifty (copy_dict pol owner d depth)" "thrifty (copy_tags pol owner ts depth out)"
  "thrifty (copy_cols pol owner cs depth)" "thrifty (copy_rows pol owner rs depth)"
  by (induction pol owner v depth and pol owner v depth and pol owner vs depth and pol owner d depth
      and pol owner ts depth out and pol owner cs depth and pol owner rs depth
      rule: copy_value_copy_inner_copy_items_copy_dict_copy_tags_copy_cols_copy_rows.induct)
    (simp_all add: copy_value.simps thrifty_rules split: option.split)

lemma thrifty_record_tags: "thrifty (record_tags pol ident ts out)"
  by (induction pol ident ts out rule: record_tags.induct)
    (simp_all add: thrifty_rules thrifty_visible thrifty_copy)

lemma thrifty_record [thrifty_rules]: "thrifty (record_view pol ident raw)"
  by (simp add: record_view_def thrifty_rules thrifty_record_tags)

declare measure_value.simps [simp del]

lemma thrifty_measure:
  "thrifty (measure_value v depth)" "thrifty (measure_inner v depth)" "thrifty (measure_items vs depth)"
  "thrifty (measure_tags ts depth)" "thrifty (measure_dicts ds depth)" "thrifty (measure_cols cs depth)"
  by (induction v depth and v depth and vs depth and ts depth and ds depth and cs depth
      rule: measure_value_measure_inner_measure_items_measure_tags_measure_dicts_measure_cols.induct)
    (simp_all add: measure_value.simps thrifty_rules)

section \<open>Enough allowance\<close>

lemma affordable_all_of:
  "affordable m \<Longrightarrow> answers m a \<Longrightarrow> affordable n \<Longrightarrow> affordable (all_of m n)"
  unfolding all_of_def by (erule affordable_mbind) (auto intro: affordable_rules)

lemma affordable_visible_step: "affordable (visible_inner pol v own depth) \<Longrightarrow> affordable (visible pol v own depth)"
  by (simp add: visible.simps affordable_rules)

lemma affordable_member_step:
  "(catalog_reference t v = None \<Longrightarrow> affordable (visible pol v own depth)) \<Longrightarrow> affordable (member_visible pol t v own depth)"
  by (simp add: member_visible.simps affordable_rules split: option.split)

lemma affordable_copy_step: "affordable (copy_inner pol owner v depth) \<Longrightarrow> affordable (copy_value pol owner v depth)"
  by (simp add: copy_value.simps affordable_rules)

lemmas affordable_all_visible =
  affordable_all_of [OF _ answers_visible(1)] affordable_all_of [OF _ answers_visible(4)]
  affordable_all_of [OF _ answers_visible(5)] affordable_all_of [OF _ answers_visible(7)]

lemma affordable_visible:
  "affordable (visible pol v own depth)" "affordable (visible_inner pol v own depth)"
  "affordable (visible_items pol vs depth)" "affordable (member_visible pol t v own depth)"
  "affordable (visit_dict pol d depth)" "affordable (visit_tags pol ts depth)"
  "affordable (visit_cols pol cs depth)" "affordable (visit_rows pol rs depth)"
  by (induction pol v own depth and pol v own depth and pol vs depth and pol t v own depth and pol d depth
      and pol ts depth and pol cs depth and pol rs depth
      rule: visible_visible_inner_visible_items_member_visible_visit_dict_visit_tags_visit_cols_visit_rows.induct)
    (simp_all add: affordable_visible_step affordable_member_step affordable_rules affordable_all_visible)

lemmas affordable_copy_binds =
  affordable_mbind [OF _ answers_copy(1)] affordable_mbind [OF _ answers_copy(3)] affordable_mbind [OF _ answers_copy(4)]
  affordable_mbind [OF _ answers_copy(6)] affordable_mbind [OF _ answers_copy(7)]
  affordable_mbind [OF affordable_copy_string answers_copy_string]

lemma affordable_display:
  "affordable (if b then (case d of Some s \<Rightarrow> mbind (copy_string s) (\<lambda>s. mret (Some s)) | None \<Rightarrow> mret None) else mret None)"
  "answers (if b then (case d of Some s \<Rightarrow> mbind (copy_string s) (\<lambda>s. mret (Some s)) | None \<Rightarrow> mret None) else mret None)
     (if b then d else None)"
  by (auto intro!: affordable_rules affordable_copy_binds answers_rules answers_mbind [OF answers_copy_string] split: option.split)

lemma affordable_copy:
  "affordable (copy_value pol owner v depth)" "affordable (copy_inner pol owner v depth)"
  "affordable (copy_items pol owner vs depth)" "affordable (copy_dict pol owner d depth)"
  "affordable (copy_tags pol owner ts depth out)" "affordable (copy_cols pol owner cs depth)"
  "affordable (copy_rows pol owner rs depth)"
  by (induction pol owner v depth and pol owner v depth and pol owner vs depth and pol owner d depth
      and pol owner ts depth out and pol owner cs depth and pol owner rs depth
      rule: copy_value_copy_inner_copy_items_copy_dict_copy_tags_copy_cols_copy_rows.induct)
    (simp_all add: affordable_copy_step affordable_rules affordable_copy_binds
      affordable_mbind [OF affordable_display])

lemma affordable_record_tags: "affordable (record_tags pol ident ts out)"
  by (induction pol ident ts out rule: record_tags.induct)
    (simp_all add: affordable_rules affordable_copy_binds affordable_copy
      affordable_mbind [OF affordable_visible(4) answers_visible(4)])

lemma affordable_record [affordable_rules]: "affordable (record_view pol ident raw)"
  by (simp add: record_view_def affordable_rules affordable_mbind [OF affordable_record_tags answers_record_tags])

lemma affordable_measure:
  "affordable (measure_value v depth)" "affordable (measure_inner v depth)" "affordable (measure_items vs depth)"
  "affordable (measure_tags ts depth)" "affordable (measure_dicts ds depth)" "affordable (measure_cols cs depth)"
  by (induction v depth and v depth and vs depth and ts depth and ds depth and cs depth
      rule: measure_value_measure_inner_measure_items_measure_tags_measure_dicts_measure_cols.induct)
    (simp_all add: measure_value.simps affordable_rules)

section \<open>What a record contains\<close>

lemma dict_wf_set_all: "dict_wf d \<Longrightarrow> dict_wf (set_all xs d)"
  unfolding set_all_def by (induction xs arbitrary: d) auto

lemma dict_get_set_all:
  "distinct (map fst xs) \<Longrightarrow>
   dict_get (set_all xs d) t = (case map_of xs t of Some v \<Rightarrow> Some v | None \<Rightarrow> dict_get d t)"
  unfolding set_all_def
proof (induction xs arbitrary: d)
  case (Cons x xs)
  obtain k v where x: "x = (k, v)" by force
  have "map_of xs k = None" using Cons.prems x by (simp add: map_of_eq_None_iff)
  then show ?case using Cons x by (auto simp: dict_get_set split: option.split)
qed simp

lemma map_of_record_shown:
  "distinct (map fst ts) \<Longrightarrow>
   map_of (record_shown pol ident ts) t =
     (case map_of ts t of
        Some v \<Rightarrow> if pol_tag pol ident t \<and> member_shown pol t (own_id ident t v) v then Some (masked pol ident v) else None
      | None \<Rightarrow> None)"
proof (induction ts)
  case (Cons x ts)
  obtain k v where x: "x = (k, v)" by force
  have "map_of ts k = None" using Cons.prems x by (simp add: map_of_eq_None_iff)
  then show ?case using Cons x by (auto simp: record_shown_def split: option.split)
qed (simp add: record_shown_def)

lemma record_masked_get:
  assumes "record_masked pol ident raw = Some out" "dict_wf raw"
  shows "dict_get out t =
    (case dict_get raw t of
       Some v \<Rightarrow> if pol_tag pol ident t \<and> member_shown pol t (own_id ident t v) v then Some (masked pol ident v) else None
     | None \<Rightarrow> None)"
proof -
  have d: "distinct (map fst (tags raw))" using assms(2) by (simp add: dict_wf_def)
  then have "distinct (map fst (record_shown pol ident (tags raw)))"
    by (auto simp: record_shown_def comp_def case_prod_unfold intro: distinct_map_filter)
  then show ?thesis
    using assms(1) map_of_record_shown [OF d, of pol ident t]
    by (auto simp: record_masked_def dict_get_set_all dict_get_def [of raw] split: if_splits option.split)
qed

section \<open>What a value discloses\<close>

datatype disclosure =
    DRef string
  | DDisplay string
  | DTag string
  | DCatalog string string
  | DNominal nominal

definition ref_display :: "href \<Rightarrow> disclosure list" where
  "ref_display r = (if ref_dis r = None then [] else [DDisplay (ref_val r)])"

function (sequential) disclosed :: "kind \<Rightarrow> disclosure list"
  and member_disclosed :: "string \<Rightarrow> kind \<Rightarrow> disclosure list"
  and dict_disclosed :: "hdict \<Rightarrow> disclosure list" where
  "disclosed (KRef r) = DRef (ref_val r) # ref_display r"
| "disclosed (KNominal n) = [DNominal n]"
| "disclosed (KList vs) = concat (map disclosed vs)"
| "disclosed (KDict d) = dict_disclosed d"
| "disclosed (KGrid (HGrid m cs rs)) =
     dict_disclosed m @ concat (map (\<lambda>c. DTag (col_name c) # dict_disclosed (col_meta c)) cs) @
     concat (map dict_disclosed rs)"
| "disclosed _ = []"
| "member_disclosed t v =
     (case catalog_reference t v of
        Some (qname, library) \<Rightarrow>
          DCatalog qname library # (case v of KRef r \<Rightarrow> ref_display r | _ \<Rightarrow> [])
      | None \<Rightarrow> disclosed v)"
| "dict_disclosed (HDict ts) = concat (map (\<lambda>(t, v). DTag t # member_disclosed t v) ts)"
  by pat_completeness auto
termination
  apply (relation "measure (\<lambda>x. case x of
      Inl v \<Rightarrow> 2 * size v | Inr (Inl (_, v)) \<Rightarrow> Suc (2 * size v) | Inr (Inr d) \<Rightarrow> 2 * size d)")
  by (auto dest: size_list_member [where f = size] size_list_snd [where g = size] col_meta_size)

fun permitted :: "policy \<Rightarrow> string \<Rightarrow> disclosure \<Rightarrow> bool" where
  "permitted pol owner (DRef r) \<longleftrightarrow> pol_entity pol r \<and> pol_reference pol r"
| "permitted pol owner (DDisplay r) \<longleftrightarrow> pol_reference_display pol r"
| "permitted pol owner (DTag t) \<longleftrightarrow> pol_tag pol owner t"
| "permitted pol owner (DCatalog qname library) \<longleftrightarrow>
     pol_catalog pol CatSpec qname \<and> pol_catalog pol CatLibrary library"
| "permitted pol owner (DNominal n) \<longleftrightarrow> nominal_visible pol n"

lemma catalog_reference_masked [simp]: "catalog_reference t (masked pol owner v) = catalog_reference t v"
  by (cases "(pol, owner, v)" rule: masked.cases) (simp_all add: catalog_reference_def split: option.split)

lemma set_update_subset: "set (AList.update k v xs) \<subseteq> insert (k, v) (set xs)"
  by (induction xs) auto

lemma set_tags_set_all: "set (tags (set_all xs d)) \<subseteq> set xs \<union> set (tags d)"
proof (induction xs arbitrary: d)
  case (Cons x xs)
  obtain k v where x: "x = (k, v)" by force
  have "set (tags (dict_set k v d)) \<subseteq> insert (k, v) (set (tags d))"
    by (simp add: dict_set_def set_update_subset)
  then show ?case using Cons.IH [of "dict_set k v d"] x by (auto simp: set_all_def)
qed (simp add: set_all_def)

declare member_disclosed.simps [simp del]

lemma set_dict_disclosed:
  "set (dict_disclosed d) = (\<Union>(t, v) \<in> set (tags d). insert (DTag t) (set (member_disclosed t v)))"
  by (cases d) auto

lemma member_disclosed_masked:
  assumes "member_shown pol t own v" "pol_tag pol owner t"
    and "shown pol own v \<Longrightarrow> \<forall>x \<in> set (disclosed (masked pol owner v)). permitted pol owner x \<or> P x"
  shows "\<forall>x \<in> set (member_disclosed t (masked pol owner v)). permitted pol owner x \<or> P x"
proof (cases "catalog_reference t v")
  case None
  with assms show ?thesis by (simp add: member_disclosed.simps member_shown.simps)
next
  case (Some q)
  then obtain qname library where q: "catalog_reference t v = Some (qname, library)" by (cases q) auto
  then obtain r where "v = KRef r" by (cases v) (simp_all add: catalog_reference_def split: if_splits)
  then have c: "catalog_reference t (masked pol owner (KRef r)) = Some (qname, library)"
    using q by (simp only: catalog_reference_masked)
  show ?thesis
    using q assms(1) unfolding \<open>v = KRef r\<close> member_disclosed.simps c
    by (simp add: member_shown.simps ref_display_def)
qed

lemma disclosed_masked:
  "shown pol False v \<Longrightarrow> \<forall>x \<in> set (disclosed (masked pol owner v)). permitted pol owner x"
  "dict_shown pol d \<Longrightarrow> \<forall>x \<in> set (dict_disclosed (masked_dict pol owner d)). permitted pol owner x"
proof (induction pol owner v and pol owner d rule: masked_masked_dict.induct)
  case (1 pol owner r)
  then show ?case by (simp add: ref_visible_def ref_display_def)
next
  case (2 pol owner vs)
  then show ?case by (auto simp: list_all_iff)
next
  case (4 pol owner m cs rs)
  then have "\<forall>x \<in> set (dict_disclosed (masked_dict pol owner m)). permitted pol owner x"
    "\<And>c x. c \<in> set cs \<Longrightarrow> pol_tag pol owner (col_name c) \<Longrightarrow>
       x \<in> set (dict_disclosed (masked_dict pol owner (col_meta c))) \<Longrightarrow> permitted pol owner x"
    "\<And>r x. r \<in> set rs \<Longrightarrow> x \<in> set (dict_disclosed (masked_dict pol owner r)) \<Longrightarrow> permitted pol owner x"
    by (simp_all add: list_all_iff)
  then show ?case by auto
next
  case "5_4"
  then show ?case by simp
next
  case (6 pol owner ts)
  show ?case
  proof
    fix x
    assume "x \<in> set (dict_disclosed (masked_dict pol owner (HDict ts)))"
    then obtain t w where tw: "(t, w) \<in> set (tags (masked_dict pol owner (HDict ts)))"
        "x = DTag t \<or> x \<in> set (member_disclosed t w)"
      by (auto simp: set_dict_disclosed)
    then have "(t, w) \<in> (\<lambda>(t, v). (t, masked pol owner v)) ` set (filter (\<lambda>(t, _). pol_tag pol owner t) ts)"
      using set_tags_set_all [of "map (\<lambda>(t, v). (t, masked pol owner v)) (filter (\<lambda>(t, _). pol_tag pol owner t) ts)" dict_new]
      by (auto simp: dict_new_def)
    then obtain v where v: "(t, v) \<in> set ts" "pol_tag pol owner t" "w = masked pol owner v" by auto
    have m: "member_shown pol t False v" using "6.prems" v(1) by (auto simp: list_all_iff)
    have ih: "shown pol False v \<Longrightarrow> \<forall>x \<in> set (disclosed (masked pol owner v)). permitted pol owner x"
      using "6.IH" [of "(t, v)" t v] v by auto
    show "permitted pol owner x"
      using tw(2) v(2,3) member_disclosed_masked [OF m v(2), of "\<lambda>_. False"] ih by auto
  qed
qed simp_all

lemma record_discloses:
  assumes "record_masked pol ident raw = Some out" "(t, w) \<in> set (tags out)"
  shows "pol_entity pol ident \<and> pol_tag pol ident t \<and>
    (\<forall>x \<in> set (member_disclosed t w). permitted pol ident x \<or> t = ''id'' \<and> x = DRef ident)"
proof -
  have "(t, w) \<in> set (record_shown pol ident (tags raw))"
    using assms set_tags_set_all [of "record_shown pol ident (tags raw)" dict_new]
    by (auto simp: record_masked_def dict_new_def split: if_splits)
  then obtain v where v: "w = masked pol ident v" "pol_tag pol ident t" "member_shown pol t (own_id ident t v) v"
    by (auto simp: record_shown_def)
  have "\<forall>x \<in> set (disclosed (masked pol ident v)). permitted pol ident x \<or> t = ''id'' \<and> x = DRef ident"
    if s: "shown pol (own_id ident t v) v"
  proof (cases "own_id ident t v")
    case True
    then show ?thesis by (cases v) (auto simp: own_id_def ref_display_def)
  next
    case False
    with s disclosed_masked(1) show ?thesis by auto
  qed
  then have "\<forall>x \<in> set (member_disclosed t w). permitted pol ident x \<or> t = ''id'' \<and> x = DRef ident"
    unfolding v(1) by (rule member_disclosed_masked [OF v(3,2)])
  moreover have "pol_entity pol ident" using assms(1) by (simp add: record_masked_def split: if_splits)
  ultimately show ?thesis using v(2) by blast
qed

end
