(* ===== verification/Query_View.thy ===== *)
theory Query_View
  imports Sanitize_Correct Entity_Query_Correct
begin

text \<open>
  The masked view of a graph: \<open>View\<close> of \<open>haystack-app/src/sanitize.rs\<close> and its implementation of
  \<open>QueryEnvironment\<close>.

  A view is a graph and a policy; its operations spend a budget.  \<open>masked_ctx\<close> is the query context
  that a caller restricted by the policy sees: every entity in it is a sanitized record, and it
  leads nowhere the policy hides.  The view implements the environment contract for that context.
\<close>

section \<open>The view\<close>

definition view_entity :: "entity_graph \<Rightarrow> policy \<Rightarrow> string \<Rightarrow> (budget, read_error, hdict option) metered" where
  "view_entity g pol ident =
     mseq budget_check
     (if \<not> pol_entity pol ident then mret None
      else (case graph_get g ident of None \<Rightarrow> mret None | Some raw \<Rightarrow> record_view pol ident raw))"

fun incoming_rows ::
  "entity_graph \<Rightarrow> policy \<Rightarrow> href \<Rightarrow> string option \<Rightarrow> (string \<times> string) list \<Rightarrow>
   (budget, read_error, hdict list) metered" where
  "incoming_rows g pol target tag [] = mret []"
| "incoming_rows g pol target tag ((edge_tag, source) # edges) =
     mseq (budget_charge Inverse 1)
     (mseq (budget_charge Work 1)
     (if (case tag of Some t \<Rightarrow> edge_tag \<noteq> t | None \<Rightarrow> False) then incoming_rows g pol target tag edges
      else
        mbind (view_entity g pol source) (\<lambda>found.
        case found of
          None \<Rightarrow> incoming_rows g pol target tag edges
        | Some row \<Rightarrow>
            if (case dict_get row edge_tag of Some (KRef r) \<Rightarrow> ref_val r = ref_val target | _ \<Rightarrow> False)
            then
              mseq (budget_charge Retained 32)
              (mbind (incoming_rows g pol target tag edges) (\<lambda>rows. mret (row # rows)))
            else incoming_rows g pol target tag edges)))"

definition view_incoming ::
  "entity_graph \<Rightarrow> policy \<Rightarrow> href \<Rightarrow> string option \<Rightarrow> (budget, read_error, hdict list) metered" where
  "view_incoming g pol target tag = incoming_rows g pol target tag (incoming_edges g (ref_val target))"

definition view_forward :: "entity_graph \<Rightarrow> policy \<Rightarrow> href \<Rightarrow> (budget, read_error, hdict option) metered" where
  "view_forward g pol r =
     mseq (budget_charge Forward 1)
     (if \<not> pol_reference pol (ref_val r) then mret None else view_entity g pol (ref_val r))"

definition view_comparison :: "kind \<Rightarrow> kind \<Rightarrow> (budget, read_error, unit) metered" where
  "view_comparison l r = mseq (measure_value l 1) (measure_value r 1)"

definition view_catalog_visible :: "policy \<Rightarrow> catalog_kind \<Rightarrow> string \<Rightarrow> (budget, read_error, bool) metered" where
  "view_catalog_visible pol k name =
     mseq (budget_charge Work (saturating_add (length name) 1)) (mret (pol_catalog pol k name))"

definition view_env :: "entity_graph \<Rightarrow> policy \<Rightarrow> (budget, read_error) query_env" where
  "view_env g pol =
     \<lparr>qe_work = budget_charge Work, qe_retain = budget_charge Retained, qe_depth = depth_check,
      qe_comparison = view_comparison, qe_forward = view_forward g pol,
      qe_inverse = (\<lambda>target tag. view_incoming g pol target (Some tag)),
      qe_catalog_visible = view_catalog_visible pol\<rparr>"

section \<open>What the view shows\<close>

definition masked_entity :: "entity_graph \<Rightarrow> policy \<Rightarrow> string \<Rightarrow> hdict option" where
  "masked_entity g pol ident = Option.bind (graph_get g ident) (record_masked pol ident)"

definition refers :: "href \<Rightarrow> string \<Rightarrow> hdict \<Rightarrow> bool" where
  "refers target t row \<longleftrightarrow> (\<exists>r. dict_get row t = Some (KRef r) \<and> ref_val r = ref_val target)"

definition masked_edge :: "entity_graph \<Rightarrow> policy \<Rightarrow> href \<Rightarrow> string option \<Rightarrow> string \<times> string \<Rightarrow> hdict option" where
  "masked_edge g pol target tag = (\<lambda>(t, source).
     if tag \<noteq> None \<and> tag \<noteq> Some t then None
     else Option.bind (masked_entity g pol source) (\<lambda>row. if refers target t row then Some row else None))"

definition masked_incoming :: "entity_graph \<Rightarrow> policy \<Rightarrow> href \<Rightarrow> string option \<Rightarrow> hdict list" where
  "masked_incoming g pol target tag =
     List.map_filter (masked_edge g pol target tag) (incoming_edges g (ref_val target))"

definition masked_ctx :: "entity_graph \<Rightarrow> policy \<Rightarrow> query_context" where
  "masked_ctx g pol =
     \<lparr>forward = (\<lambda>r. if pol_reference pol (ref_val r) then masked_entity g pol (ref_val r) else None),
      inverse = Some (\<lambda>target tag. masked_incoming g pol target (Some tag))\<rparr>"

lemma record_masked_hidden: "\<not> pol_entity pol ident \<Longrightarrow> record_masked pol ident raw = None"
  by (simp add: record_masked_def)

lemma masked_edge_pair:
  "masked_edge g pol target tag (t, source) =
     (if tag \<noteq> None \<and> tag \<noteq> Some t then None
      else Option.bind (masked_entity g pol source) (\<lambda>row. if refers target t row then Some row else None))"
  by (simp add: masked_edge_def)

lemma answers_view_entity: "answers (view_entity g pol ident) (masked_entity g pol ident)"
  by (cases "graph_get g ident")
    (auto simp: view_entity_def masked_entity_def record_masked_hidden intro!: answers_rules answers_record)

lemma answers_view_forward: "answers (view_forward g pol r) (forward (masked_ctx g pol) r)"
  by (auto simp: view_forward_def masked_ctx_def intro!: answers_rules answers_view_entity)

interpretation view: environment "view_env g pol" "masked_ctx g pol" for g pol
  by unfold_locales (simp add: view_env_def answers_view_forward)

interpretation plain_view: query_environment "view_env g pol" "masked_ctx g pol" fits None for g pol fits
  by unfold_locales simp

lemma answers_incoming_rows:
  "answers (incoming_rows g pol target tag edges) (List.map_filter (masked_edge g pol target tag) edges)"
proof (induction edges)
  case (Cons x edges)
  obtain t source where x: "x = (t, source)" by force
  have other: "(case tag of Some t' \<Rightarrow> t \<noteq> t' | None \<Rightarrow> False) = (tag \<noteq> None \<and> tag \<noteq> Some t)"
    by (auto split: option.split)
  have ref: "(case dict_get row t of Some (KRef r) \<Rightarrow> ref_val r = ref_val target | _ \<Rightarrow> False) = refers target t row" for row
    by (auto simp: refers_def split: option.split kind.split)
  have "answers (mbind (incoming_rows g pol target tag edges) (\<lambda>rows. mret (row # rows)))
      (row # List.map_filter (masked_edge g pol target tag) edges)" for row
    by (rule answers_mbind [OF Cons answers_mret])
  with Cons show ?case
    unfolding x incoming_rows.simps other ref List.map_filter_simps masked_edge_pair
    by (cases "tag \<noteq> None \<and> tag \<noteq> Some t"; cases "masked_entity g pol source")
      (auto intro!: answers_mseq answers_mbind [OF answers_view_entity])
qed (simp add: List.map_filter_simps answers_rules)

lemma answers_view_incoming: "answers (view_incoming g pol target tag) (masked_incoming g pol target tag)"
  unfolding view_incoming_def masked_incoming_def by (rule answers_incoming_rows)

section \<open>What points at an entity, as the view shows it\<close>

lemma incoming_edges_exact:
  assumes "graph_inv g"
  shows "set (incoming_edges g target) =
    {(t, source). \<exists>e. graph_get g source = Some e \<and> (t, target) \<in> ref_edges e}"
proof -
  have adj: "(t, n) \<in> set (vec_at (adj_reverse (adjacency g)) target) \<longleftrightarrow>
      (\<exists>e. rows g n = Some e \<and> (t, target) \<in> ref_edges e)" for t n
    using adj_entries_reverse [OF graph_indexes(3) [OF assms]] graph_indexes(6) [OF assms] by blast
  have row: "(\<exists>n. map_of (reverse_id g) n = Some source \<and> rows g n = Some e) \<longleftrightarrow> graph_get g source = Some e" for source e
  proof
    assume e: "graph_get g source = Some e"
    then obtain n where n: "map_of (id_map g) source = Some n"
      unfolding graph_get_def by (rule graph_inv_Some [OF assms])
    then have "map_of (reverse_id g) n = Some source"
      using assms ids_ok_inverse by (auto simp: graph_inv_def)
    with e show "\<exists>n. map_of (reverse_id g) n = Some source \<and> rows g n = Some e"
      by (auto simp: rows_of_def graph_get_def)
  qed (auto simp: rows_of_def graph_get_def)
  have "(t, source) \<in> set (incoming_edges g target) \<longleftrightarrow>
      (\<exists>n. map_of (reverse_id g) n = Some source \<and> (\<exists>e. rows g n = Some e \<and> (t, target) \<in> ref_edges e))" for t source
    unfolding incoming_edges_def set_map_filter_eq using adj by force
  with row show ?thesis by blast
qed

lemma masked_ref: "masked pol owner v = KRef r \<Longrightarrow> \<exists>r'. v = KRef r' \<and> ref_val r' = ref_val r"
  by (cases "(pol, owner, v)" rule: masked.cases) auto

lemma masked_refers:
  assumes "record_masked pol ident raw = Some row" "dict_wf raw" "refers target t row" "t \<noteq> ''id''"
  shows "(t, ref_val target) \<in> ref_edges raw"
proof -
  obtain r where "dict_get row t = Some (KRef r)" "ref_val r = ref_val target" using assms(3) by (auto simp: refers_def)
  then obtain v where "dict_get raw t = Some v" "masked pol ident v = KRef r"
    using record_masked_get [OF assms(1,2), of t] by (auto split: option.splits if_splits)
  with assms(4) \<open>ref_val r = ref_val target\<close> masked_ref [of pol ident v r] show ?thesis
    by (auto simp: ref_edges_def)
qed

lemma masked_incoming_exact:
  assumes "graph_inv g"
  shows "set (masked_incoming g pol target tag) =
    {row. \<exists>t source. masked_entity g pol source = Some row \<and> t \<noteq> ''id'' \<and> (tag = None \<or> tag = Some t) \<and> refers target t row}"
    (is "_ = ?R")
proof -
  have "row \<in> set (masked_incoming g pol target tag) \<longleftrightarrow> row \<in> ?R" for row
  proof
    assume "row \<in> set (masked_incoming g pol target tag)"
    then obtain t source where ts: "(t, source) \<in> set (incoming_edges g (ref_val target))"
        "masked_edge g pol target tag (t, source) = Some row"
      by (auto simp: masked_incoming_def set_map_filter_eq)
    then have "t \<noteq> ''id''" using incoming_edges_exact [OF assms] by (auto simp: ref_edges_def)
    with ts(2) show "row \<in> ?R" by (auto simp: masked_edge_pair bind_eq_Some_conv split: if_splits)
  next
    assume "row \<in> ?R"
    then obtain t source where ts: "masked_entity g pol source = Some row" "t \<noteq> ''id''" "tag = None \<or> tag = Some t"
        "refers target t row" by blast
    then obtain raw where raw: "graph_get g source = Some raw" "record_masked pol source raw = Some row"
      by (auto simp: masked_entity_def bind_eq_Some_conv)
    have "dict_wf raw" using assms raw(1) ents_ok_get by (auto simp: graph_inv_def graph_get_def)
    then have "(t, source) \<in> set (incoming_edges g (ref_val target))"
      using masked_refers [OF raw(2) _ ts(4,2)] raw(1) incoming_edges_exact [OF assms] by auto
    moreover have "masked_edge g pol target tag (t, source) = Some row"
      using ts by (auto simp: masked_edge_pair)
    ultimately show "row \<in> set (masked_incoming g pol target tag)"
      by (force simp: masked_incoming_def set_map_filter_eq)
  qed
  then show ?thesis by blast
qed

section \<open>Queries over the view stop for good reasons only\<close>

lemma thrifty_view_entity [thrifty_rules]: "thrifty (view_entity g pol ident)"
  by (simp add: view_entity_def thrifty_rules split: option.split)

lemma thrifty_view_forward [thrifty_rules]: "thrifty (view_forward g pol r)"
  by (simp add: view_forward_def thrifty_rules)

lemma thrifty_incoming_rows: "thrifty (incoming_rows g pol target tag edges)"
  by (induction g pol target tag edges rule: incoming_rows.induct) (simp_all add: thrifty_rules split: option.split)

lemma affordable_view_entity [affordable_rules]: "affordable (view_entity g pol ident)"
  by (simp add: view_entity_def affordable_rules split: option.split)

lemma affordable_view_forward [affordable_rules]: "affordable (view_forward g pol r)"
  by (simp add: view_forward_def affordable_rules)

lemma affordable_incoming_rows: "affordable (incoming_rows g pol target tag edges)"
proof (induction edges)
  case (Cons x edges)
  obtain t source where x: "x = (t, source)" by force
  have "affordable (mbind (incoming_rows g pol target tag edges) (\<lambda>rows. mret (row # rows)))" for row
    by (rule affordable_mbind [OF Cons answers_incoming_rows affordable_mret])
  then have "affordable (mbind (view_entity g pol source) (\<lambda>found. case found of
      None \<Rightarrow> incoming_rows g pol target tag edges
    | Some row \<Rightarrow>
        if (case dict_get row t of Some (KRef r) \<Rightarrow> ref_val r = ref_val target | _ \<Rightarrow> False)
        then mseq (budget_charge Retained 32) (mbind (incoming_rows g pol target tag edges) (\<lambda>rows. mret (row # rows)))
        else incoming_rows g pol target tag edges))"
    by (intro affordable_mbind [OF affordable_view_entity answers_view_entity], cases "masked_entity g pol source")
      (use Cons in \<open>simp_all add: affordable_mseq affordable_charges\<close>)
  with Cons show ?case
    unfolding x incoming_rows.simps by (simp only: affordable_mseq affordable_charges if_split simp_thms)
qed (simp add: affordable_rules)

lemma view_incoming_steps: "thrifty (view_incoming g pol target tag)" "affordable (view_incoming g pol target tag)"
  by (simp_all add: view_incoming_def thrifty_incoming_rows affordable_incoming_rows)

lemma view_env_fields [simp]:
  "qe_work (view_env g pol) = budget_charge Work" "qe_depth (view_env g pol) = depth_check"
  "qe_comparison (view_env g pol) = view_comparison" "qe_forward (view_env g pol) = view_forward g pol"
  by (simp_all add: view_env_def)

lemma thrifty_walk: "thrifty (walk_to_owner (view_env g pol) e segs)"
  by (induction "view_env g pol" e segs rule: walk_to_owner.induct)
    (simp_all add: thrifty_rules split: option.split kind.split)

lemma affordable_walk: "affordable (walk_to_owner (view_env g pol) e segs)"
proof (induction "view_env g pol" e segs rule: walk_to_owner.induct)
  case (3 e tag s segs)
  have "affordable (mbind (view_forward g pol r) (\<lambda>next. case next of
      Some e' \<Rightarrow> walk_to_owner (view_env g pol) e' (s # segs) | None \<Rightarrow> mret None))"
    if "dict_get e tag = Some (KRef r)" for r
    by (rule affordable_mbind [OF affordable_view_forward answers_view_forward])
      (simp add: affordable_rules "3" [OF that refl] split: option.split)
  then show ?case by (simp add: affordable_rules split: option.split kind.split)
qed (simp_all add: affordable_rules)

lemma last_steps:
  assumes "path_last p = Some t"
  shows "thrifty (expect_last p)" "affordable (expect_last p)"
proof -
  have "(expect_last p :: (budget, read_error, string) metered) = mret t" using assms by (simp add: fun_eq_iff expect_last_def mret_def)
  then show "thrifty (expect_last p)" "affordable (expect_last p)" by (simp_all add: thrifty_rules affordable_rules)
qed

lemma owner_steps:
  assumes "\<And>o'. owner_of (forward (masked_ctx g pol)) segs e = Some o' \<Longrightarrow> thrifty (f o') \<and> affordable (f o')"
    and "thrifty n \<and> affordable n"
  shows "thrifty (mbind (walk_to_owner (view_env g pol) e segs) (case_option n f))"
    and "affordable (mbind (walk_to_owner (view_env g pol) e segs) (case_option n f))"
  using assms
  by (auto intro!: thrifty_mbind_answers [OF thrifty_walk view.walk_answers]
      affordable_mbind [OF affordable_walk view.walk_answers] split: option.split)

lemma view_comparison_steps [thrifty_rules, affordable_rules]:
  "thrifty (view_comparison l r)" "affordable (view_comparison l r)"
  by (simp_all add: view_comparison_def thrifty_rules thrifty_measure affordable_rules affordable_measure)

lemma owner_last_steps:
  "thrifty (mbind (walk_to_owner (view_env g pol) e segs)
     (\<lambda>ow. case ow of None \<Rightarrow> mret b | Some e' \<Rightarrow> mbind (expect_last (Path segs)) (\<lambda>t. mret (h e' t))))" (is "thrifty ?m")
  "affordable (mbind (walk_to_owner (view_env g pol) e segs)
     (\<lambda>ow. case ow of None \<Rightarrow> mret b | Some e' \<Rightarrow> mbind (expect_last (Path segs)) (\<lambda>t. mret (h e' t))))"
proof -
  have "thrifty (mbind (expect_last (Path segs)) (\<lambda>t. mret (h o' t))) \<and>
      affordable (mbind (expect_last (Path segs)) (\<lambda>t. mret (h o' t)))"
    if "owner_of (forward (masked_ctx g pol)) segs e = Some o'" for o'
    using last_steps [OF owner_segments [OF that]] answers_expect_last [OF owner_segments [OF that]]
    by (auto intro: thrifty_mbind affordable_mbind thrifty_mret affordable_mret)
  then show "thrifty ?m" "affordable ?m"
    by (auto intro: owner_steps thrifty_mret affordable_mret)
qed

lemma thrifty_matches:
  assumes "\<And>n e t d. thrifty (fits n e t d)"
  shows "thrifty (matches_at (view_env g pol) fits ns node e depth)"
proof (induction node arbitrary: depth)
  case (Has p)
  show ?case by (cases p) (auto intro!: thrifty_mseq thrifty_depth thrifty_charge owner_last_steps)
next
  case (Missing p)
  show ?case by (cases p) (auto intro!: thrifty_mseq thrifty_depth thrifty_charge owner_last_steps)
next
  case (Cmp p op val)
  show ?case by (cases p) (auto intro!: thrifty_rules thrifty_walk split: option.split)
next
  case (SpecMatch s)
  show ?case by (cases ns) (auto intro!: thrifty_rules assms)
qed (auto intro!: thrifty_rules)

lemma affordable_matches:
  assumes "query_environment (view_env g pol) (masked_ctx g pol) fits ns" "\<And>n e t d. affordable (fits n e t d)"
  shows "affordable (matches_at (view_env g pol) fits ns node e depth)"
proof (induction node arbitrary: depth)
  case (Has p)
  show ?case by (cases p) (auto intro!: affordable_rules owner_last_steps)
next
  case (Missing p)
  show ?case by (cases p) (auto intro!: affordable_rules owner_last_steps)
next
  case (Cmp p op val)
  show ?case
    by (cases p) (auto intro!: affordable_rules affordable_mbind [OF affordable_walk view.walk_answers]
        affordable_mbind [OF affordable_mret answers_mret] split: option.split)
next
  case (And l r)
  then show ?case
    by (auto intro!: affordable_rules affordable_mbind [OF And(1) query_environment.matches_answers [OF assms(1)]])
next
  case (Or l r)
  then show ?case
    by (auto intro!: affordable_rules affordable_mbind [OF Or(1) query_environment.matches_answers [OF assms(1)]])
next
  case (SpecMatch s)
  show ?case by (cases ns) (auto intro!: affordable_rules assms(2))
qed

lemma view_environment:
  assumes "\<And>n e t d. ns = Some n \<Longrightarrow> answers (fits n e t d) (fits_spec_term_with n e t (Some (masked_ctx g pol)))"
  shows "query_environment (view_env g pol) (masked_ctx g pol) fits ns"
  using assms by unfold_locales

end
