(* ===== verification/Spec2Isabelle.thy ===== *)
theory Spec2Isabelle
  imports Shared_Graph Filter_Print Query_View
begin

text \<open>
  Verification of the Haystack entity store of this repository, of the filters that query it and of
  the sanitized views through which callers read it.

  \<^bold>\<open>The program.\<close>  Project Haystack describes buildings as entities: dictionaries from tag names to
  values, some of which are references to other entities.  The crate \<open>haystack-core\<close> keeps them in an
  \<open>EntityGraph\<close>: a store keyed by identifier, three secondary indexes (which entity has which tag,
  which refers to which, which has which field value), a bounded change log read by version or by
  commit unit, a cache of query results and one of parsed filters.  Batches of changes are planned
  against a graph, charged to a budget and published atomically; a graph can be written as an image
  and restored.  Filters are parsed from text and evaluated over entities, following references.  The
  crate \<open>haystack-app\<close> answers requests: a policy says what the caller may see, and every entity passes
  through a sanitizing copy whose work is charged to a request budget.

  \<^bold>\<open>The model.\<close>  One theory per component, in the order the code depends on itself.  Each definition
  is the translation of the function or type of the same name.

  \<^item> \<open>Prelude\<close>: machine integers as natural numbers with checked or saturating operations, \<open>f64\<close> as
    its 64 bits with the two orders the code uses, hash maps as association lists without repeated
    keys, ordered maps as sorted ones, results with an error or a panic; the contract of a map.
  \<^item> \<open>Values\<close> (\<open>kinds/*.rs\<close>, \<open>data/dict.rs\<close>, \<open>data/grid.rs\<close>): values, dictionaries, grids and
    their equality; \<open>Value_Size\<close> (\<open>graph/size.rs\<close>): the metered size of a value and of a log entry.
  \<^item> \<open>Index_Contract\<close>: the locale \<open>entity_index\<close>, what the graph relies on in an index; \<open>Tag_Bitmap\<close>
    (\<open>graph/bitmap.rs\<close>), \<open>Ref_Adjacency\<close> (\<open>graph/adjacency.rs\<close>) and \<open>Value_Index\<close>
    (\<open>graph/value_index.rs\<close>) interpret it; \<open>Index_Plans\<close>: their batch plans, under the locale
    \<open>index_plan\<close>.
  \<^item> \<open>Filter_Eval\<close> (\<open>filter/ast.rs\<close>, \<open>filter/eval.rs\<close>), \<open>Filter_Parser\<close> (\<open>filter/parser.rs\<close>),
    \<open>Filter_Print\<close>: filters, their evaluation and their syntax.
  \<^item> \<open>Changelog\<close> (\<open>graph/changelog.rs\<close> and the feed operations of \<open>graph/entity_graph.rs\<close>),
    \<open>Query_Cache\<close>, \<open>Entity_Graph\<close>, \<open>Entity_Query\<close>, \<open>Entity_Export\<close> (\<open>graph/entity_graph.rs\<close>):
    the record \<open>entity_graph\<close> has the fields of the struct, and \<open>add\<close>, \<open>update\<close>, \<open>remove\<close>,
    \<open>read_all\<close> and the others return the new graph, or the error, or the panic of an \<open>expect\<close>.
  \<^item> \<open>Prepared_Batch\<close> (\<open>graph/prepared.rs\<close>) and \<open>Recovery\<close> (\<open>graph/recovery.rs\<close>).
  \<^item> \<open>Shared_Graph\<close> (\<open>graph/shared.rs\<close>, \<open>graph/subscriber.rs\<close>): the record \<open>shared_graph\<close> is the locked
    graph with the messages sent on its two channels; \<open>write_drop\<close> is what releasing the write lock
    announces, and \<open>next_batch\<close> reads the feed after a message.
  \<^item> \<open>Budget\<close> (\<open>budget.rs\<close> of \<open>haystack-app\<close>), \<open>Filter_Controlled\<close> (\<open>filter/controlled.rs\<close>),
    \<open>Sanitize\<close> and \<open>Query_View\<close> (\<open>sanitize.rs\<close>, \<open>policy.rs\<close>): metered computations, which pass a
    budget along and may stop with an error.

  \<^bold>\<open>What is shown.\<close>
  \<^item> \<open>Entity_Graph_Inv\<close>, \<open>Graph_Run\<close>: \<open>graph_inv\<close> ties numbering, storage, indexes, log and caches
    together and holds in every state reachable by the public operations (C1).  \<open>Graph_Spec\<close>: the
    mutations refine a map from identifiers to entities (C2 to C4).
  \<^item> \<open>Entity_Query_Correct\<close>: queries return the entities the filter selects, whatever the indexes and
    the caches do; candidate sets lose no match; traversals read the stored references (C5 to C7, C12
    to C14, C17, C19).
  \<^item> The feed serves every change once and in whole units, replaying it gives the contents, and the log
    keeps the longest tail that fits (C8 to C11); a subscriber beside interleaved writes is given every
    change once and in order (C21); sizes are sums (C15, C16).
  \<^item> \<open>Batch_Correct\<close>: an accepted batch does what its operations do in order, as one unit, and reports
    their errors; publication never panics (C26 to C29).  Images restore to the graph they were taken
    of and to nothing invalid (C30 to C32).
  \<^item> The parser returns on every text, respects its limits, and reads back the text of a filter (C33 to
    C35).
  \<^item> \<open>Sanitize_Correct\<close>, \<open>Query_View\<close>: a sanitized record holds what the policy permits and a query
    through the view answers as a query of the sanitized graph; no budget is ever exceeded, and every
    request has an allowance with which it returns (C36 to C40).
  \<^item> \<open>Entity_Export\<close>: grids, import, validation and the hierarchy tree (C22 to C25); patches (C18) and
    catalog activation (C20).

  \<^bold>\<open>Bounds and fuel.\<close>  The parser recurses with the fuel \<open>3 * length + 3\<close>: every production consumes a
  character or descends at most three levels before it does, and \<open>parser_always_returns\<close> (C33) shows
  that the fuel is never exhausted.  The hierarchy tree recurses on the depth bound of the call, and
  every other loop is structural or has a termination proof.  Versions, numbers and sizes keep the
  width of the code: exhausted revisions and identifiers are errors of the operations.

  \<^bold>\<open>Arguments of the model.\<close>  The clock, the random incarnation, the addresses of shared handles, the
  allocator's behaviour, whether a lock is obtained in time, what a broadcast receiver returns, the
  reader of Zinc literals, the policy, the ontology namespace and the fitting of an entity to a spec
  term are arguments of the definitions that use them.

  \<^bold>\<open>Not modelled.\<close>  The text formats (Zinc, Trio, JSON, CSV, Jeto), the Xeto compiler and its package
  repository, the ontology loader, history storage and the database adapters, the asynchronous
  services, the HTTP and MCP servers, the client, the command line, analytics and the Python bindings:
  input and output, foreign formats, or adapters over the parts above.  Of catalog activation only the
  compare-and-swap operations of the graph are modelled, not the compilation of a candidate and its
  validation over the stored records; of the shared handle, not the view that repeats its readers.
\<close>

section \<open>An example graph\<close>

definition ex_parse :: "string \<Rightarrow> string + filter_node" where
  "ex_parse s = (if s = ''site'' then Inr (Has (Path [''site''])) else Inl ''unknown'')"

definition ex_site :: hdict where
  "ex_site = HDict [(''id'', KRef (href_from_val ''a'')), (''site'', KMarker)]"

definition ex_patch :: hdict where
  "ex_patch = HDict [(''area'', KStr ''big''), (''site'', KRemove)]"

definition ex_graph :: entity_graph where
  "ex_graph = with_changelog_limits [] 10 100000"

definition ex_graph1 :: entity_graph where
  "ex_graph1 = (case add 0 ex_site ex_graph of Inr (_, g) \<Rightarrow> g | Inl _ \<Rightarrow> ex_graph)"

definition ex_equip :: hdict where
  "ex_equip = HDict [(''id'', KRef (href_from_val ''b'')), (''siteRef'', KRef (href_from_val ''a''))]"

definition ex_graph2 :: entity_graph where
  "ex_graph2 = (case add 0 ex_equip ex_graph1 of Inr (_, g) \<Rightarrow> g | Inl _ \<Rightarrow> ex_graph1)"

definition ex_values :: value_index where
  "ex_values = vidx_add 4 ''dis'' (KStr ''m'') (vidx_index_field ''dis'' vidx_new)"

definition ex_catalog :: "nat \<Rightarrow> activated_catalog arc" where
  "ex_catalog a = Arc a \<lparr>cat_namespace = Arc a \<lparr>resolves_spec_term = (\<lambda>_. False),
     fits_spec_term_with = (\<lambda>_ _ _. False), validate_entity = (\<lambda>_. [])\<rparr>,
     cat_with_catalog = (\<lambda>ns. ns), cat_selection = []\<rparr>"

definition ex_platform :: platform where
  "ex_platform =
     \<lparr>cap_id_map = 0, cap_reverse_id = 0, cap_changelog = 0, cap_free_ids = 0, cap_bitmaps = 0,
      cap_forward = 0, cap_reverse = 0, size_prepared_change = 256, size_graph_diff = 256,
      size_index_change = 24, serialized_size = (\<lambda>bm. 8 + 2 * card bm), try_reserve = (\<lambda>_ _. True)\<rparr>"

definition ex_namespace :: "namespace arc" where
  "ex_namespace = Arc 0 \<lparr>resolves_spec_term = (\<lambda>_. False), fits_spec_term_with = (\<lambda>_ _ _. False),
     validate_entity = (\<lambda>_. [])\<rparr>"

definition ex_saved :: entity_graph where
  "ex_saved = (renew_incarnation (replicate 16 1) ex_graph)
     \<lparr>catalog_generation := 1, g_namespace := Some ex_namespace, g_query_cache := qc_new 256\<rparr>"

definition ex_image :: graph_image where
  "ex_image = \<lparr>img_state = \<lparr>st_incarnation = replicate 16 1, st_revision = 0, st_catalog_generation = 1\<rparr>,
     img_rows = [], img_floor = 0, img_changes = []\<rparr>"

text \<open>A reader of literals that knows one literal, and a filter with every kind of term.\<close>

definition ex_parser :: parser_env where
  "ex_parser =
     \<lparr>pe_check = (\<lambda>_. None), pe_alphanumeric = (\<lambda>_. False),
      pe_zinc = (\<lambda>s. if prefix ''true'' s then Inr (KBool True, 4) else Inl ''unexpected'')\<rparr>"

definition ex_filter :: filter_node where
  "ex_filter =
     And (Or (Has (Path [''site''])) (SpecMatch ''ph.lib::Air-Unit''))
       (Or (Missing (Path [''a'', ''b''])) (Cmp (Path [''or'', ''on'']) OpEq (KBool True)))"

definition ex_filter_text :: string where
  "ex_filter_text = ''(site or ph.lib::Air-Unit) and (not a->b or or->on == true)''"

definition ex_filter_limits :: filter_limits where
  "ex_filter_limits = \<lparr>fl_max_bytes = 100, fl_max_nodes = 7, fl_max_depth = 3\<rparr>"

text \<open>A policy that hides the entity \<open>a\<close>, and a budget nothing disturbs.\<close>

definition ex_policy :: policy where
  "ex_policy = allow_all\<lparr>pol_entity := (\<lambda>r. r \<noteq> ''a'')\<rparr>"

definition ex_budget :: budget where
  "ex_budget =
     new_budget read_limits_default 10
       (\<lambda>_. \<lparr>ob_now = 0, ob_cancelled = False, ob_owner_cancelled = None, ob_session = None\<rparr>)"

definition no_specs :: "namespace \<Rightarrow> hdict \<Rightarrow> string \<Rightarrow> nat \<Rightarrow> (budget, read_error, bool) metered" where
  "no_specs n e t d = mret False"

lemma ex_graph_reachable: "reachable ex_parse ex_graph"
  by (simp add: ex_graph_def reach_limits USIZE_MAX_def)

lemma ex_graph_inv: "graph_inv ex_graph"
  using reachable_ok [OF ex_graph_reachable] by simp

lemma ex_site_wf: "dict_wf ex_site"
  by (simp add: ex_site_def dict_wf_def)

lemma ex_patch_wf: "dict_wf ex_patch"
  by (simp add: ex_patch_def dict_wf_def)

lemma ex_entities: "entities ex_graph = []" "version ex_graph = 0" "changelog ex_graph = []"
  by (simp_all add: ex_graph_def with_changelog_limits_def with_changelog_capacity_def)

lemma ex_add: "add 0 ex_site ex_graph = Inr (''a'', ex_graph1)"
proof -
  have "abs_result (add 0 ex_site ex_graph) = spec_add ex_site (graph_abs ex_graph)"
    using add_cases [OF ex_graph_inv ex_site_wf] by blast
  then obtain g' where "add 0 ex_site ex_graph = Inr (''a'', g')"
    by (cases "add 0 ex_site ex_graph")
      (auto simp: spec_add_def graph_abs_def ex_entities ex_site_def dict_get_def href_from_val_def
        U64_MAX_def)
  then show ?thesis by (simp add: ex_graph1_def)
qed

lemma ex_graph1_step: "graph_step ex_parse ex_graph ex_graph1"
  using step_add [OF ex_site_wf ex_add] .

lemma ex_graph1_reachable: "reachable ex_parse ex_graph1"
  using reach_step [OF ex_graph_reachable ex_graph1_step] .

lemma ex_graph1_inv: "graph_inv ex_graph1" "caches_ok ex_parse ex_graph1"
  using reachable_ok [OF ex_graph1_reachable] by simp_all

lemma ex_graph1_entities: "entities ex_graph1 = [(''a'', ex_site)]" "version ex_graph1 = 1"
  using add_success [OF ex_graph_inv ex_site_wf ex_add] by (simp_all add: ex_entities)

lemma ex_equip_wf: "dict_wf ex_equip"
  by (simp add: ex_equip_def dict_wf_def)

lemma ex_add2: "add 0 ex_equip ex_graph1 = Inr (''b'', ex_graph2)"
proof -
  have "abs_result (add 0 ex_equip ex_graph1) = spec_add ex_equip (graph_abs ex_graph1)"
    using add_cases [OF ex_graph1_inv(1) ex_equip_wf] by blast
  then obtain g' where "add 0 ex_equip ex_graph1 = Inr (''b'', g')"
    by (cases "add 0 ex_equip ex_graph1")
      (auto simp: spec_add_def graph_abs_def ex_graph1_entities ex_equip_def dict_get_def
        href_from_val_def U64_MAX_def U32_MAX_def)
  then show ?thesis by (simp add: ex_graph2_def)
qed

lemma ex_graph2_step: "graph_step ex_parse ex_graph1 ex_graph2"
  using step_add [OF ex_equip_wf ex_add2] .

lemma ex_graph2_reachable: "reachable ex_parse ex_graph2"
  using reach_step [OF ex_graph1_reachable ex_graph2_step] .

lemma ex_graph2_inv: "graph_inv ex_graph2" "caches_ok ex_parse ex_graph2"
  using reachable_ok [OF ex_graph2_reachable] by simp_all

lemma ex_graph2_entities: "entities ex_graph2 = [(''a'', ex_site), (''b'', ex_equip)]" "version ex_graph2 = 2"
proof -
  have "cmp ''b'' ''a'' = Greater" by code_simp
  with add_success [OF ex_graph1_inv(1) ex_equip_wf ex_add2]
  show "entities ex_graph2 = [(''a'', ex_site), (''b'', ex_equip)]" "version ex_graph2 = 2"
    by (simp_all add: ex_graph1_entities)
qed

lemma ex_graph2_floor: "floor_version ex_graph2 \<le> 1"
proof -
  have "changelog_byte_capacity ex_graph1 = 100000"
    using add_success [OF ex_graph_inv ex_site_wf ex_add]
    by (simp add: same_config_def ex_graph_def with_changelog_limits_def with_changelog_capacity_def)
  moreover have "\<exists>n. diff_bytes ''b'' [ex_equip] 100000 = Some n"
    by (simp add: diff_bytes_cost ex_equip_def name_cost_def value_cost_def href_from_val_def opt_len_def
        saturating_add_def USIZE_MAX_def)
  ultimately have "changelog ex_graph2 \<noteq> []"
    using add_success [OF ex_graph1_inv(1) ex_equip_wf ex_add2] by (auto simp: logged_def)
  moreover have "floor_version ex_graph2 + length (changelog ex_graph2) = 2"
    using retained_length [OF graph_inv_retained [OF ex_graph2_inv(1)]] by (simp add: ex_graph2_entities)
  ultimately show ?thesis by (cases "changelog ex_graph2") auto
qed

lemma ex_graph1_row: "\<exists>n. rows ex_graph1 n = Some ex_site"
proof -
  have "map_of (entities ex_graph1) ''a'' = Some ex_site" by (simp add: ex_graph1_entities)
  then obtain n where "map_of (id_map ex_graph1) ''a'' = Some n"
    by (rule graph_inv_Some [OF ex_graph1_inv(1)])
  with rows_stored [OF ex_graph1_inv(1)] show ?thesis by (auto simp: ex_graph1_entities)
qed

lemma distinct_singletonD: "distinct xs \<Longrightarrow> set xs = {x} \<Longrightarrow> xs = [x]"
proof (cases xs)
  case (Cons a ys)
  moreover assume "distinct xs" "set xs = {x}"
  ultimately have "a = x" "set ys \<subseteq> {x}" "x \<notin> set ys" by auto
  then have "ys = []" by (cases ys) auto
  with Cons \<open>a = x\<close> show ?thesis by simp
qed simp

section \<open>The store\<close>

text \<open>C1: The representation invariant holds in every reachable graph: the numbering and its
  inverse agree and partition the allocated numbers with the free list, every entity is stored
  under its own identifier, the three secondary indexes hold exactly the keys of the stored
  entities, the log is a gap-free run of complete commit units up to the current version within
  its limits, and both caches are within their bounds.\<close>

theorem reachable_graph_inv: "reachable parse g \<Longrightarrow> graph_inv g"
  using reachable_ok by blast

theorem reachable_graph_inv_witness:
  "reachable ex_parse ex_graph1 \<and> graph_inv ex_graph1 \<and> entities ex_graph1 = [(''a'', ex_site)]"
  using reachable_graph_inv [OF ex_graph1_reachable] ex_graph1_reachable ex_graph1_entities by simp

text \<open>C2: Adding an entity refines the abstract store: it returns the same error or the same
  identifier, and a success abstracts to the store with that entity and the next revision.  In
  particular it never panics, and the numbers run out only when 2^32 entities are stored.\<close>

theorem add_refines:
  assumes "graph_inv g" and "dict_wf e"
  shows "abs_result (add now e g) = spec_add e (graph_abs g)"
  using add_cases [OF assms] by blast

theorem add_refines_witness:
  "graph_inv ex_graph1 \<and> dict_wf ex_site \<and>
   abs_result (add 0 ex_site ex_graph1) = Inl (Err (DuplicateRef ''a''))"
  using add_refines [OF ex_graph1_inv(1) ex_site_wf, of 0] ex_graph1_inv(1) ex_site_wf
  by (simp add: spec_add_def graph_abs_def ex_graph1_entities ex_site_def dict_get_def
      href_from_val_def)

text \<open>C3: Updating an entity refines the abstract store: unknown entities, patches that touch the
  identity and an exhausted revision counter are refused, an empty patch changes nothing, and any
  other patch is merged into the entity under the next revision.\<close>

theorem update_refines:
  assumes "graph_inv g" and "dict_wf changes"
  shows "map_sum (\<lambda>e. e) graph_abs (update now rv changes g) = spec_update rv changes (graph_abs g)"
  using update_cases [OF assms] by blast

theorem update_refines_witness:
  "graph_inv ex_graph1 \<and> dict_wf ex_patch \<and>
   map_sum (\<lambda>e. e) graph_abs (update 0 ''a'' ex_patch ex_graph1) =
     Inr \<lparr>contents = [''a'' \<mapsto> HDict [(''id'', KRef (href_from_val ''a'')), (''area'', KStr ''big'')]],
          revision = 2\<rparr>"
  using update_refines [OF ex_graph1_inv(1) ex_patch_wf, of 0 "''a''"] ex_graph1_inv(1) ex_patch_wf
  by (simp add: spec_update_def graph_abs_def ex_graph1_entities ex_site_def ex_patch_def dict_get_def
      dict_is_empty_def dict_merge_def dict_set_def U64_MAX_def)

text \<open>C4: Removing an entity refines the abstract store: it returns the stored entity and forgets
  it, or reports that there is none.\<close>

theorem remove_refines:
  assumes "graph_inv g"
  shows "abs_result (remove now rv g) = spec_remove rv (graph_abs g)"
  using remove_cases [OF assms] by blast

theorem remove_refines_witness:
  "graph_inv ex_graph1 \<and>
   abs_result (remove 0 ''a'' ex_graph1) = Inr (ex_site, \<lparr>contents = Map.empty, revision = 2\<rparr>)"
  using remove_refines [OF ex_graph1_inv(1), of 0 "''a''"] ex_graph1_inv(1)
  by (simp add: spec_remove_def graph_abs_def ex_graph1_entities U64_MAX_def)

section \<open>Queries\<close>

text \<open>C5: A query on a reachable graph returns what evaluating the filter on every stored entity
  selects, each selected entity once, cut to the limit when there is one; a filter that does not
  parse or that names an unknown spec is refused.  Index acceleration and both caches are
  invisible in the result.\<close>

theorem read_all_selects:
  assumes "reachable parse g"
  shows "query_spec parse flt limit g (snd (read_all parse flt limit g))"
  using reachable_ok [OF assms] read_all_ok by blast

theorem read_all_selects_witness:
  "reachable ex_parse ex_graph1 \<and> snd (read_all ex_parse ''site'' 0 ex_graph1) = Inr [ex_site]"
proof -
  have m: "graph_matches ex_graph1 (Has (Path [''site''])) ex_site"
    by (simp add: graph_matches_def ex_site_def dict_get_def)
  have "selected ex_graph1 (Has (Path [''site''])) = {ex_site}"
    using m by (auto simp: selected_def ex_graph1_entities split: if_splits)
  then have "returns_selected ex_graph1 (Has (Path [''site''])) 0 res \<Longrightarrow> res = [ex_site]" for res
    by (auto simp: returns_selected_def dest: distinct_singletonD)
  then show ?thesis
    using read_all_selects [OF ex_graph1_reachable, of "''site''" 0] ex_graph1_reachable
    by (auto simp: query_spec_def ex_parse_def reject_unresolved_specs_def unresolved_specs_def)
qed

text \<open>C6: The bitmap candidates that accelerate a query lose nothing: whenever the indexes offer a
  candidate set for a filter, the number of every stored entity the filter matches is in it.\<close>

theorem candidates_keep_matches:
  assumes "graph_inv g"
    and "bitmap_candidates ast (g_tags g) (g_values g) (universe g) = Some bm"
    and "rows g n = Some e" and "graph_matches g ast e"
  shows "n \<in> bm"
  using candidates_complete [OF assms(1,3,2,4)] .

theorem candidates_keep_matches_witness:
  "\<exists>n bm. graph_inv ex_graph1 \<and>
     bitmap_candidates (Has (Path [''site''])) (g_tags ex_graph1) (g_values ex_graph1)
       (universe ex_graph1) = Some bm \<and>
     rows ex_graph1 n = Some ex_site \<and> n \<in> bm"
proof -
  have m: "graph_matches ex_graph1 (Has (Path [''site''])) ex_site"
    by (simp add: graph_matches_def ex_site_def dict_get_def)
  obtain n where n: "rows ex_graph1 n = Some ex_site" using ex_graph1_row by blast
  then have "(n, ''site'') \<in> tag_entries (g_tags ex_graph1)"
    using graph_indexes(4) [OF ex_graph1_inv(1)] by (auto simp: ex_site_def dict_get_def)
  then obtain bm where "has_tag (g_tags ex_graph1) ''site'' = Some bm"
    using has_tag_None [OF graph_indexes(1) [OF ex_graph1_inv(1)], of "''site''"] by auto
  then have "bitmap_candidates (Has (Path [''site''])) (g_tags ex_graph1) (g_values ex_graph1)
      (universe ex_graph1) = Some bm" by simp
  with candidates_keep_matches [OF ex_graph1_inv(1) this n m] n ex_graph1_inv(1) show ?thesis by blast
qed

text \<open>C7: Reference traversal answers from the adjacency index what the stored entities say:
  \<open>refs_to\<close> returns the identifiers of exactly the entities with a reference to the target, and
  \<open>refs_from\<close> exactly the targets of the entity's own references, by the given tag or by any.\<close>

theorem refs_exact:
  assumes "graph_inv g"
  shows "set (refs_to g rv rt) = {source. \<exists>e t. map_of (entities g) source = Some e \<and>
           (t, rv) \<in> ref_edges e \<and> (rt = None \<or> rt = Some t)} \<and>
         set (refs_from g rv rt) = {target. \<exists>e t. map_of (entities g) rv = Some e \<and>
           (t, target) \<in> ref_edges e \<and> (rt = None \<or> rt = Some t)}"
  using refs_to_exact [OF assms] refs_from_exact [OF assms] by blast

theorem refs_exact_witness:
  "graph_inv ex_graph2 \<and> set (refs_to ex_graph2 ''a'' None) = {''b''} \<and>
   set (refs_from ex_graph2 ''b'' (Some ''siteRef'')) = {''a''}"
  using refs_exact [OF ex_graph2_inv(1), of "''a''" None]
    refs_exact [OF ex_graph2_inv(1), of "''b''" "Some ''siteRef''"] ex_graph2_inv(1)
  by (auto simp: ex_graph2_entities ref_edges_def ex_site_def ex_equip_def dict_get_def href_from_val_def
      split: if_splits)

section \<open>The change feed\<close>

text \<open>C8: \<open>changes_since\<close> reports a gap exactly when the cursor lies below the floor; otherwise it
  returns the tail of the log behind the cursor, which holds every later revision once and in
  order.\<close>

theorem changes_since_exact:
  assumes "graph_inv g"
  shows "changes_since g v =
      (if v < floor_version g
       then Inl \<lparr>subscriber_version = v, gap_floor_version = floor_version g\<rparr>
       else Inr (drop (v - floor_version g) (changelog g))) \<and>
    (floor_version g \<le> v \<longrightarrow>
       map gd_version (drop (v - floor_version g) (changelog g)) = [Suc v..<Suc (version g)])"
  using changes_since_eq [OF graph_inv_retained [OF assms]]
    retained_drop_versions [OF graph_inv_retained [OF assms]] by simp

theorem changes_since_exact_witness:
  "graph_inv ex_graph1 \<and> changes_since ex_graph1 1 = Inr []"
proof -
  have "floor_version ex_graph1 \<le> 1"
    using retained_versions [OF graph_inv_retained [OF ex_graph1_inv(1)]] by (simp add: ex_graph1_entities)
  then show ?thesis
    using changes_since_exact [OF ex_graph1_inv(1), of 1] ex_graph1_inv(1) by (auto simp: ex_graph1_entities)
qed

text \<open>C9: Reading the feed by commit units never splits a unit and always comes to an end: a cursor
  beyond the head or below the floor is refused, a cursor inside a unit is refused with that
  unit, and from any other cursor draining the iterator returns whole units that together are
  the rest of the log.\<close>

theorem change_units_whole:
  assumes "graph_inv g"
  shows "if version g < v then change_units_since g v = Inl (Future (version g))
    else if v < floor_version g
    then change_units_since g v = Inl (Gap \<lparr>subscriber_version = v, gap_floor_version = floor_version g\<rparr>)
    else (\<exists>s \<in> gd_span ` set (changelog g).
            change_units_since g v = Inl (InsideUnit s) \<and> span_first s \<le> v \<and> v < span_last s) \<or>
      (\<exists>u us. change_units_since g v = Inr u \<and> cu_state u = graph_state g \<and>
         drain_units u = Inr us \<and> list_all whole_unit us \<and>
         concat (map snd us) = drop (v - floor_version g) (changelog g))"
  using change_units_since_ok [OF graph_inv_retained [OF assms], of v]
  by (simp add: change_units_since_def not_less)

theorem change_units_whole_witness:
  "graph_inv ex_graph1 \<and> change_units_since ex_graph1 5 = Inl (Future 1)"
  using change_units_whole [OF ex_graph1_inv(1), of 5] ex_graph1_inv(1) by (simp add: ex_graph1_entities)

text \<open>C10: Replaying the feed reproduces the store: whatever operations lead from one reachable
  graph to another, if the second graph can still serve the changes since the first graph's
  version, applying them to the first graph's contents gives the second graph's contents.\<close>

theorem feed_replays:
  assumes "reachable parse g" and "(graph_step parse)\<^sup>*\<^sup>* g g'"
    and "changes_since g' (version g) = Inr ds"
  shows "fold apply_diff ds (map_of (entities g)) = map_of (entities g')"
  by (rule replay_since [OF assms(2) reachable_run_inv [OF assms(1)] assms(3)])

theorem feed_replays_witness:
  "reachable ex_parse ex_graph1 \<and> (graph_step ex_parse)\<^sup>*\<^sup>* ex_graph1 ex_graph2 \<and>
   (\<exists>ds. changes_since ex_graph2 1 = Inr ds \<and>
      fold apply_diff ds [''a'' \<mapsto> ex_site] = [''a'' \<mapsto> ex_site, ''b'' \<mapsto> ex_equip])"
proof -
  have "(graph_step ex_parse)\<^sup>*\<^sup>* ex_graph1 ex_graph2" using ex_graph2_step by blast
  moreover obtain ds where "changes_since ex_graph2 (version ex_graph1) = Inr ds"
    using changes_since_eq [OF graph_inv_retained [OF ex_graph2_inv(1)]] ex_graph2_floor
    by (simp add: ex_graph1_entities)
  ultimately show ?thesis
    using feed_replays [OF ex_graph1_reachable, of ex_graph2 ds] ex_graph1_reachable
    by (auto simp: ex_graph1_entities ex_graph2_entities fun_upd_twist)
qed

text \<open>C11: Appending a commit unit always returns, and what it leaves in the log is as much as the
  limits allow: complete units up to the new version, a tail of the old log followed by the new
  unit, within both capacities, and every other such tail is shorter.\<close>

theorem append_keeps_longest_tail:
  fixes g :: entity_graph
  assumes "retained (floor_version g) (changelog g) h" and "unit_ok h u (version g)"
    and "changelog_bytes g = bytes_of (changelog g)"
    and "changelog_bytes g \<le> changelog_byte_capacity g"
    and "bytes_of u \<le> changelog_byte_capacity g" and "2 * changelog_byte_capacity g \<le> USIZE_MAX"
  shows "\<exists>log low.
    append_committed_unit now u g =
      Some (g\<lparr>changelog := log, changelog_bytes := bytes_of log, floor_version := low\<rparr>) \<and>
    retained low log (version g) \<and> suffix log (changelog g @ stamp now u) \<and>
    length log \<le> changelog_capacity g \<and> bytes_of log \<le> changelog_byte_capacity g \<and>
    (\<forall>k suf. retained k suf (version g) \<and> suffix suf (changelog g @ stamp now u) \<and>
       length suf \<le> changelog_capacity g \<and> bytes_of suf \<le> changelog_byte_capacity g \<longrightarrow>
       suffix suf log)"
  by (rule append_committed_unit_ok [OF assms])

theorem append_keeps_longest_tail_witness:
  "\<exists>g' :: entity_graph. append_committed_unit 7 [add_diff 1 ''a'' ex_site 300] (ex_graph\<lparr>version := 1\<rparr>) = Some g' \<and>
     changelog g' = [(add_diff 1 ''a'' ex_site 300)\<lparr>gd_timestamp := 7\<rparr>]"
proof -
  let ?g = "ex_graph\<lparr>version := 1\<rparr>" and ?u = "[add_diff 1 ''a'' ex_site 300]"
  have f: "floor_version ex_graph = 0" "changelog_bytes ex_graph = 0" "changelog_capacity ex_graph = 10"
      "changelog_byte_capacity ex_graph = 100000"
    by (simp_all add: ex_graph_def with_changelog_limits_def with_changelog_capacity_def)
  have u: "unit_ok 0 ?u 1" by (simp add: unit_ok_def add_diff_def singleton_def)
  have b: "bytes_of ?u = 300" by (simp add: add_diff_def)
  obtain log low where log: "append_committed_unit 7 ?u ?g =
        Some (?g\<lparr>changelog := log, changelog_bytes := bytes_of log, floor_version := low\<rparr>)"
      "suffix log (stamp 7 ?u)"
      "\<forall>k suf. retained k suf 1 \<and> suffix suf (stamp 7 ?u) \<and> length suf \<le> 10 \<and>
         bytes_of suf \<le> 100000 \<longrightarrow> suffix suf log"
    using append_keeps_longest_tail [of ?g 0 ?u 7] u b by (auto simp: ex_entities f USIZE_MAX_def)
  have "suffix (stamp 7 ?u) log"
    by (rule suffix_stamp_unit [OF u, where xs = "[]" and cap = 10 and byte_cap = 100000])
      (use log(3) b in simp_all)
  with log(2) have "log = stamp 7 ?u" by (rule suffix_order.antisym)
  with log(1) show ?thesis by simp
qed

section \<open>Subscribers\<close>




section \<open>Indexes\<close>

text \<open>C12: Registering a field always succeeds below the generation bound and backfills the index:
  afterwards an equality lookup returns exactly the numbers of the stored entities whose value of
  the field has that key.\<close>

theorem index_field_backfills:
  assumes "graph_inv g" and "index_generation g < U64_MAX" and "orderable_from_kind val = Some key"
  shows "\<exists>g'. index_field f g = Some g' \<and> graph_inv g' \<and> entities g' = entities g \<and>
    set (eq_lookup (g_values g') f val) =
      {n. \<exists>e x. rows g' n = Some e \<and> dict_get e f = Some x \<and> orderable_from_kind x = Some key}"
proof -
  obtain g' where g': "index_field f g = Some g'" "graph_inv g'" "has_index (g_values g') f"
      "entities g' = entities g"
    using index_field_ok [OF assms(1,2), of f] by blast
  with set_eq_lookup [OF assms(3)] graph_indexes(5) [OF g'(2)] show ?thesis
    by (auto simp: vidx_keys_def)
qed

theorem index_field_backfills_witness:
  "\<exists>g'. index_field ''area'' ex_graph = Some g' \<and> graph_inv g' \<and>
     set (eq_lookup (g_values g') ''area'' (KStr ''x'')) = {}"
proof -
  have "index_generation ex_graph = 0"
    by (simp add: ex_graph_def with_changelog_limits_def with_changelog_capacity_def)
  then have "index_generation ex_graph < U64_MAX" by (simp add: U64_MAX_def)
  from index_field_backfills [OF ex_graph_inv this, of "KStr ''x''" _ "''area''"] show ?thesis
    by (auto simp: ex_entities rows_of_def bind_eq_Some_conv)
qed

text \<open>C13: Rebuilding the value index from the stored entities gives back the index that was
  maintained incrementally.\<close>

theorem rebuild_changes_nothing:
  assumes "graph_inv g"
  shows "graph_inv (rebuild_value_index g) \<and>
    vidx_entries (g_values (rebuild_value_index g)) = vidx_entries (g_values g)"
  using rebuild_value_index_ok [OF assms] rebuild_entries [OF assms] by blast

theorem rebuild_changes_nothing_witness:
  "graph_inv ex_graph2 \<and>
   vidx_entries (g_values (rebuild_value_index ex_graph2)) = vidx_entries (g_values ex_graph2)"
  using rebuild_changes_nothing [OF ex_graph2_inv(1)] ex_graph2_inv(1) by simp

text \<open>C14: The six lookups of a value index return exactly the numbers filed under the keys the
  comparison selects, in the total order of the keys; a value of a kind that is not indexed finds
  nothing.\<close>

theorem lookups_exact:
  assumes "vidx_inv v" and "orderable_from_kind val = Some key"
  shows "set (eq_lookup v f val) = {n. \<exists>k. (n, f, k) \<in> vidx_entries v \<and> k = key} \<and>
    set (ne_lookup v f val) = {n. \<exists>k. (n, f, k) \<in> vidx_entries v \<and> k \<noteq> key} \<and>
    set (lt_lookup v f val) = {n. \<exists>k. (n, f, k) \<in> vidx_entries v \<and> k < key} \<and>
    set (le_lookup v f val) = {n. \<exists>k. (n, f, k) \<in> vidx_entries v \<and> k \<le> key} \<and>
    set (gt_lookup v f val) = {n. \<exists>k. (n, f, k) \<in> vidx_entries v \<and> key < k} \<and>
    set (ge_lookup v f val) = {n. \<exists>k. (n, f, k) \<in> vidx_entries v \<and> key \<le> k}"
  using set_eq_lookup [OF assms(2)] set_ne_lookup [OF assms] set_range_lookup [OF assms]
  by (simp add: lt_lookup_def le_lookup_def gt_lookup_def ge_lookup_def)

theorem lookups_exact_witness:
  "vidx_inv ex_values \<and> lt_lookup ex_values ''dis'' (KStr ''z'') = [4] \<and>
   set (lt_lookup ex_values ''dis'' (KStr ''z'')) =
     {n. \<exists>k. (n, ''dis'', k) \<in> vidx_entries ex_values \<and> k < OStr ''z''}"
proof -
  have e: "indexes ex_values = [(''dis'', [(OStr ''m'', [4])])]"
    by (simp add: ex_values_def vidx_add_def vidx_index_field_def vidx_new_def bt_push_def)
  have "vidx_inv ex_values"
    by (auto simp: vidx_inv_def e tree_at_def tree_ok_def no_empty_vec_def vec_at_def split: if_splits)
  moreover have "lt_lookup ex_values ''dis'' (KStr ''z'') = [4]"
    by (simp add: lt_lookup_def range_lookup_def e) code_simp
  ultimately show ?thesis using lookups_exact [of ex_values "KStr ''z''" "OStr ''z''" "''dis''"] by simp
qed

section \<open>Values, budgets and caches\<close>

text \<open>C15: The metered traversals of \<open>size.rs\<close> compute a total: the size of a logged change is the
  sum of the sizes of its parts, and it is refused exactly when the total work, the total size or
  the nesting depth exceeds its bound.  A patch is charged for its own tags and for the values it
  replaces.\<close>

theorem diff_sizes_are_totals:
  "diff_bytes ident rs limit =
     (case add_cost (1, saturating_add (length ident) 256, 0) (cost_rows rs 1) of (w, y, d) \<Rightarrow>
        if w \<le> USIZE_MAX \<and> y \<le> limit \<and> d \<le> 64 then Some y else None) \<and>
   patch_diff_bytes ident old changes limit =
     (case add_cost (1, saturating_add (length ident) 384, 0)
        (add_cost (cost_dict changes 1) (cost_tags (previous_tags_of old (tags changes)) 1)) of
        (w, y, d) \<Rightarrow> if w \<le> USIZE_MAX \<and> y \<le> limit \<and> d \<le> 64 then Some y else None)"
  by (simp only: diff_bytes_cost patch_diff_bytes_cost)

text \<open>C16: Recovery and the graph agree on the size of a patch: the size computed from the patch and
  the row it changes is the size computed from the two dictionaries that were logged.\<close>

theorem patch_size_recomputed:
  assumes "patch_diff_bytes ident old changes limit = Some n" and "dict_wf changes"
    and "limit < USIZE_MAX"
  shows "diff_bytes ident [changes, previous_values old (tags changes) dict_new] limit = Some n"
  by (rule patch_as_diff [OF assms])

theorem patch_size_recomputed_witness:
  "\<exists>n. patch_diff_bytes ''a'' ex_site ex_patch 10000 = Some n \<and>
   diff_bytes ''a'' [ex_patch, previous_values ex_site (tags ex_patch) dict_new] 10000 = Some n"
proof -
  obtain n where n: "patch_diff_bytes ''a'' ex_site ex_patch 10000 = Some n"
    by (simp add: patch_diff_bytes_cost ex_site_def ex_patch_def dict_get_def
        name_cost_def value_cost_def saturating_add_def USIZE_MAX_def)
  with patch_size_recomputed [OF n ex_patch_wf] show ?thesis by (simp add: USIZE_MAX_def)
qed

text \<open>C17: The query cache stays within its capacity, returns what was last inserted for a filter
  and version, and never answers with anything that was not inserted under that key.\<close>

theorem query_cache_sound:
  assumes "qc_inv now c" and "ver \<le> now"
  shows "qc_inv now (qc_insert flt ver refs c) \<and>
    length (qc_entries (qc_insert flt ver refs c)) \<le> 1024 \<and>
    fst (qc_get flt ver (qc_insert flt ver refs c)) = Some refs \<and>
    (\<forall>flt' ver' x. fst (qc_get flt' ver' (qc_insert flt ver refs c)) = Some x \<longrightarrow>
       (flt', ver') = (flt, ver) \<and> x = refs \<or> fst (qc_get flt' ver' c) = Some x)"
proof -
  have ins: "qc_inv now (qc_insert flt ver refs c)" by (rule qc_inv_insert [OF assms])
  then have wf: "hm_wf (qc_entries c)" "hm_wf (qc_entries (qc_insert flt ver refs c))"
    using assms(1) by (simp_all add: qc_inv_def)
  have "length (qc_entries (qc_insert flt ver refs c)) \<le> 1024" using ins by (simp add: qc_inv_def)
  with ins qc_insert_lookup [OF wf(1), of flt ver refs] show ?thesis
    unfolding qc_get_lookup(1) [OF wf(1)] qc_get_lookup(1) [OF wf(2)] by blast
qed

theorem query_cache_sound_witness:
  "qc_inv 3 (qc_new 256) \<and> fst (qc_get ''site'' 3 (qc_insert ''site'' 3 [''a''] (qc_new 256))) = Some [''a'']"
proof -
  have "qc_inv 3 (qc_new 256)" using qc_inv_new [of 3] by (simp add: DEFAULT_QUERY_CACHE_CAPACITY_def)
  with query_cache_sound [OF this, of 3 "''site''" "[''a'']"] show ?thesis by simp
qed

text \<open>C18: Merging a patch sets the tags it names, removes those it marks for removal and leaves
  the others, whatever order the patch is iterated in.\<close>

theorem merge_patches_each_tag:
  assumes "dict_wf changes"
  shows "dict_get (dict_merge d changes) k =
    (case dict_get changes k of None \<Rightarrow> dict_get d k | Some KRemove \<Rightarrow> None | Some v \<Rightarrow> Some v)"
  using dict_get_merge [OF assms] by (simp add: patched_def)

theorem merge_patches_each_tag_witness:
  "dict_wf ex_patch \<and> dict_get (dict_merge ex_site ex_patch) ''site'' = None \<and>
   dict_get (dict_merge ex_site ex_patch) ''area'' = Some (KStr ''big'')"
  using merge_patches_each_tag [OF ex_patch_wf, of ex_site "''site''"]
    merge_patches_each_tag [OF ex_patch_wf, of ex_site "''area''"] ex_patch_wf
  by (simp add: ex_patch_def dict_get_def)

text \<open>C19: A filter is rejected with exactly the spec terms the namespace does not resolve, each
  named once.\<close>

theorem unresolved_specs_exact:
  "distinct (unresolved_specs node ns) \<and>
   set (unresolved_specs node ns) = {s \<in> spec_terms node. \<not> known_term ns s}"
  by (simp add: unresolved_specs_def set_collect_unresolved distinct_collect_unresolved)

section \<open>The catalog\<close>

text \<open>C20: Activating a catalog is a compare-and-swap: it advances the generation by one and
  publishes the new catalog and its namespace, and from then on every further activation against
  the same expected state is refused.\<close>

theorem activation_is_compare_and_swap:
  assumes "compare_activate_catalog expected old new g = Inr (n, g')"
  shows "n = Suc (catalog_generation g) \<and> catalog_generation g' = n \<and> activated g' = Some new \<and>
    g_namespace g' = Some (cat_namespace (arc_val new)) \<and> entities g' = entities g \<and>
    compare_activate_catalog expected old' new' g' = Inl (Err CatalogChanged)"
  using assms
  by (auto simp: compare_activate_catalog_def publish_catalog_def graph_state_def
      checked_add_u64_eq_Some split: if_splits)

theorem activation_is_compare_and_swap_witness:
  "\<exists>g'. compare_activate_catalog (graph_state ex_graph) (ex_catalog 1) (ex_catalog 2)
       (ex_graph\<lparr>activated := Some (ex_catalog 1)\<rparr>) = Inr (1, g') \<and>
     compare_activate_catalog (graph_state ex_graph) (ex_catalog 2) (ex_catalog 3) g' =
       Inl (Err CatalogChanged)"
proof -
  let ?g = "ex_graph\<lparr>activated := Some (ex_catalog 1)\<rparr>"
  have gen: "catalog_generation ex_graph = 0"
    by (simp add: ex_graph_def with_changelog_limits_def with_changelog_capacity_def)
  then obtain g' where r: "compare_activate_catalog (graph_state ex_graph) (ex_catalog 1) (ex_catalog 2) ?g =
      Inr (1, g')"
    by (auto simp: compare_activate_catalog_def graph_state_def ptr_eq_def ex_catalog_def
        publish_catalog_def checked_add_u64_def U64_MAX_def)
  with activation_is_compare_and_swap [OF r, of "ex_catalog 2" "ex_catalog 3"] show ?thesis by auto
qed

section \<open>Grids and hierarchies\<close>

text \<open>\<open>read\<close> is \<open>read_all\<close> presented as a grid, and the columns of an exported grid are the
  tags of its rows, each once and in order, although one is collected through a hash set and the
  other in order of first appearance.\<close>

lemma grids_show_all_tags:
  "read parse flt limit g =
     (fst (read_all parse flt limit g),
      map_sum (\<lambda>e. e) entities_to_grid (snd (read_all parse flt limit g))) \<and>
   grid_rows (entities_to_grid es) = es \<and>
   map col_name (grid_cols (entities_to_grid es)) =
     sorted_list_of_set (\<Union>e \<in> set es. set (tag_names e))"
  by (simp add: read_grid entities_to_grid_def sort_collect_cols grid_new_def grid_from_parts_def
      comp_def col_new_def)

text \<open>C22: Importing a grid never panics and keeps, of the rows with an identifier, the first one of
  each identifier; rows without one are skipped.\<close>

theorem import_keeps_first:
  assumes "\<forall>row \<in> set (grid_rows grid). dict_wf row"
    and "length (grid_rows grid) \<le> Suc U32_MAX"
  shows "\<exists>g. from_grid rand now grid ns = Inr g \<and> graph_inv g \<and>
    (\<forall>rv. map_of (entities g) rv = find (\<lambda>row. result_ref row = Some rv) (grid_rows grid))"
  using from_grid_ok [OF assms, of rand now ns] by (auto simp: import_rows_find)

theorem import_keeps_first_witness:
  "\<exists>g. from_grid [] 0 (HGrid dict_new [] [ex_site, ex_patch, ex_equip, ex_site]) None = Inr g \<and>
     graph_inv g \<and> map_of (entities g) ''a'' = Some ex_site"
proof -
  have "\<exists>g. from_grid [] 0 (HGrid dict_new [] [ex_site, ex_patch, ex_equip, ex_site]) None = Inr g \<and>
     graph_inv g \<and> (\<forall>rv. map_of (entities g) rv =
       find (\<lambda>row. result_ref row = Some rv) [ex_site, ex_patch, ex_equip, ex_site])"
    using import_keeps_first [of "HGrid dict_new [] [ex_site, ex_patch, ex_equip, ex_site]" "[]" 0 None]
    by (simp add: ex_site_wf ex_patch_wf ex_equip_wf U32_MAX_def)
  moreover have "result_ref ex_site = Some ''a''"
    by (simp add: result_ref_def ex_site_def dict_get_def href_from_val_def)
  ultimately show ?thesis by auto
qed

text \<open>C23: Exporting a graph and importing the grid gives back the same entities.\<close>

theorem export_import_roundtrip:
  assumes "graph_inv g"
  shows "\<exists>grid g'. to_grid parse [] g = (g, Inr grid) \<and> from_grid rand now grid ns = Inr g' \<and>
    graph_inv g' \<and> entities g' = entities g"
  using export_import [OF assms] by (simp add: to_grid_def)

theorem export_import_roundtrip_witness:
  "graph_inv ex_graph2 \<and>
   (\<exists>grid g'. to_grid ex_parse [] ex_graph2 = (ex_graph2, Inr grid) \<and>
      from_grid [] 5 grid None = Inr g' \<and> entities g' = [(''a'', ex_site), (''b'', ex_equip)])"
  using export_import_roundtrip [OF ex_graph2_inv(1), of ex_parse "[]" 5 None] ex_graph2_inv(1)
  by (auto simp: ex_graph2_entities)

text \<open>C24: Without a namespace, validation reports an issue exactly when some stored entity refers
  to an identifier that is not stored.\<close>

theorem validate_finds_dangling:
  assumes "graph_inv g" and "g_namespace g = None"
  shows "validate g = [] \<longleftrightarrow>
    (\<forall>rv e t target. map_of (entities g) rv = Some e \<longrightarrow> (t, target) \<in> ref_edges e \<longrightarrow>
       graph_contains g target)"
  using validate_dangling [OF assms] by blast

theorem validate_finds_dangling_witness:
  "graph_inv ex_graph2 \<and> g_namespace ex_graph2 = None \<and> validate ex_graph2 = []"
proof -
  have ns: "g_namespace ex_graph2 = None"
    using add_success [OF ex_graph1_inv(1) ex_equip_wf ex_add2] add_success [OF ex_graph_inv ex_site_wf ex_add]
    by (simp add: same_config_def ex_graph_def with_changelog_limits_def with_changelog_capacity_def)
  moreover have "validate ex_graph2 = []"
    unfolding validate_finds_dangling [OF ex_graph2_inv(1) ns]
    by (auto simp: ex_graph2_entities graph_contains_def ref_edges_def ex_site_def ex_equip_def
        dict_get_def href_from_val_def split: if_splits)
  ultimately show ?thesis using ex_graph2_inv(1) by simp
qed



section \<open>Atomic batches\<close>

lemma ex_batch: "\<exists>p. prepare_batch ex_platform ex_graph 0 [OpAdd ex_site] batch_limits_default = Inr p"
  by (simp del: rbind_eq_Inr add: prepare_batch_def ex_graph_def with_changelog_limits_def
      with_changelog_capacity_def batch_limits_default_def plan_buffer_bytes_def limit_err_def
      layout_array_def ISIZE_MAX_def ex_platform_def checked_add_usize_def USIZE_MAX_def charge_def
      budget_new_def batch_start_def plan_operation_def entity_err_def ex_site_def dict_get_def
      href_from_val_def saturating_add_def saturating_mul_def budget_spends plan_id_def name_cost_def
      value_cost_def opt_len_def MAX_ENTITY_ID_def U32_MAX_def plan_diff_def effect_bytes_def
      diff_bytes_cost checked_add_u64_def U64_MAX_def effect_diff_def charge_map_growth_def
      charge_vec_growth_def count_adds_def effect_change_def unit_diffs_of_def indexed_changes_def)
    (simp del: rbind_eq_Inr add: finish_batch_def limit_err_def checked_add_usize_def USIZE_MAX_def
      charge_map_growth_def charge_vec_growth_def count_adds_def charge_def unit_diffs_of_def
      saturating_add_def saturating_mul_def indexed_changes_def tags_prepare_def plan_tag_change_def
      u32_try_from_def U32_MAX_def plan_tag_row_def tag_names_def set_bit_to_def bitmap_at_def
      touch_tag_def tag_new_def adj_prepare_def plan_adj_change_def plan_edge_row_def charge_growth_def
      adj_new_def values_prepare_def plan_value_change_def plan_value_row_def AUTO_INDEX_FIELDS_def
      vidx_index_field_def vidx_new_def)

lemma ex_batch_applies:
  "\<exists>p k'. prepare_batch ex_platform ex_graph 0 [OpAdd ex_site] batch_limits_default = Inr p \<and>
     reserves ex_platform p \<and> apply_prepared ex_platform 7 p ex_graph = Inr (batch_span p, k')"
proof -
  obtain p where p: "prepare_batch ex_platform ex_graph 0 [OpAdd ex_site] batch_limits_default = Inr p"
    using ex_batch by blast
  have r: "reserves ex_platform p" by (simp add: reserves_def ex_platform_def)
  from batch_ok [OF ex_graph_inv _ p ex_graph_inv same_store_refl refl refl r, of 7] p r ex_site_wf
  show ?thesis by auto
qed

text \<open>C26: A published batch does what its operations do one after the other: however many other
  operations ran between preparing and publishing it, a plan that is accepted finds the contents it
  was prepared for, and the graph it leaves abstracts to the store after the operations in order,
  with the invariant intact.\<close>

theorem batch_applies_in_order:
  assumes "reachable parse g" and "list_all op_wf opers"
    and "prepare_batch al g v opers limits = Inr p"
    and "(graph_step parse)\<^sup>*\<^sup>* g k" and "apply_prepared al' now p k = Inr (span, k')"
  shows "graph_inv k' \<and> graph_abs k = graph_abs g \<and>
    spec_operations opers (graph_abs k) = Inr (graph_abs k')"
  using stale_plan [OF reachable_run_inv [OF assms(1)] assms(2-5)] unfolding run_inv_def by blast

theorem batch_applies_in_order_witness:
  "\<exists>p span k'. prepare_batch ex_platform ex_graph 0 [OpAdd ex_site] batch_limits_default = Inr p \<and>
     apply_prepared ex_platform 7 p ex_graph = Inr (span, k') \<and>
     graph_abs k' = \<lparr>contents = [''a'' \<mapsto> ex_site], revision = 1\<rparr>"
proof -
  obtain p k' where p: "prepare_batch ex_platform ex_graph 0 [OpAdd ex_site] batch_limits_default = Inr p"
      "apply_prepared ex_platform 7 p ex_graph = Inr (batch_span p, k')"
    using ex_batch_applies by blast
  have "spec_operations [OpAdd ex_site] (graph_abs ex_graph) = Inr (graph_abs k')"
    using batch_applies_in_order [OF ex_graph_reachable _ p(1) rtranclp.rtrancl_refl p(2)] ex_site_wf by simp
  then have "graph_abs k' = \<lparr>contents = [''a'' \<mapsto> ex_site], revision = 1\<rparr>"
    by (simp add: graph_abs_def ex_entities spec_add_def ex_site_def dict_get_def href_from_val_def U64_MAX_def)
  with p show ?thesis by blast
qed

text \<open>C27: Publishing a prepared batch never panics and is all or nothing: it is refused as a conflict
  exactly when the state or the set of indexed fields moved since the plan was made, refused for
  lack of memory exactly when a reservation fails, and otherwise it succeeds; a refusal returns no
  new graph.\<close>

theorem publication_is_total:
  assumes "reachable parse g" and "list_all op_wf opers"
    and "prepare_batch al g v opers limits = Inr p" and "(graph_step parse)\<^sup>*\<^sup>* g k"
  shows "if graph_state k \<noteq> graph_state g \<or> index_generation k \<noteq> index_generation g
    then apply_prepared al' now p k = Inl (Err BatchConflict)
    else if \<not> reserves al' p then apply_prepared al' now p k = Inl (Err BatchLimit)
    else \<exists>k'. apply_prepared al' now p k = Inr (batch_span p, k') \<and> graph_inv k'"
  using publish_total [OF reachable_run_inv [OF assms(1)] assms(2-4)] .

theorem publication_is_total_witness:
  "\<exists>p. prepare_batch ex_platform ex_graph 0 [OpAdd ex_site] batch_limits_default = Inr p \<and>
     apply_prepared ex_platform 7 p ex_graph1 = Inl (Err BatchConflict)"
proof -
  obtain p where p: "prepare_batch ex_platform ex_graph 0 [OpAdd ex_site] batch_limits_default = Inr p"
    using ex_batch by blast
  have "(graph_step ex_parse)\<^sup>*\<^sup>* ex_graph ex_graph1" using ex_graph1_step by blast
  moreover have "graph_state ex_graph1 \<noteq> graph_state ex_graph"
    by (simp add: graph_state_def ex_entities ex_graph1_entities)
  ultimately show ?thesis
    using publication_is_total [OF ex_graph_reachable _ p, of ex_graph1 ex_platform 7] p ex_site_wf by simp
qed

text \<open>C28: A published batch is one commit unit: its changes carry consecutive revisions from the one
  after the old version to the new version, they share one span which is the one returned, and
  the log ends with all of them.\<close>

theorem batch_is_one_unit:
  assumes "reachable parse g" and "list_all op_wf opers"
    and "prepare_batch al g v opers limits = Inr p" and "apply_prepared al' now p g = Inr (span, g')"
    and "pb_diffs p \<noteq> []"
  shows "unit_ok (version g) (pb_diffs p) (version g') \<and>
    span = Some \<lparr>span_first = Suc (version g), span_last = version g'\<rparr> \<and>
    suffix (map (gd_timestamp_update (\<lambda>_. now)) (pb_diffs p)) (changelog g')"
  using batch_unit [OF reachable_ok [OF assms(1), THEN conjunct1] assms(2-5)] .

theorem batch_is_one_unit_witness:
  "\<exists>p g'. prepare_batch ex_platform ex_graph 0 [OpAdd ex_site] batch_limits_default = Inr p \<and>
     apply_prepared ex_platform 7 p ex_graph = Inr (Some \<lparr>span_first = 1, span_last = 1\<rparr>, g')"
proof -
  obtain p k' where p: "prepare_batch ex_platform ex_graph 0 [OpAdd ex_site] batch_limits_default = Inr p"
      "apply_prepared ex_platform 7 p ex_graph = Inr (batch_span p, k')"
    using ex_batch_applies by blast
  have wf: "list_all op_wf [OpAdd ex_site]" by (simp add: ex_site_wf)
  note st = batch_step [OF ex_graph_inv wf p]
  then have v: "version k' = 1"
    by (auto simp: graph_abs_def ex_entities spec_add_def ex_site_def dict_get_def href_from_val_def U64_MAX_def)
  have "map gd_version (pb_diffs p) = [1]" using st by (auto simp: published_def v ex_entities)
  then have "pb_diffs p \<noteq> []" by auto
  from batch_is_one_unit [OF ex_graph_reachable wf p this] p v show ?thesis by (auto simp: ex_entities)
qed



section \<open>Recovery\<close>

lemma ex_saved_reachable: "reachable ex_parse ex_saved"
proof -
  have "set_namespace 1 2 ex_namespace (renew_incarnation (replicate 16 1) ex_graph) = Some ex_saved"
    by (simp add: set_namespace_def ex_saved_def renew_incarnation_def ex_graph_def with_changelog_limits_def
        with_changelog_capacity_def checked_add_u64_def U64_MAX_def qc_clear_def qc_new_def
        DEFAULT_QUERY_CACHE_CAPACITY_def)
  then have "graph_step ex_parse (renew_incarnation (replicate 16 1) ex_graph) ex_saved"
    by (rule step_set_namespace)
  then show ?thesis using reach_step [OF reach_step [OF ex_graph_reachable step_renew]] by blast
qed

lemma ex_saved_image: "image recovery_limits_default ex_saved = Inr ex_image"
  by (simp add: image_def recovery_limits_default_def limits_validate_def limits_budget_def ex_saved_def
      renew_incarnation_def ex_graph_def with_changelog_limits_def with_changelog_capacity_def ex_image_def
      graph_state_def)

text \<open>C30: Saving and restoring is a round trip: an image of a reachable graph that is in use (its
  incarnation is set, a catalog is active, and no logged identifier is empty or longer than 4096
  bytes) is always accepted, and the restored graph has the same entities, the same log with the
  same sizes, and the same state.\<close>

theorem image_restore_roundtrip:
  assumes "reachable parse g"
    and "\<forall>d \<in> set (changelog g). gd_ref_val d \<noteq> [] \<and> length (gd_ref_val d) \<le> 4096"
    and "incarnation g \<noteq> replicate 16 0" and "catalog_generation g \<noteq> 0"
    and "image limits g = Inr img"
  shows "\<exists>g'. restore rand now img catalog limits = Inr g' \<and> graph_inv g' \<and>
    entities g' = entities g \<and> changelog g' = changelog g \<and> floor_version g' = floor_version g \<and>
    graph_state g' = graph_state g \<and> activated g' = Some catalog"
proof -
  have "graph_inv g" "\<forall>d \<in> set (changelog g). diff_ok d"
    using reachable_run_inv [OF assms(1)] by (simp_all add: run_inv_def log_ok_def)
  then show ?thesis by (rule image_restore [OF _ _ assms(2-5)])
qed

theorem image_restore_roundtrip_witness:
  "reachable ex_parse ex_saved \<and> image recovery_limits_default ex_saved = Inr ex_image \<and>
   (\<exists>g'. restore [] 3 ex_image (ex_catalog 4) recovery_limits_default = Inr g' \<and>
      graph_state g' = graph_state ex_saved)"
proof -
  have "changelog ex_saved = []" "incarnation ex_saved \<noteq> replicate 16 0" "catalog_generation ex_saved \<noteq> 0"
    by (simp_all add: ex_saved_def renew_incarnation_def ex_graph_def with_changelog_limits_def
        with_changelog_capacity_def)
  with image_restore_roundtrip [OF ex_saved_reachable _ _ _ ex_saved_image, of "[]" 3 "ex_catalog 4"]
    ex_saved_reachable ex_saved_image
  show ?thesis by auto
qed

text \<open>C31: Whatever image is offered, a graph that \<open>restore\<close> accepts is well formed and is the
  image's graph: the invariant holds, each row is stored under its identifier, no identifier
  occurs twice, and the state, the floor and the log are those of the image.\<close>

theorem restore_yields_valid_graph:
  assumes "restore rand now img catalog limits = Inr g"
    and "\<forall>row \<in> set (img_rows img). dict_wf row" and "st_revision (img_state img) \<le> U64_MAX"
  shows "graph_inv g \<and> graph_state g = img_state img \<and> floor_version g = img_floor img \<and>
    map change_from_diff (changelog g) = img_changes img \<and> distinct (map row_key (img_rows img)) \<and>
    map_of (entities g) = map_of (keyed (img_rows img)) \<and> activated g = Some catalog"
  using restore_sound [OF assms(1)] assms(2,3) by (simp add: image_wf_def restored_from_def)

theorem restore_yields_valid_graph_witness:
  "\<exists>g. restore [] 3 ex_image (ex_catalog 4) recovery_limits_default = Inr g \<and> graph_inv g \<and>
     graph_state g = img_state ex_image"
proof -
  obtain g where g: "restore [] 3 ex_image (ex_catalog 4) recovery_limits_default = Inr g"
    by (simp add: restore_def ex_image_def recovery_limits_default_def limits_validate_def limits_budget_def)
  with restore_yields_valid_graph [OF g] show ?thesis by (simp add: ex_image_def U64_MAX_def)
qed

text \<open>C32: \<open>restore\<close> refuses every image whose log names an empty identifier or one of more than
  4096 bytes, although the graph accepts such identifiers and \<open>image\<close> saves them.\<close>

theorem restore_refuses_long_ids:
  assumes "c \<in> set (img_changes img)" and "rc_id c = [] \<or> 4096 < length (rc_id c)"
  shows "restore rand now img catalog limits \<noteq> Inr g"
  using restore_ids [of rand now img catalog limits g] assms by force

theorem restore_refuses_long_ids_witness:
  "restore [] 3 (ex_image\<lparr>img_changes := [change_from_diff (add_diff 1 [] ex_site 300)]\<rparr>) (ex_catalog 4)
     recovery_limits_default \<noteq> Inr ex_saved"
  by (rule restore_refuses_long_ids [of "change_from_diff (add_diff 1 [] ex_site 300)"])
    (simp_all add: change_from_diff_def add_diff_def)

section \<open>The filter parser\<close>

lemma ex_filter_shown: "show_filter (\<lambda>_. ''true'') 0 ex_filter = ex_filter_text"
  by (simp add: ex_filter_def ex_filter_text_def paren_def arrows_def)

lemma ex_filter_showable: "showable ex_parser (\<lambda>_. ''true'') ex_filter"
proof -
  have "showable ex_parser (\<lambda>_. ''true'') (SpecMatch ''ph.lib::Air-Unit'')"
    unfolding showable.simps
    by (rule exI [of _ "''ph''"], rule exI [of _ "[''lib'']"], rule exI [of _ "''Air''"], rule exI [of _ "[''Unit'']"])
      (simp add: is_alpha_def is_name_char_def Let_def)
  then show ?thesis
    by (simp add: ex_filter_def ex_parser_def literal_ok_def is_space_def is_alpha_def is_name_char_def Let_def)
qed

text \<open>C33: Parsing a filter always ends. Whatever the text, the limits and the answers of the check
  that may interrupt it, the parser returns a filter or an error: three units of fuel for each byte
  are enough for the recursion of its productions.\<close>

theorem parser_always_returns:
  "(\<exists>r. parse_filter_controlled v expr limits = Some r) \<and> (\<exists>r. parse_filter v expr = Some r)"
  using parse_filter_controlled_ends by (auto simp: parse_filter_def)

text \<open>C34: A filter the parser returns keeps the limits it was given: it has at most the admitted number
  of nodes and at most the admitted depth, its text is within the admitted length, every path has
  a segment and every segment and every part of a spec name is a name.\<close>

theorem parsed_filters_within_limits:
  assumes "parse_filter_controlled v expr limits = Some (Inr ast)"
  shows "filter_size ast \<le> fl_max_nodes limits \<and> filter_depth ast \<le> fl_max_depth limits \<and>
    length expr \<le> fl_max_bytes limits \<and> filter_wf ast \<and> filter_names ast"
  using parse_filter_controlled_built [OF assms] filter_names_wf by blast

text \<open>C35: The parser reads back every filter from its text. The text is written with as few parentheses
  as possible, with \<open>and\<close> binding tighter than \<open>or\<close> and both grouping to the left; the parser returns
  exactly the filter it was written from, provided the literals are read back, no path starts
  with the keyword \<open>not\<close> and the limits admit the filter.\<close>

theorem printed_filters_parse_back:
  assumes "pe_check v = (\<lambda>_. None)" and "showable v vt f" and "2 + nesting 0 f \<le> MAX_DEPTH"
    and "length (show_filter vt 0 f) \<le> fl_max_bytes limits" and "filter_size f \<le> fl_max_nodes limits"
    and "filter_depth f \<le> fl_max_depth limits"
  shows "parse_filter_controlled v (show_filter vt 0 f) limits = Some (Inr f)"
  using parse_shown [OF _ assms(2-6)] assms(1) by (simp add: never_stops_def)

theorem printed_filters_parse_back_witness:
  "parse_filter_controlled ex_parser ex_filter_text ex_filter_limits = Some (Inr ex_filter)"
proof -
  have "filter_size ex_filter = 7" "filter_depth ex_filter = 3" "nesting 0 ex_filter = 2" "length ex_filter_text = 59"
    by (simp_all add: ex_filter_def ex_filter_text_def)
  then show ?thesis
    using printed_filters_parse_back [OF _ ex_filter_showable, of ex_filter_limits]
    by (simp add: ex_filter_shown ex_parser_def ex_filter_limits_def MAX_DEPTH_def)
qed

theorem parsed_filters_within_limits_witness:
  "parse_filter_controlled ex_parser ex_filter_text ex_filter_limits = Some (Inr ex_filter) \<and>
   filter_size ex_filter \<le> 7 \<and> filter_names ex_filter"
proof -
  have "filter_size ex_filter = 7" "filter_depth ex_filter = 3" "nesting 0 ex_filter = 2" "length ex_filter_text = 59"
    by (simp_all add: ex_filter_def ex_filter_text_def)
  then have p: "parse_filter_controlled ex_parser ex_filter_text ex_filter_limits = Some (Inr ex_filter)"
    using parse_shown [OF _ ex_filter_showable, of ex_filter_limits]
    by (simp add: ex_filter_shown ex_parser_def ex_filter_limits_def MAX_DEPTH_def never_stops_def)
  with parsed_filters_within_limits [OF p] show ?thesis by (simp add: ex_filter_limits_def)
qed

text \<open>The star that the module documentation offers for reading everything is not a filter.\<close>

lemma star_is_no_filter: "\<exists>e. parse_filter v ''*'' = Some (Inl e)"
proof -
  obtain n where fuel: "parse_fuel ''*'' = Suc (Suc (Suc n))"
    by (rule that [of 3]) (simp add: parse_fuel_def)
  have max: "0 < USIZE_MAX" "1 \<le> USIZE_MAX" by (simp_all add: USIZE_MAX_def)
  show ?thesis
    using max
    by (simp add: parse_filter_def parse_filter_controlled_def fuel obind_def checkpoint_def rest_def skip_spaces_def
        advance_def at_end_def is_space_def enter_depth_def pbind_def Let_def MAX_DEPTH_def peek_def
        read_simple_term_def reserve_node_def at_keyword_def read_name_def is_alpha_def)
qed

section \<open>The sanitized view\<close>

lemmas ex_budget_simps =
  ex_budget_def new_budget_def usage_default_def read_limits_default_def mseq_def mbind_def mret_def budget_check_def budget_charge_def
  depth_check_def copy_string_def look_def saturating_add_def USIZE_MAX_def

lemma ex_record:
  "\<exists>b. record_view ex_policy ''b'' ex_equip ex_budget = Inr (Some (HDict [(''id'', KRef (href_from_val ''b''))]), b)"
  by (simp add: record_view_def ex_equip_def ex_policy_def allow_all_def ex_budget_simps dict_new_def dict_set_def
      member_visible.simps visible.simps copy_value.simps catalog_reference_def ref_visible_def own_id_def href_from_val_def)

text \<open>C36: Sanitizing an entity copies exactly what the policy shows. It returns nothing exactly when the
  entity is hidden; otherwise the copy has a tag exactly when the tag is visible and nothing in its
  value is hidden, and then it has the value with hidden nested tags, columns and display names
  removed. The budget decides only whether there is an answer, never what the answer is.\<close>

theorem sanitized_record_exact:
  assumes "record_view pol ident raw b = Inr (found, b')" and "dict_wf raw"
  shows "(found = None \<longleftrightarrow> \<not> pol_entity pol ident) \<and>
    (\<forall>out t. found = Some out \<longrightarrow>
      dict_wf out \<and>
      dict_get out t =
        (case dict_get raw t of
           Some v \<Rightarrow>
             if pol_tag pol ident t \<and> member_shown pol t (own_id ident t v) v then Some (masked pol ident v) else None
         | None \<Rightarrow> None))"
proof -
  have f: "found = record_masked pol ident raw" using answersD [OF answers_record assms(1)] .
  then have "\<forall>out. found = Some out \<longrightarrow> dict_wf out"
    by (auto simp: record_masked_def intro: dict_wf_set_all split: if_splits)
  with f record_masked_get [OF _ assms(2)] show ?thesis by (auto simp: record_masked_def [of pol ident raw])
qed

theorem sanitized_record_exact_witness:
  "\<exists>b. record_view ex_policy ''b'' ex_equip ex_budget = Inr (Some (HDict [(''id'', KRef (href_from_val ''b''))]), b) \<and>
     pol_entity ex_policy ''b'' \<and> dict_wf (HDict [(''id'', KRef (href_from_val ''b''))])"
  using ex_record sanitized_record_exact [OF _ ex_equip_wf] by blast

text \<open>C37: A sanitized record gives nothing away that the policy hides. Everything it discloses, at any depth of
  lists, dictionaries and grids, is permitted: references to visible entities, display names
  that may be shown, visible tags and columns, visible catalog names and nominal values; the only
  exception is the record's own identifier in its \<open>id\<close> tag.\<close>

theorem sanitized_record_discloses_permitted:
  assumes "record_view pol ident raw b = Inr (Some out, b')" and "(t, w) \<in> set (tags out)"
  shows "pol_entity pol ident \<and> pol_tag pol ident t \<and>
    (\<forall>x \<in> set (member_disclosed t w). permitted pol ident x \<or> t = ''id'' \<and> x = DRef ident)"
  using record_discloses [OF _ assms(2)] answersD [OF answers_record assms(1)] by simp

theorem sanitized_record_discloses_permitted_witness:
  "pol_tag ex_policy ''b'' ''id'' \<and> set (member_disclosed ''id'' (KRef (href_from_val ''b''))) = {DRef ''b''}"
proof -
  obtain b where "record_view ex_policy ''b'' ex_equip ex_budget = Inr (Some (HDict [(''id'', KRef (href_from_val ''b''))]), b)"
    using ex_record by blast
  from sanitized_record_discloses_permitted [OF this, of "''id''" "KRef (href_from_val ''b'')"]
  show ?thesis by (simp add: member_disclosed.simps catalog_reference_def ref_display_def href_from_val_def)
qed





text \<open>C39: Work on behalf of a caller stays within its budget. Sanitizing an entity, collecting what points at
  a target and evaluating a filter through the view never panic; they end only with a deadline, a
  cancellation, a closed session or an exhausted allowance; and when they answer, no counter has
  gone down and none exceeds its limit.\<close>

theorem view_keeps_budget:
  assumes "\<forall>n e t d. thrifty (fits n e t d)" and "within b"
  shows "(\<forall>x \<in> {record_view pol ident raw b, view_entity g pol ident b, view_forward g pol r b}.
      case x of Inl err \<Rightarrow> stop_reason err | Inr (_, b') \<Rightarrow> within b' \<and> charged b b') \<and>
    (case view_incoming g pol tgt tag b of Inl err \<Rightarrow> stop_reason err | Inr (_, b') \<Rightarrow> within b' \<and> charged b b') \<and>
    (case matches_controlled (view_env g pol) fits ns node e b of
       Inl err \<Rightarrow> stop_reason err | Inr (_, b') \<Rightarrow> within b' \<and> charged b b')"
proof -
  have *: "case m b of Inl err \<Rightarrow> stop_reason err | Inr (_, b') \<Rightarrow> within b' \<and> charged b b'"
    if "thrifty m" for m :: "(budget, read_error, 'z) metered"
  proof (cases "m b")
    case (Inl err)
    then show ?thesis using thriftyD(1) [OF that] by simp
  next
    case (Inr y)
    obtain a b' where "y = (a, b')" by force
    with Inr have "charged b b'" using thriftyD(2) [OF that] by simp
    with Inr \<open>y = (a, b')\<close> assms(2) show ?thesis by (simp add: charged_def)
  qed
  have "thrifty (matches_at (view_env g pol) fits ns node e 1)" using thrifty_matches assms(1) by blast
  then show ?thesis
    using * [OF thrifty_record] * [OF thrifty_view_entity] * [OF thrifty_view_forward] * [OF view_incoming_steps(1)]
      * [of "matches_at (view_env g pol) fits ns node e 1"]
    by (simp add: matches_controlled_def)
qed

theorem view_keeps_budget_witness:
  "within ex_budget \<and>
   (case record_view ex_policy ''b'' ex_equip ex_budget of Inl err \<Rightarrow> stop_reason err | Inr (_, b) \<Rightarrow> within b)"
proof -
  have w: "within ex_budget" by (simp add: within_def ex_budget_def new_budget_def usage_default_def)
  have "\<forall>n e t d. thrifty (no_specs n e t d)" by (simp add: no_specs_def thrifty_mret)
  note k = view_keeps_budget [OF this w, THEN conjunct1, THEN bspec, OF insertI1, of ex_policy "''b''" ex_equip]
  obtain b where r: "record_view ex_policy ''b'' ex_equip ex_budget = Inr (Some (HDict [(''id'', KRef (href_from_val ''b''))]), b)"
    using ex_record by blast
  show ?thesis using k w unfolding r by simp
qed



end
